(* ===== verification/Prelude.thy ===== *)
theory Prelude
  imports Main "HOL-Library.Word"
begin

text \<open>
  Shared vocabulary of the development: the C integer types as machine words, the
  collections of rewrite rules the component proofs use, and the generic facts on words,
  bits, lists and indexed loops that more than one component needs.

  Conventions.  A \<open>uintN_t\<close> is an \<open>N word\<close>, so \<open>+\<close>, \<open>-\<close> and \<open>*\<close> wrap as they do in C;
  \<open>size_t\<close> is \<open>uint64_t\<close> (\<open>kernel/include/types.h\<close>).  Shift amounts and array subscripts
  are natural numbers obtained with \<open>unat\<close>.  A C array is a list; the invariant of each
  component states that every subscript the code forms is inside it.  A counted \<open>for\<close> loop
  without an early exit is a \<open>fold\<close> over the interval of its counter; a loop with an early
  exit is a recursive function.
\<close>

unbundle bit_operations_syntax

type_synonym u8 = "8 word"
type_synonym u16 = "16 word"
type_synonym u32 = "32 word"
type_synonym u64 = "64 word"

named_theorems kdefs \<open>definitions of small C helpers, unfolded by the component proofs\<close>
named_theorems kinv \<open>invariant preservation facts\<close>

subsection \<open>Words\<close>

lemma unat_lt_pow: "unat (x :: 'a::len word) < 2 ^ LENGTH('a)"
  by (rule unsigned_less)

lemma unat_le_max_u64 [simp]: "unat (x :: u64) \<le> 18446744073709551615"
  using unat_lt_pow [of x] by simp

lemma unat_max_u64 [simp]: "unat (- 1 :: u64) = 18446744073709551615"
  by (simp add: unsigned_minus_1_eq_mask mask_eq_exp_minus_1)

lemma unat_plus_no_wrap:
  fixes x y :: "'a::len word"
  assumes "unat x + unat y < 2 ^ LENGTH('a)"
  shows "unat (x + y) = unat x + unat y"
  using assms by (simp add: unat_word_ariths)

lemma unat_minus_no_wrap:
  fixes x y :: "'a::len word"
  assumes "y \<le> x"
  shows "unat (x - y) = unat x - unat y"
  using assms by (rule unat_sub)

lemma unat_of_nat_no_wrap [simp]:
  "n < 2 ^ LENGTH('a::len) \<Longrightarrow> unat (of_nat n :: 'a word) = n"
  by (simp add: unat_of_nat take_bit_nat_eq_self)

lemma unat_eq_iff [simp]: "(unat x = unat y) = (x = y)"
  by (auto intro: unsigned_word_eqI)

lemma of_nat_eq_iff_word:
  assumes "m < 2 ^ LENGTH('a)" and "n < 2 ^ LENGTH('a)"
  shows "(of_nat m = (of_nat n :: 'a::len word)) = (m = n)"
  using assms by (metis unat_of_nat_no_wrap)

lemma of_nat_unat_eq: "n = unat x \<Longrightarrow> of_nat n = x"
  by simp

lemma unat_pow2: "k < LENGTH('a) \<Longrightarrow> unat (2 ^ k :: 'a::len word) = 2 ^ k"
  using unat_of_nat_no_wrap [of "2 ^ k", where 'a = 'a] by simp

lemma word_le_unat: "(x \<le> y) = (unat x \<le> unat y)"
  by (rule word_le_nat_alt)

lemma word_less_unat: "(x < y) = (unat x < unat y)"
  by (rule word_less_nat_alt)

lemma unat_dec: "x \<noteq> 0 \<Longrightarrow> unat (x - 1) = unat (x :: 'a::len word) - 1"
  using unat_minus_no_wrap [of 1 x] by (simp add: word_le_unat unat_gt_0 Suc_leI)

lemma word_and_not_mask:
  fixes x :: "'a::len word"
  shows "x AND NOT (mask k) = push_bit k (drop_bit k x)"
  by (rule bit_word_eqI) (auto simp: bit_simps)

lemma unat_push_drop:
  fixes x :: "'a::len word"
  shows "unat (push_bit k (drop_bit k x)) = unat x - unat x mod 2 ^ k"
proof -
  have "unat (push_bit k (drop_bit k x)) = push_bit k (drop_bit k (unat x)) mod 2 ^ LENGTH('a)"
    by (simp add: unsigned_push_bit_eq unat_drop_bit_eq take_bit_eq_mod)
  also have "push_bit k (drop_bit k (unat x)) = unat x - unat x mod 2 ^ k"
    by (simp add: push_bit_eq_mult drop_bit_eq_div minus_mod_eq_div_mult)
  also have "(unat x - unat x mod 2 ^ k) mod 2 ^ LENGTH('a) = unat x - unat x mod 2 ^ k"
    by (rule mod_less) (meson diff_le_self le_less_trans unat_lt_pow)
  finally show ?thesis .
qed

lemma unat_and_not_mask:
  fixes x :: "'a::len word"
  shows "unat (x AND NOT (mask k)) = unat x - unat x mod 2 ^ k"
  by (simp only: word_and_not_mask unat_push_drop)

lemma unat_and_mask:
  fixes x :: "'a::len word"
  shows "unat (x AND mask k) = unat x mod 2 ^ k"
  by (simp only: take_bit_eq_mask [symmetric] unsigned_take_bit_eq) (simp add: take_bit_eq_mod)

lemma unat_mask:
  "k \<le> LENGTH('a) \<Longrightarrow> unat (mask k :: 'a::len word) = 2 ^ k - 1"
proof -
  assume k: "k \<le> LENGTH('a)"
  then have "uint (mask k :: 'a word) = int (2 ^ k - 1)"
    unfolding uint_mask_eq by (simp add: min_absorb2 mask_eq_exp_minus_1 of_nat_diff)
  then show ?thesis
    unfolding uint_nat of_nat_eq_iff .
qed

lemma unat_shift_right: "unat (drop_bit k (x :: 'a::len word)) = unat x div 2 ^ k"
  by (simp only: unat_drop_bit_eq) (simp add: drop_bit_eq_div)

lemma unat_half_less:
  assumes "drop_bit 1 x \<noteq> 0"
  shows "unat (drop_bit 1 x) < unat (x :: 'a::len word)"
proof -
  have "x \<noteq> 0"
    using assms by auto
  then have "unat x \<noteq> 0"
    by (simp add: unat_gt_0)
  then have "unat x div 2 < unat x"
    by simp
  then show ?thesis
    using unat_shift_right [of 1 x] by simp
qed

lemma bit_or_pow2:
  "n < LENGTH('a) \<Longrightarrow> bit ((w :: 'a::len word) OR 2 ^ k) n = (bit w n \<or> n = k)"
  by (auto simp: bit_or_iff bit_exp_iff)

lemma bit_and_not_pow2:
  "n < LENGTH('a) \<Longrightarrow> bit ((w :: 'a::len word) AND NOT (2 ^ k)) n = (bit w n \<and> n \<noteq> k)"
  by (auto simp: bit_and_iff bit_not_iff bit_exp_iff)

lemma and_one_eq_bit: "((x :: 'a::len word) AND 1 = 1) = bit x 0"
  by (simp add: and_one_eq bit_0 odd_iff_mod_2_eq_one even_iff_mod_2_eq_zero)

lemma and_one_zero_eq_bit: "((x :: 'a::len word) AND 1 = 0) = (\<not> bit x 0)"
  by (simp add: and_one_eq bit_0 odd_iff_mod_2_eq_one even_iff_mod_2_eq_zero)

text \<open>Arithmetic at the top of the 64-bit range, kept away from the large literals.\<close>

lemma top_minus_less: "b < M \<Longrightarrow> (M - 1 - b < a) = (M \<le> a + (b :: nat))"
  by arith

lemma top_div_less: "0 < a \<Longrightarrow> 0 < M \<Longrightarrow> ((M - 1) div a < b) = (M \<le> a * (b :: nat))"
  by (subst div_less_iff_less_mult) (auto simp: mult.commute)

lemma unat_top: "unat (NOT 0 :: 'a::len word) = 2 ^ LENGTH('a) - 1"
  by (simp add: not_eq_complement unsigned_minus_1_eq_mask mask_eq_exp_minus_1)

subsection \<open>Lists\<close>

lemma nth_update_iff:
  "k < length xs \<Longrightarrow> xs[i := v] ! k = (if i = k then v else xs ! k)"
  by (simp add: nth_list_update)

lemma fold_update_length [simp]:
  "length (fold (\<lambda>i xs. xs[g i := h i]) is xs) = length xs"
  by (induction "is" arbitrary: xs) auto

lemma fold_update_nth:
  "k < length xs \<Longrightarrow>
     fold (\<lambda>i xs. xs[i := h i]) [a..<b] xs ! k = (if a \<le> k \<and> k < b then h k else xs ! k)"
proof (induction "b - a" arbitrary: b)
  case 0
  then show ?case by auto
next
  case (Suc d)
  then obtain c where c: "b = Suc c" "a \<le> c" by (cases b) auto
  have ih: "fold (\<lambda>i xs. xs[i := h i]) [a..<c] xs ! k = (if a \<le> k \<and> k < c then h k else xs ! k)"
    using Suc c by simp
  have "fold (\<lambda>i xs. xs[i := h i]) [a..<b] xs
      = (fold (\<lambda>i xs. xs[i := h i]) [a..<c] xs)[c := h c]"
    using c by simp
  then show ?case
    using ih Suc.prems c by (auto simp: nth_list_update less_Suc_eq)
qed

lemma fold_inv_upt:
  assumes "P a s"
    and "\<And>i s. a \<le> i \<Longrightarrow> i < b \<Longrightarrow> P i s \<Longrightarrow> P (Suc i) (f i s)"
    and "a \<le> b"
  shows "P b (fold f [a..<b] s)"
  using assms(3,2)
proof (induction b rule: dec_induct)
  case base
  then show ?case using assms(1) by simp
next
  case (step n)
  have "P n (fold f [a..<n] s)"
    using step.IH step.prems by simp
  then have "P (Suc n) (f n (fold f [a..<n] s))"
    using step.prems [of n] step.hyps by simp
  then show ?case using step.hyps by simp
qed

lemma sum_list_update_nat:
  fixes xs :: "nat list"
  assumes "i < length xs"
  shows "sum_list (xs[i := v]) = sum_list xs - xs ! i + v"
  using assms
  by (induction xs arbitrary: i) (auto split: nat.splits dest: elem_le_sum_list)

lemma length_filter_update:
  assumes "i < length xs"
  shows "length (filter P (xs[i := v])) =
     length (filter P xs) - (if P (xs ! i) then 1 else 0) + (if P v then 1 else 0)"
  using assms
proof (induction xs arbitrary: i)
  case Nil
  then show ?case by simp
next
  case (Cons x xs)
  then show ?case
  proof (cases i)
    case 0
    then show ?thesis by simp
  next
    case (Suc j)
    then have j: "j < length xs" using Cons.prems by simp
    have "P (xs ! j) \<Longrightarrow> 0 < length (filter P xs)"
      using j by (auto simp: filter_empty_conv)
    then show ?thesis using Suc Cons.IH [OF j] by (auto simp: Suc_diff_le)
  qed
qed

subsection \<open>First index with a property\<close>

text \<open>
  The scan \<open>for (i = a; i < b; i++) if (P(i)) return i;\<close> is the recursion the allocators
  share.  It returns the least index of the interval that satisfies the test.
\<close>

function scan_from :: "(nat \<Rightarrow> bool) \<Rightarrow> nat \<Rightarrow> nat \<Rightarrow> nat option" where
  "scan_from P a b = (if a < b then (if P a then Some a else scan_from P (Suc a) b) else None)"
  by pat_completeness auto
termination
  by (relation "measure (\<lambda>(P, a, b). b - a)") auto

declare scan_from.simps [simp del]

lemma ivl_step:
  "a < b \<Longrightarrow> (\<forall>j. a \<le> j \<and> j < b \<longrightarrow> Q j) = (Q a \<and> (\<forall>j. Suc a \<le> j \<and> j < b \<longrightarrow> Q j))"
  by (metis Suc_leD Suc_leI le_refl order_le_less)

lemma scan_from_None_iff:
  "scan_from P a b = None \<longleftrightarrow> (\<forall>j. a \<le> j \<and> j < b \<longrightarrow> \<not> P j)"
proof (induction P a b rule: scan_from.induct)
  case (1 P a b)
  show ?case
  proof (cases "a < b")
    case True
    then show ?thesis
      using "1.IH" ivl_step [of a b "\<lambda>j. \<not> P j"] by (simp add: scan_from.simps [of P a b])
  next
    case False
    then show ?thesis by (auto simp: scan_from.simps [of P a b])
  qed
qed

lemma scan_from_SomeD:
  "scan_from P a b = Some i \<Longrightarrow> a \<le> i \<and> i < b \<and> P i \<and> (\<forall>j. a \<le> j \<and> j < i \<longrightarrow> \<not> P j)"
proof (induction P a b rule: scan_from.induct)
  case (1 P a b)
  have ab: "a < b"
    using "1.prems" by (simp add: scan_from.simps [of P a b] split: if_splits)
  show ?case
  proof (cases "P a")
    case True
    then show ?thesis using "1.prems" ab by (auto simp: scan_from.simps [of P a b])
  next
    case False
    then have "scan_from P (Suc a) b = Some i"
      using "1.prems" ab by (simp add: scan_from.simps [of P a b])
    then have ih: "Suc a \<le> i \<and> i < b \<and> P i \<and> (\<forall>j. Suc a \<le> j \<and> j < i \<longrightarrow> \<not> P j)"
      using "1.IH" ab False by simp
    then show ?thesis
      using ivl_step [of a i "\<lambda>j. \<not> P j"] False by simp
  qed
qed

lemma scan_from_eqI:
  assumes "a \<le> k" and "k < b" and "P k" and "\<And>j. a \<le> j \<Longrightarrow> j < k \<Longrightarrow> \<not> P j"
  shows "scan_from P a b = Some k"
proof (cases "scan_from P a b")
  case None
  then show ?thesis using assms by (auto simp: scan_from_None_iff)
next
  case (Some i)
  note i = scan_from_SomeD [OF Some]
  have "\<not> i < k" using assms(4) i by blast
  moreover have "\<not> k < i" using assms(1,3) i by blast
  ultimately show ?thesis using Some by simp
qed

lemma scan_from_skip:
  assumes "a \<le> c" and "\<And>j. a \<le> j \<Longrightarrow> j < c \<Longrightarrow> \<not> P j"
  shows "scan_from P a b = scan_from P c b"
proof (cases "scan_from P c b")
  case None
  then have "scan_from P a b = None"
    using assms by (metis scan_from_None_iff not_le)
  then show ?thesis using None by simp
next
  case (Some i)
  note i = scan_from_SomeD [OF Some]
  have "scan_from P a b = Some i"
    using i assms by (intro scan_from_eqI) (auto, metis not_le)
  then show ?thesis using Some by simp
qed

lemma scan_from_cong:
  assumes "\<And>j. a \<le> j \<Longrightarrow> j < b \<Longrightarrow> P j = Q j"
  shows "scan_from P a b = scan_from Q a b"
  using assms
proof (induction P a b rule: scan_from.induct)
  case (1 P a b)
  then show ?case
    by (simp add: scan_from.simps [of P a b] scan_from.simps [of Q a b])
qed

end
