(* ===== verification/Kmath.thy ===== *)
theory Kmath
  imports Prelude
begin

text \<open>
  \<open>kernel/lib/kmath.h\<close>: overflow-checked arithmetic, alignment and small integer helpers.
  A checked operation returns \<open>None\<close> where the C function returns \<open>-1\<close> and leaves its
  output untouched, and \<open>Some\<close> of the output where it returns \<open>0\<close>.  \<open>size_t\<close> is
  \<open>uint64_t\<close>, so the \<open>_size\<close> variants have the same type as the \<open>_u64\<close> ones.
\<close>

definition check_add_u64 :: "u64 \<Rightarrow> u64 \<Rightarrow> u64 option" where
  "check_add_u64 a b = (if a > NOT 0 - b then None else Some (a + b))"

definition check_mul_u64 :: "u64 \<Rightarrow> u64 \<Rightarrow> u64 option" where
  "check_mul_u64 a b = (if a \<noteq> 0 \<and> b > NOT 0 div a then None else Some (a * b))"

definition check_add_size :: "u64 \<Rightarrow> u64 \<Rightarrow> u64 option" where
  "check_add_size a b = (if a > NOT 0 - b then None else Some (a + b))"

definition check_mul_size :: "u64 \<Rightarrow> u64 \<Rightarrow> u64 option" where
  "check_mul_size a b = (if a \<noteq> 0 \<and> b > NOT 0 div a then None else Some (a * b))"

definition align_up_u64 :: "u64 \<Rightarrow> u64 \<Rightarrow> u64" where
  "align_up_u64 x a = (x + (a - 1)) AND NOT (a - 1)"

definition align_down_u64 :: "u64 \<Rightarrow> u64 \<Rightarrow> u64" where
  "align_down_u64 x a = x AND NOT (a - 1)"

definition is_pow2_u64 :: "u64 \<Rightarrow> bool" where
  "is_pow2_u64 x \<longleftrightarrow> x \<noteq> 0 \<and> x AND (x - 1) = 0"

text \<open>\<open>while (x >>= 1) r++;\<close>: the condition shifts before it tests.\<close>

function ilog2_loop :: "u64 \<Rightarrow> nat \<Rightarrow> nat" where
  "ilog2_loop x r = (let x' = drop_bit 1 x in if x' \<noteq> 0 then ilog2_loop x' (Suc r) else r)"
  by pat_completeness auto
termination
  by (relation "measure (\<lambda>(x, r). unat x)") (auto simp only: wf_measure in_measure prod.case intro!: unat_half_less)

declare ilog2_loop.simps [simp del]

definition ilog2_u64 :: "u64 \<Rightarrow> nat" where
  "ilog2_u64 x = ilog2_loop x 0"

definition div_round_up_u64 :: "u64 \<Rightarrow> u64 \<Rightarrow> u64" where
  "div_round_up_u64 a b = (if b \<noteq> 0 then (a + b - 1) div b else 0)"

definition min_u64 :: "u64 \<Rightarrow> u64 \<Rightarrow> u64" where
  "min_u64 a b = (if a < b then a else b)"

definition max_u64 :: "u64 \<Rightarrow> u64 \<Rightarrow> u64" where
  "max_u64 a b = (if a > b then a else b)"

definition clamp_i64 :: "u64 \<Rightarrow> u64 \<Rightarrow> u64 \<Rightarrow> u64" where
  "clamp_i64 v lo hi = (if v <s lo then lo else if hi <s v then hi else v)"

subsection \<open>Checked arithmetic\<close>

lemma check_add_u64_eq:
  "check_add_u64 a b =
     (if unat a + unat b < 2 ^ 64 then Some (of_nat (unat a + unat b)) else None)"
proof -
  have "b \<le> NOT 0"
    by (simp add: not_eq_complement)
  then have "(a > NOT 0 - b) = (2 ^ 64 \<le> unat a + unat b)"
    using top_minus_less [of "unat b" "2 ^ 64" "unat a"] unat_lt_pow [of b]
    by (simp only: word_less_unat unat_minus_no_wrap unat_top) simp
  then show ?thesis by (auto simp: check_add_u64_def)
qed

lemma check_mul_u64_eq:
  "check_mul_u64 a b =
     (if unat a * unat b < 2 ^ 64 then Some (of_nat (unat a * unat b)) else None)"
proof (cases "a = 0")
  case True
  then show ?thesis by (simp add: check_mul_u64_def)
next
  case False
  then have "(b > NOT 0 div a) = (2 ^ 64 \<le> unat a * unat b)"
    using top_div_less [of "unat a" "2 ^ 64" "unat b"]
    by (simp only: word_less_unat unat_div unat_top) (simp add: unat_gt_0)
  then show ?thesis using False by (auto simp: check_mul_u64_def)
qed

lemma check_size_eq [simp]:
  "check_add_size = check_add_u64" "check_mul_size = check_mul_u64"
  by (simp_all add: fun_eq_iff check_add_size_def check_add_u64_def
      check_mul_size_def check_mul_u64_def)

subsection \<open>Alignment to powers of two\<close>

lemma pow2_minus_one: "(2 ^ k :: 'a::len word) - 1 = mask k"
  by (simp add: mask_eq_exp_minus_1)

lemma align_down_pow2:
  "unat (align_down_u64 x (2 ^ k)) = unat x - unat x mod 2 ^ k"
  unfolding align_down_u64_def pow2_minus_one by (rule unat_and_not_mask)

lemma align_up_pow2:
  assumes "k < 64" and "unat x + (2 ^ k - 1) < 2 ^ 64"
  shows "unat (align_up_u64 x (2 ^ k)) = (unat x + (2 ^ k - 1)) div 2 ^ k * 2 ^ k"
proof -
  have m: "unat (mask k :: u64) = 2 ^ k - 1"
    using assms(1) by (simp add: unat_mask)
  have s: "unat (x + mask k) = unat x + (2 ^ k - 1)"
    using unat_plus_no_wrap [of x "mask k"] assms(2) m by simp
  show ?thesis
    unfolding align_up_u64_def pow2_minus_one unat_and_not_mask s by (rule minus_mod_eq_div_mult)
qed

subsection \<open>Powers of two, logarithm, rounded division\<close>

lemma pow2_nat_and:
  "0 < n \<Longrightarrow> (n AND (n - 1) = 0) \<longleftrightarrow> (\<exists>k. n = (2::nat) ^ k)"
proof (induction n rule: less_induct)
  case (less n)
  show ?case
  proof (cases "even n")
    case True
    then obtain m where m: "n = 2 * Suc m" using less.prems by (metis dvdE gr0_implies_Suc mult_0_right not_gr_zero)
    have "n AND (n - 1) = 2 * (Suc m AND m)"
      using m by (subst and_rec) simp
    moreover have "(\<exists>k. n = 2 ^ k) = (\<exists>k. Suc m = 2 ^ k)"
    proof
      assume "\<exists>k. n = 2 ^ k"
      then obtain k where k: "n = 2 ^ k" ..
      with m obtain j where "k = Suc j" by (cases k) auto
      with k m have "Suc m = 2 ^ j" by simp
      then show "\<exists>k. Suc m = 2 ^ k" ..
    next
      assume "\<exists>k. Suc m = 2 ^ k"
      then show "\<exists>k. n = 2 ^ k" using m by (metis power_Suc)
    qed
    ultimately show ?thesis using less.IH [of "Suc m"] m by simp
  next
    case False
    then obtain m where m: "n = 2 * m + 1" by (auto elim: oddE)
    have "n AND (n - 1) = 2 * m"
      using m by (subst and_rec) simp
    moreover have "n = 2 ^ k \<Longrightarrow> k = 0" for k
      using False by (cases k) auto
    ultimately show ?thesis using m by (metis One_nat_def add_0 mult_eq_0_iff power_0 add_cancel_right_left zero_neq_numeral)
  qed
qed

lemma is_pow2_u64_iff: "is_pow2_u64 x \<longleftrightarrow> (\<exists>k < 64. x = 2 ^ k)"
proof (cases "x = 0")
  case True
  then show ?thesis by (auto simp: is_pow2_u64_def)
next
  case False
  then have pos: "0 < unat x" by (simp add: unat_gt_0)
  have "unat (x AND (x - 1)) = unat x AND (unat x - 1)"
    unfolding unsigned_and_eq unat_dec [OF False] ..
  then have "(x AND (x - 1) = 0) \<longleftrightarrow> (unat x AND (unat x - 1)) = 0"
    by (metis unsigned_eq_0_iff)
  then have "is_pow2_u64 x \<longleftrightarrow> (\<exists>k. unat x = 2 ^ k)"
    using False pow2_nat_and [OF pos] by (simp add: is_pow2_u64_def)
  also have "\<dots> \<longleftrightarrow> (\<exists>k < 64. x = 2 ^ k)"
  proof
    assume "\<exists>k. unat x = 2 ^ k"
    then obtain k where k: "unat x = 2 ^ k" ..
    then have "(2::nat) ^ k < 2 ^ 64" using unat_lt_pow [of x] by simp
    then have "k < 64" using power_less_imp_less_exp [of 2 k 64] by simp
    moreover then have "unat x = unat (2 ^ k :: u64)" using k by (simp add: unat_pow2)
    ultimately show "\<exists>k < 64. x = 2 ^ k" by (auto simp only: unsigned_word_eqI)
  next
    assume "\<exists>k < 64. x = 2 ^ k"
    then show "\<exists>k. unat x = 2 ^ k" by (auto simp: unat_pow2)
  qed
  finally show ?thesis .
qed

lemma ilog2_loop_spec:
  "x \<noteq> 0 \<Longrightarrow> \<exists>k. ilog2_loop x r = r + k \<and> 2 ^ k \<le> unat x \<and> unat x < 2 ^ Suc k"
proof (induction x r rule: ilog2_loop.induct)
  case (1 x r)
  have half: "unat (drop_bit 1 x) = unat x div 2"
    using unat_shift_right [of 1 x] by simp
  show ?case
  proof (cases "drop_bit 1 x = 0")
    case True
    then have "unat x div 2 = 0" using half by simp
    moreover have "unat x \<noteq> 0" using "1.prems" by (simp add: unat_gt_0)
    ultimately have "2 ^ 0 \<le> unat x \<and> unat x < 2 ^ Suc 0" by (simp add: div_eq_0_iff)
    then show ?thesis using True by (intro exI [of _ 0]) (simp add: ilog2_loop.simps [of x r])
  next
    case False
    then obtain k where k: "ilog2_loop (drop_bit 1 x) (Suc r) = Suc r + k"
      "2 ^ k \<le> unat x div 2" "unat x div 2 < 2 ^ Suc k"
      using "1.IH" [OF refl] half by auto
    have "2 ^ Suc k \<le> unat x" "unat x < 2 ^ Suc (Suc k)"
      using k(2,3) by auto
    then show ?thesis
      using False k(1) by (intro exI [of _ "Suc k"]) (simp add: ilog2_loop.simps [of x r] Let_def)
  qed
qed

lemma div_round_up_u64_eq:
  assumes "b \<noteq> 0" and "unat a + unat b \<le> 2 ^ 64"
  shows "unat (div_round_up_u64 a b) = (unat a + unat b - 1) div unat b"
proof -
  have b: "0 < unat b" using assms(1) by (simp add: unat_gt_0)
  have "unat (a + (b - 1)) = unat a + unat b - 1"
    using unat_plus_no_wrap [of a "b - 1"] unat_dec [OF assms(1)] assms(2) b by simp
  moreover have "div_round_up_u64 a b = (a + (b - 1)) div b"
    using assms(1) by (simp add: div_round_up_u64_def add_diff_eq)
  ultimately show ?thesis
    by (simp only: unat_div)
qed

lemma div_sub_less:
  fixes b m x :: nat
  assumes "0 < b" "b \<le> m" "m \<le> x"
  shows "(x - m) div b < x div b"
proof -
  have "Suc ((x - m) div b) = (x - m + b) div b" using assms(1) div_add_self2 [of b "x - m"] by simp
  also have "\<dots> \<le> x div b" using assms by (intro div_le_mono) simp
  finally show ?thesis by simp
qed

lemma div_round_up_u64_wraps:
  assumes "b \<noteq> 0" and "2 ^ 64 < unat a + unat b"
  shows "unat (div_round_up_u64 a b) = (unat a + unat b - 1 - 2 ^ 64) div unat b"
proof -
  have b: "0 < unat b" using assms(1) by (simp add: unat_gt_0)
  have "unat (a + (b - 1)) = (unat a + unat b - 1) mod 2 ^ 64"
    using b by (simp add: unat_word_ariths(1) unat_dec [OF assms(1)])
  also have "\<dots> = unat a + unat b - 1 - 2 ^ 64"
    using assms(2) unat_lt_pow [of a] unat_lt_pow [of b] by (simp add: le_mod_geq)
  finally have "unat (a + (b - 1)) = unat a + unat b - 1 - 2 ^ 64" .
  moreover have "div_round_up_u64 a b = (a + (b - 1)) div b"
    using assms(1) by (simp add: div_round_up_u64_def add_diff_eq)
  ultimately show ?thesis
    by (simp only: unat_div)
qed


subsection \<open>Properties\<close>

text \<open>
  The checked operations refuse exactly the operands whose mathematical sum or product
  does not fit in 64 bits, and otherwise return that sum or product.
\<close>

theorem checked_arithmetic_exact:
  "map_option unat (check_add_u64 a b) = (if unat a + unat b < 2 ^ 64 then Some (unat a + unat b) else None) \<and>
   map_option unat (check_mul_u64 a b) = (if unat a * unat b < 2 ^ 64 then Some (unat a * unat b) else None) \<and>
   check_add_size a b = check_add_u64 a b \<and> check_mul_size a b = check_mul_u64 a b"
  unfolding check_add_u64_eq check_mul_u64_eq check_size_eq
  by (auto simp del: of_nat_add of_nat_mult)

text \<open>
  \<open>div_round_up_u64\<close> is the rounded-up quotient exactly when \<open>a + b - 1\<close> does not wrap.
  The comment \<open>ceil(a / b) without overflow for b != 0\<close> promises it for every \<open>b \<noteq> 0\<close>.
\<close>

theorem div_round_up_exact_iff:
  assumes "b \<noteq> 0"
  shows "unat (div_round_up_u64 a b) = (unat a + unat b - 1) div unat b \<longleftrightarrow> unat a + unat b \<le> 2 ^ 64"
proof (cases "unat a + unat b \<le> 2 ^ 64")
  case True
  then show ?thesis using div_round_up_u64_eq [OF assms True] by simp
next
  case False
  have "(unat a + unat b - 1 - 2 ^ 64) div unat b < (unat a + unat b - 1) div unat b"
    using False assms unat_lt_pow [of b] by (intro div_sub_less) (simp_all add: unat_gt_0)
  then show ?thesis
    using False div_round_up_u64_wraps [OF assms, of a] by simp
qed

theorem div_round_up_exact_iff_witness:
  "unat (div_round_up_u64 7 4) = 2 \<and> unat (div_round_up_u64 (- 1) 2) \<noteq> 2 ^ 63"
  using div_round_up_exact_iff [of 4 7] div_round_up_exact_iff [of 2 "- 1"]
  by simp

end
