(* ===== verification/Swar.thy ===== *)
theory Swar
  imports Prelude
begin

text \<open>
  Arithmetic of the parallel (SWAR) bit count of \<open>kernel/lib/bitmap.c\<close>, on natural numbers:
  the count of the low bits of a number (\<open>pc\<close>), a number read as a row of equal fields that
  each hold the bit count of the corresponding field of the input (\<open>bitfields\<close>), and the
  repeated masks that select those fields (\<open>repeat_mask\<close>).  One lemma per stage of the
  routine: pairs, nibbles, bytes, and the final multiplication that adds the bytes.
\<close>

primrec pc :: "nat \<Rightarrow> nat \<Rightarrow> nat" where
  "pc 0 v = 0"
| "pc (Suc n) v = v mod 2 + pc n (v div 2)"

primrec bitfields :: "nat \<Rightarrow> nat \<Rightarrow> nat \<Rightarrow> nat" where
  "bitfields w 0 v = 0"
| "bitfields w (Suc n) v = pc w v + 2 ^ w * bitfields w n (v div 2 ^ w)"

primrec repeat_mask :: "nat \<Rightarrow> nat \<Rightarrow> nat \<Rightarrow> nat" where
  "repeat_mask w c 0 = 0"
| "repeat_mask w c (Suc n) = c + 2 ^ w * repeat_mask w c n"

lemma and_nat_unfold: "(m::nat) AND n = of_bool (odd m \<and> odd n) + 2 * ((m div 2) AND (n div 2))"
  by (rule and_rec)

lemma and_fields:
  "a < 2 ^ w \<Longrightarrow> b < 2 ^ w \<Longrightarrow>
     (a + 2 ^ w * x) AND (b + 2 ^ w * y) = (a AND b) + 2 ^ w * (x AND (y::nat))"
proof (induction w arbitrary: a b)
  case 0
  then show ?case by simp
next
  case (Suc w)
  have d: "(a + 2 ^ Suc w * x) div 2 = a div 2 + 2 ^ w * x" "(b + 2 ^ Suc w * y) div 2 = b div 2 + 2 ^ w * y"
    by simp_all
  have o: "odd (a + 2 ^ Suc w * x) = odd a" "odd (b + 2 ^ Suc w * y) = odd b"
    by simp_all
  have "a div 2 < 2 ^ w" "b div 2 < 2 ^ w" using Suc.prems by auto
  then have "(a + 2 ^ Suc w * x) AND (b + 2 ^ Suc w * y) =
      of_bool (odd a \<and> odd b) + 2 * ((a div 2 AND b div 2) + 2 ^ w * (x AND y))"
    unfolding and_nat_unfold [of "a + 2 ^ Suc w * x"] d o by (simp only: Suc.IH)
  moreover have "a AND b = of_bool (odd a \<and> odd b) + 2 * (a div 2 AND b div 2)"
    by (rule and_nat_unfold)
  ultimately show ?case by (simp only: power_Suc distrib_left mult.assoc add.assoc)
qed

lemma and_low: "a < 2 ^ k \<Longrightarrow> (a + 2 ^ k * b) AND (2 ^ k - 1) = (a :: nat)"
  using take_bit_eq_mask [of k "a + 2 ^ k * b"] by (simp add: take_bit_eq_mod mask_eq_exp_minus_1)

lemma split_digit: "k * x = k * (x mod b) + k * b * (x div (b :: nat))"
  by (metis distrib_left mod_mult_div_eq mult.assoc)

lemma nibble_step:
  "4 * w = 4 * m + 16 * (d::nat) \<Longrightarrow> p + 4 * w = (p + 4 * m) + 2 ^ 4 * d"
  by simp

lemma byte_step:
  "16 * x = 16 * m + 256 * (d::nat) \<Longrightarrow>
     q0 + 16 * q1 + 256 * x + (q1 + 16 * x) = (q0 + q1 + 16 * (q1 + m)) + 2 ^ 8 * (x + d)"
  by simp

lemma pc_add: "pc (a + b) v = pc a v + pc b (v div 2 ^ a)"
  by (induction a arbitrary: v) (simp_all add: div_mult2_eq)

lemma pc_le: "pc w v \<le> w"
proof (induction w arbitrary: v)
  case (Suc w)
  have "v mod 2 \<le> 1" by simp
  then show ?case using Suc [of "v div 2"] by simp
qed simp

lemma pc2: "pc 2 v = v mod 2 + v div 2 mod 2"
  by (simp add: numeral_2_eq_2)

lemma pair_step:
  "v = a + 2 * b + 4 * q \<Longrightarrow> x = b + 4 * y \<Longrightarrow> y \<le> q \<Longrightarrow> q - y = f \<Longrightarrow>
     v - x = a + b + 4 * f \<and> x \<le> (v :: nat)"
  by arith

lemma swar_pairs:
  "v < 4 ^ n \<Longrightarrow> v - ((v div 2) AND repeat_mask 2 1 n) = bitfields 2 n v \<and> ((v div 2) AND repeat_mask 2 1 n) \<le> v"
proof (induction n arbitrary: v)
  case 0
  then show ?case by simp
next
  case (Suc n)
  let ?q = "v div 4"
  have ih: "?q - ((?q div 2) AND repeat_mask 2 1 n) = bitfields 2 n ?q" "((?q div 2) AND repeat_mask 2 1 n) \<le> ?q"
    using Suc.IH [of ?q] Suc.prems by simp_all
  have v2: "v div 2 = (v div 2 mod 4) + 2 ^ 2 * (?q div 2)"
    using div_mult_mod_eq [of "v div 2" 4] by (simp add: div_mult2_eq [symmetric])
  have "(v div 2) AND repeat_mask 2 1 (Suc n) = ((v div 2 mod 4) AND 1) + 4 * ((?q div 2) AND repeat_mask 2 1 n)"
    by (subst v2) (simp add: and_fields [of _ 2 1, simplified])
  also have "((v div 2 mod 4) AND 1) = v div 2 mod 2" by (simp add: and_one_eq mod_mod_cancel)
  finally have a: "(v div 2) AND repeat_mask 2 1 (Suc n) = v div 2 mod 2 + 4 * ((?q div 2) AND repeat_mask 2 1 n)" .
  have "v div 2 = v div 2 mod 2 + 2 * ?q"
    using div_mult_mod_eq [of "v div 2" 2] by (simp add: div_mult2_eq [of v 2 2, simplified])
  then have v: "v = v mod 2 + 2 * (v div 2 mod 2) + 4 * ?q"
    using div_mult_mod_eq [of v 2] by linarith
  show ?case
    using pair_step [OF v a ih(2) ih(1)] by (simp only: bitfields.simps pc2) simp
qed

lemma swar_nibbles:
  "let w = bitfields 2 (2 * n) v in (w AND repeat_mask 4 3 n) + ((w div 4) AND repeat_mask 4 3 n) = bitfields 4 n v"
proof (induction n arbitrary: v)
  case 0
  then show ?case by simp
next
  case (Suc n)
  define p0 where "p0 = pc 2 v"
  define p1 where "p1 = pc 2 (v div 4)"
  define w where "w = bitfields 2 (2 * n) (v div 16)"
  have p: "p0 \<le> 2" "p1 \<le> 2" by (simp_all add: p0_def p1_def pc_le)
  have f: "bitfields 2 (2 * Suc n) v = p0 + 4 * p1 + 2 ^ 4 * w"
    by (simp add: p0_def p1_def w_def div_mult2_eq [symmetric])
  have f4: "bitfields 2 (2 * Suc n) v div 4 = (p1 + 4 * (w mod 4)) + 2 ^ 4 * (w div 4)"
  proof -
    have "(p0 + 4 * p1 + 2 ^ 4 * w) div 4 = (p0 + 4 * (p1 + 4 * w)) div 4" by (simp add: algebra_simps)
    also have "\<dots> = p1 + 4 * w" using p by simp
    finally have e: "(p0 + 4 * p1 + 2 ^ 4 * w) div 4 = p1 + 4 * w" .
    show ?thesis unfolding f e using split_digit [of 4 w 4] by (intro nibble_step) simp
  qed
  have ih: "(w AND repeat_mask 4 3 n) + ((w div 4) AND repeat_mask 4 3 n) = bitfields 4 n (v div 16)"
    using Suc.IH [of "v div 16"] by (simp add: w_def Let_def)
  have a1: "(p0 + 4 * p1) AND 3 = p0" using and_low [of p0 2 p1] p by simp
  have a2: "(p1 + 4 * (w mod 4)) AND 3 = p1" using and_low [of p1 2 "w mod 4"] p by simp
  have "bitfields 2 (2 * Suc n) v AND repeat_mask 4 3 (Suc n) = p0 + 16 * (w AND repeat_mask 4 3 n)"
    unfolding f repeat_mask.simps using p by (subst and_fields) (simp_all add: a1)
  moreover have "(bitfields 2 (2 * Suc n) v div 4) AND repeat_mask 4 3 (Suc n) = p1 + 16 * ((w div 4) AND repeat_mask 4 3 n)"
    unfolding f4 repeat_mask.simps using p by (subst and_fields) (simp_all add: a2)
  moreover have "pc 4 v = p0 + p1" using pc_add [of 2 2 v] by (simp add: p0_def p1_def)
  ultimately show ?case using ih by (simp only: Let_def bitfields.simps) (simp add: ih [symmetric])
qed

lemma swar_bytes:
  "let x = bitfields 4 (2 * n) v in ((x + x div 16) AND repeat_mask 8 15 n) = bitfields 8 n v
     \<and> bitfields 4 (2 * n) v mod 16 \<le> 4"
proof (induction n arbitrary: v)
  case 0
  then show ?case by simp
next
  case (Suc n)
  define q0 where "q0 = pc 4 v"
  define q1 where "q1 = pc 4 (v div 16)"
  define x where "x = bitfields 4 (2 * n) (v div 256)"
  have q: "q0 \<le> 4" "q1 \<le> 4" by (simp_all add: q0_def q1_def pc_le)
  have f: "bitfields 4 (2 * Suc n) v = q0 + 16 * q1 + 256 * x"
    by (simp add: q0_def q1_def x_def div_mult2_eq [symmetric])
  have ih: "((x + x div 16) AND repeat_mask 8 15 n) = bitfields 8 n (v div 256)" "x mod 16 \<le> 4"
    using Suc.IH [of "v div 256"] by (simp_all add: x_def Let_def)
  have "(q0 + 16 * q1 + 256 * x) div 16 = (q0 + 16 * (q1 + 16 * x)) div 16" by (simp add: algebra_simps)
  also have "\<dots> = q1 + 16 * x" using q by simp
  finally have d: "(q0 + 16 * q1 + 256 * x) div 16 = q1 + 16 * x" .
  have s: "q0 + 16 * q1 + 256 * x + (q1 + 16 * x)
      = (q0 + q1 + 16 * (q1 + x mod 16)) + 2 ^ 8 * (x + x div 16)"
    using split_digit [of 16 x 16] by (intro byte_step) simp
  have a: "(q0 + q1 + 16 * (q1 + x mod 16)) AND 15 = q0 + q1"
    using and_low [of "q0 + q1" 4 "q1 + x mod 16"] q by simp
  have b: "q0 + q1 + 16 * (q1 + x mod 16) < 2 ^ 8"
    using q ih(2) by simp
  have "(bitfields 4 (2 * Suc n) v + bitfields 4 (2 * Suc n) v div 16) AND repeat_mask 8 15 (Suc n)
      = q0 + q1 + 256 * ((x + x div 16) AND repeat_mask 8 15 n)"
    unfolding f d s repeat_mask.simps
    using and_fields [OF b, of 15 "x + x div 16" "repeat_mask 8 15 n"] unfolding a by simp
  moreover have "pc 8 v = q0 + q1" using pc_add [of 4 4 v] by (simp add: q0_def q1_def)
  moreover have "bitfields 4 (2 * Suc n) v mod 16 = q0"
  proof -
    have "(q0 + 16 * q1 + 256 * x) mod 16 = (q0 + 16 * (q1 + 16 * x)) mod 16" by (simp add: algebra_simps)
    also have "\<dots> = q0" using q by (subst mod_mult_self2) simp
    finally show ?thesis unfolding f .
  qed
  ultimately show ?case using ih q by (simp only: Let_def bitfields.simps) (simp add: ih(1))
qed

lemma eight_Suc: "8 = Suc (Suc (Suc (Suc (Suc (Suc (Suc (Suc 0)))))))"
  by simp

lemma fields_8:
  "bitfields w 8 v = pc w v + 2 ^ w * (pc w (v div 2 ^ w) + 2 ^ w * (pc w (v div 2 ^ w div 2 ^ w) + 2 ^ w *
     (pc w (v div 2 ^ w div 2 ^ w div 2 ^ w) + 2 ^ w * (pc w (v div 2 ^ w div 2 ^ w div 2 ^ w div 2 ^ w) + 2 ^ w *
     (pc w (v div 2 ^ w div 2 ^ w div 2 ^ w div 2 ^ w div 2 ^ w) + 2 ^ w *
     (pc w (v div 2 ^ w div 2 ^ w div 2 ^ w div 2 ^ w div 2 ^ w div 2 ^ w) + 2 ^ w *
      pc w (v div 2 ^ w div 2 ^ w div 2 ^ w div 2 ^ w div 2 ^ w div 2 ^ w div 2 ^ w)))))))"
  by (simp only: eight_Suc bitfields.simps mult_0_right add_0_right)

lemma repeat_mask_8: "repeat_mask 8 1 8 = 0x0101010101010101"
  by (subst (2) eight_Suc) (simp only: repeat_mask.simps, simp)

lemma swar_sum:
  "bitfields 8 8 v * repeat_mask 8 1 8 mod 2 ^ 64 div 2 ^ 56 = pc 64 v"
proof -
  define r where "r k = pc 8 (v div 256 ^ k)" for k
  have r: "r k \<le> 8" for k by (simp add: r_def pc_le)
  have f: "bitfields 8 8 v = r 0 + 256 * (r 1 + 256 * (r 2 + 256 * (r 3 + 256 * (r 4 + 256 * (r 5 + 256 * (r 6 + 256 * r 7))))))"
    by (simp add: fields_8 r_def div_mult2_eq [symmetric] del: pc.simps)
  have p: "pc 64 v = r 0 + r 1 + r 2 + r 3 + r 4 + r 5 + r 6 + r 7"
    using pc_add [of 8 56 v] pc_add [of 8 48 "v div 2^8"] pc_add [of 8 40 "v div 2^16"] pc_add [of 8 32 "v div 2^24"]
     pc_add [of 8 24 "v div 2^32"] pc_add [of 8 16 "v div 2^40"] pc_add [of 8 8 "v div 2^48"]
    by (simp add: r_def div_mult2_eq [symmetric])
  define s where "s = r 0 + r 1 + r 2 + r 3 + r 4 + r 5 + r 6"
  obtain lo hi where lo: "lo < 2 ^ 56" and e: "bitfields 8 8 v * repeat_mask 8 1 8 = lo + 2 ^ 56 * (s + r 7) + 2 ^ 64 * hi"
  proof
    show "r 0 + 256 * (r 0 + r 1) + 256^2 * (r 0 + r 1 + r 2) + 256^3 * (r 0 + r 1 + r 2 + r 3)
      + 256^4 * (r 0 + r 1 + r 2 + r 3 + r 4) + 256^5 * (r 0 + r 1 + r 2 + r 3 + r 4 + r 5)
      + 256^6 * (r 0 + r 1 + r 2 + r 3 + r 4 + r 5 + r 6) < 2 ^ 56"
      using r [of 0] r [of 1] r [of 2] r [of 3] r [of 4] r [of 5] r [of 6] by simp
    show "bitfields 8 8 v * repeat_mask 8 1 8 = r 0 + 256 * (r 0 + r 1) + 256^2 * (r 0 + r 1 + r 2) + 256^3 * (r 0 + r 1 + r 2 + r 3)
      + 256^4 * (r 0 + r 1 + r 2 + r 3 + r 4) + 256^5 * (r 0 + r 1 + r 2 + r 3 + r 4 + r 5)
      + 256^6 * (r 0 + r 1 + r 2 + r 3 + r 4 + r 5 + r 6) + 2 ^ 56 * (s + r 7) + 2 ^ 64 *
      ((r 1 + r 2 + r 3 + r 4 + r 5 + r 6 + r 7) + 256 * (r 2 + r 3 + r 4 + r 5 + r 6 + r 7) + 256^2 * (r 3 + r 4 + r 5 + r 6 + r 7)
       + 256^3 * (r 4 + r 5 + r 6 + r 7) + 256^4 * (r 5 + r 6 + r 7) + 256^5 * (r 6 + r 7) + 256^6 * r 7)"
      unfolding f s_def repeat_mask_8 by (simp add: algebra_simps) 
  qed
  have "s + r 7 \<le> 64"
    using r [of 0] r [of 1] r [of 2] r [of 3] r [of 4] r [of 5] r [of 6] r [of 7] by (simp add: s_def)
  then have "lo + 2 ^ 56 * (s + r 7) < 2 ^ 64" using lo by simp
  then have "bitfields 8 8 v * repeat_mask 8 1 8 mod 2 ^ 64 = lo + 2 ^ 56 * (s + r 7)"
    unfolding e by (subst mod_mult_self2) (rule mod_less)
  moreover have "(lo + 2 ^ 56 * (s + r 7)) div 2 ^ 56 = s + r 7"
    using lo by simp
  ultimately show ?thesis by (simp add: p s_def)
qed

lemma repeat_mask_geometric: "repeat_mask w c n * (2 ^ w - 1) + c = c * 2 ^ (w * n)"
proof (induction n)
  case 0
  then show ?case by simp
next
  case (Suc n)
  obtain m where m: "2 ^ w = Suc m" using not0_implies_Suc [of "2 ^ w"] by auto
  have "repeat_mask w c (Suc n) * (2 ^ w - 1) + c = 2 ^ w * (repeat_mask w c n * (2 ^ w - 1) + c)"
    by (simp add: m algebra_simps)
  also have "\<dots> = c * 2 ^ (w * Suc n)"
    by (simp only: Suc.IH power_add mult_Suc_right mult.left_commute)
  finally show ?case .
qed

lemma repeat_masks:
  "repeat_mask 2 1 32 = 0x5555555555555555" "repeat_mask 4 3 16 = 0x3333333333333333"
  "repeat_mask 8 15 8 = 0x0F0F0F0F0F0F0F0F"
  using repeat_mask_geometric [of 2 1 32] repeat_mask_geometric [of 4 3 16] repeat_mask_geometric [of 8 15 8]
  by simp_all

lemma fields_bound: "bitfields w n v \<le> w * repeat_mask w 1 n"
proof (induction n arbitrary: v)
  case 0
  then show ?case by simp
next
  case (Suc n)
  have "2 ^ w * bitfields w n (v div 2 ^ w) \<le> 2 ^ w * (w * repeat_mask w 1 n)"
    using Suc.IH by (rule mult_le_mono2)
  then have "bitfields w (Suc n) v \<le> w + 2 ^ w * (w * repeat_mask w 1 n)"
    unfolding bitfields.simps by (rule add_mono [OF pc_le])
  also have "\<dots> = w * repeat_mask w 1 (Suc n)"
    by (simp add: algebra_simps)
  finally show ?case .
qed

end
