(* ===== verification/Bit_Store.thy ===== *)
theory Bit_Store
  imports Prelude
begin

text \<open>
  The contract of an array of usage bits, which four allocators of the kernel rely on: the
  bitmap library (\<open>kernel/lib/bitmap.c\<close>), the id allocator on top of it, the physical page
  bitmap (\<open>kernel/memory/pmm.c\<close>) and the on-disk bitmaps of HNXFS
  (\<open>kernel/fs/hnxfs/hnxfs_alloc.c\<close>).  A provider promises that setting or clearing a bit
  changes that bit only and keeps the size and the invariant.  From these laws the locale
  derives what a first-fit allocator over the bits does: the bit it returns was free and is
  the least free one of the range, the set of used bits grows by exactly that bit, and
  releasing it restores the set.
\<close>

definition used_bits :: "('s \<Rightarrow> nat \<Rightarrow> bool) \<Rightarrow> ('s \<Rightarrow> nat) \<Rightarrow> 's \<Rightarrow> nat set" where
  "used_bits test bits s = {i. i < bits s \<and> test s i}"

lemma finite_used_bits [simp]: "finite (used_bits test bits s)"
  by (simp add: used_bits_def)

lemma used_bits_subset: "used_bits test bits s \<subseteq> {..<bits s}"
  by (auto simp: used_bits_def)

lemma card_used_bits_le: "card (used_bits test bits s) \<le> bits s"
  using card_mono [OF _ used_bits_subset [of test bits s]] by simp

locale bit_store =
  fixes test :: "'s \<Rightarrow> nat \<Rightarrow> bool"
    and set1 :: "'s \<Rightarrow> nat \<Rightarrow> 's"
    and clear1 :: "'s \<Rightarrow> nat \<Rightarrow> 's"
    and bits :: "'s \<Rightarrow> nat"
    and inv :: "'s \<Rightarrow> bool"
  assumes test_set1: "inv s \<Longrightarrow> i < bits s \<Longrightarrow> j < bits s \<Longrightarrow> test (set1 s i) j = (j = i \<or> test s j)"
    and test_clear1: "inv s \<Longrightarrow> i < bits s \<Longrightarrow> j < bits s \<Longrightarrow> test (clear1 s i) j = (j \<noteq> i \<and> test s j)"
    and bits_set1: "inv s \<Longrightarrow> i < bits s \<Longrightarrow> bits (set1 s i) = bits s"
    and bits_clear1: "inv s \<Longrightarrow> i < bits s \<Longrightarrow> bits (clear1 s i) = bits s"
    and inv_set1: "inv s \<Longrightarrow> i < bits s \<Longrightarrow> inv (set1 s i)"
    and inv_clear1: "inv s \<Longrightarrow> i < bits s \<Longrightarrow> inv (clear1 s i)"
begin

lemma used_set1: "inv s \<Longrightarrow> i < bits s \<Longrightarrow> used_bits test bits (set1 s i) = insert i (used_bits test bits s)"
  by (auto simp: used_bits_def test_set1 bits_set1)

lemma used_clear1: "inv s \<Longrightarrow> i < bits s \<Longrightarrow> used_bits test bits (clear1 s i) = used_bits test bits s - {i}"
  by (auto simp: used_bits_def test_clear1 bits_clear1)

lemma card_used_set1:
  "inv s \<Longrightarrow> i < bits s \<Longrightarrow> \<not> test s i \<Longrightarrow> card (used_bits test bits (set1 s i)) = Suc (card (used_bits test bits s))"
  using used_set1 [of s i] by (simp add: used_bits_def)

lemma card_used_clear1:
  assumes "inv s" and "i < bits s" and "test s i"
  shows "Suc (card (used_bits test bits (clear1 s i))) = card (used_bits test bits s)"
proof -
  have "i \<in> used_bits test bits s" using assms by (simp add: used_bits_def)
  then show ?thesis using assms card_Suc_Diff1 [of "used_bits test bits s" i] by (simp only: used_clear1 finite_used_bits)
qed

text \<open>A free bit of the range exists exactly when the first-fit scan finds one.\<close>

lemma first_free:
  assumes "scan_from (\<lambda>i. \<not> test s i) a n = Some i" and "n \<le> bits s"
  shows "a \<le> i" "i < n" "i < bits s" "i \<notin> used_bits test bits s" "{a..<i} \<subseteq> used_bits test bits s"
  using scan_from_SomeD [OF assms(1)] assms(2) by (auto simp: used_bits_def)

lemma no_free:
  assumes "scan_from (\<lambda>i. \<not> test s i) a n = None" and "n \<le> bits s"
  shows "{a..<n} \<subseteq> used_bits test bits s"
  using assms by (auto simp: scan_from_None_iff used_bits_def)

lemma alloc_free_roundtrip:
  assumes "inv s" and "i < bits s" and "\<not> test s i"
  shows "used_bits test bits (clear1 (set1 s i) i) = used_bits test bits s"
proof -
  have "used_bits test bits (clear1 (set1 s i) i) = insert i (used_bits test bits s) - {i}"
    using assms by (simp add: used_clear1 used_set1 inv_set1 bits_set1)
  then show ?thesis using assms(3) by (auto simp: used_bits_def)
qed

text \<open>Setting every bit of a list of positions, the shape of the contiguous allocators.\<close>

lemma fold_set1:
  assumes "inv s" and "\<And>i. i \<in> set is \<Longrightarrow> i < bits s"
  shows "inv (fold (\<lambda>i s. set1 s i) is s)"
    and "bits (fold (\<lambda>i s. set1 s i) is s) = bits s"
    and "used_bits test bits (fold (\<lambda>i s. set1 s i) is s) = used_bits test bits s \<union> set is"
  using assms
  by (induction "is" arbitrary: s) (auto simp: inv_set1 bits_set1 used_set1)

lemma fold_clear1:
  assumes "inv s" and "\<And>i. i \<in> set is \<Longrightarrow> i < bits s"
  shows "inv (fold (\<lambda>i s. clear1 s i) is s)"
    and "bits (fold (\<lambda>i s. clear1 s i) is s) = bits s"
    and "used_bits test bits (fold (\<lambda>i s. clear1 s i) is s) = used_bits test bits s - set is"
  using assms
  by (induction "is" arbitrary: s) (auto simp: inv_clear1 bits_clear1 used_clear1)

end

end
