(* ===== verification/Bitmap.thy ===== *)
theory Bitmap
  imports Swar Bit_Store
begin

text \<open>
  \<open>kernel/lib/bitmap.h\<close> and \<open>bitmap.c\<close>: a bitmap over a caller-provided array of 64-bit
  words.  \<open>bitmap_inv\<close> is what \<open>bitmap_attach\<close> expects of its caller (the array has
  \<open>BITMAP_WORDS(nbits)\<close> words, and that expression does not wrap) together with what the
  operations keep (the padding bits of the last word are clear).  Under it every subscript
  below is inside the array.  The word-wise searches are proved equal to the bit-wise scan,
  the population count to the cardinality of the set of used bits, and the bitmap is a
  \<open>bit_store\<close>.
\<close>

definition BITMAP_WORD_BITS :: u64 where
  "BITMAP_WORD_BITS = 64"

definition BITMAP_WORDS :: "u64 \<Rightarrow> u64" where
  "BITMAP_WORDS n = (n + BITMAP_WORD_BITS - 1) div BITMAP_WORD_BITS"

definition BITMAP_NONE :: u64 where
  "BITMAP_NONE = - 1"

record bitmap =
  bm_words :: "u64 list"
  bm_nbits :: u64

definition bitmap_attach :: "u64 list \<Rightarrow> u64 \<Rightarrow> bitmap" where
  "bitmap_attach words nbits = \<lparr>bm_words = words, bm_nbits = nbits\<rparr>"

definition word_of :: "u64 \<Rightarrow> nat" where
  "word_of pos = unat (pos div BITMAP_WORD_BITS)"

definition off_of :: "u64 \<Rightarrow> nat" where
  "off_of pos = unat (pos mod BITMAP_WORD_BITS)"

definition bitmap_zero :: "bitmap \<Rightarrow> bitmap" where
  "bitmap_zero b = b\<lparr>bm_words :=
     fold (\<lambda>i ws. ws[i := 0]) [0..<unat (BITMAP_WORDS (bm_nbits b))] (bm_words b)\<rparr>"

definition bitmap_fill :: "bitmap \<Rightarrow> bitmap" where
  "bitmap_fill b =
     (let words = unat (BITMAP_WORDS (bm_nbits b));
          ws = fold (\<lambda>i ws. ws[i := NOT 0]) [0..<words] (bm_words b);
          tail = off_of (bm_nbits b)
      in b\<lparr>bm_words := if tail \<noteq> 0
                       then ws[words - 1 := ws ! (words - 1) AND (push_bit tail 1 - 1)]
                       else ws\<rparr>)"

definition bitmap_set :: "bitmap \<Rightarrow> u64 \<Rightarrow> bitmap" where
  "bitmap_set b pos =
     (if pos \<ge> bm_nbits b then b
      else b\<lparr>bm_words := (bm_words b)[word_of pos := bm_words b ! word_of pos OR push_bit (off_of pos) 1]\<rparr>)"

definition bitmap_clear :: "bitmap \<Rightarrow> u64 \<Rightarrow> bitmap" where
  "bitmap_clear b pos =
     (if pos \<ge> bm_nbits b then b
      else b\<lparr>bm_words := (bm_words b)[word_of pos := bm_words b ! word_of pos AND NOT (push_bit (off_of pos) 1)]\<rparr>)"

definition bitmap_test :: "bitmap \<Rightarrow> u64 \<Rightarrow> bool" where
  "bitmap_test b pos =
     (if pos \<ge> bm_nbits b then False
      else drop_bit (off_of pos) (bm_words b ! word_of pos) AND 1 = 1)"

definition bitmap_set_range :: "bitmap \<Rightarrow> u64 \<Rightarrow> u64 \<Rightarrow> bitmap" where
  "bitmap_set_range b start count = fold (\<lambda>i b. bitmap_set b (start + of_nat i)) [0..<unat count] b"

definition bitmap_clear_range :: "bitmap \<Rightarrow> u64 \<Rightarrow> u64 \<Rightarrow> bitmap" where
  "bitmap_clear_range b start count = fold (\<lambda>i b. bitmap_clear b (start + of_nat i)) [0..<unat count] b"

definition popcount64 :: "u64 \<Rightarrow> u32" where
  "popcount64 v =
     (let v = v - (drop_bit 1 v AND 0x5555555555555555);
          v = (v AND 0x3333333333333333) + (drop_bit 2 v AND 0x3333333333333333);
          v = (v + drop_bit 4 v) AND 0x0F0F0F0F0F0F0F0F
      in ucast (drop_bit 56 (v * 0x0101010101010101)))"

definition bitmap_weight :: "bitmap \<Rightarrow> u64" where
  "bitmap_weight b =
     fold (\<lambda>i total. total + ucast (popcount64 (bm_words b ! i))) [0..<unat (BITMAP_WORDS (bm_nbits b))] 0"

text \<open>
  The loop of \<open>ctz64\<close> is entered with \<open>v \<noteq> 0\<close> only, and shifting out a zero bit keeps
  \<open>v \<noteq> 0\<close>; the test for zero makes the recursion total.
\<close>

function ctz64_loop :: "u64 \<Rightarrow> nat \<Rightarrow> nat" where
  "ctz64_loop v n =
     (if v \<noteq> 0 \<and> v AND 1 = 0 then ctz64_loop (drop_bit 1 v) (Suc n) else n)"
  by pat_completeness auto
termination
proof (relation "measure (\<lambda>(v, n). unat v)", goal_cases)
  case (2 v n)
  then have "v \<noteq> 0" by simp
  then have "unat v \<noteq> 0" by (simp add: unat_gt_0)
  then show ?case using unat_shift_right [of 1 v] by simp
qed simp

declare ctz64_loop.simps [simp del]

definition ctz64 :: "u64 \<Rightarrow> nat" where
  "ctz64 v = (if v = 0 then 64 else ctz64_loop v 0)"

text \<open>
  The two searches share their loop; \<open>f\<close> is \<open>~w\<close> for the first zero and \<open>w\<close> for the
  first set bit.
\<close>

function find_bit_loop :: "(u64 \<Rightarrow> u64) \<Rightarrow> bitmap \<Rightarrow> nat \<Rightarrow> nat \<Rightarrow> u64" where
  "find_bit_loop f b i words =
     (if i < words then
        (let w = f (bm_words b ! i) in
         if w \<noteq> 0 then
           (let pos = of_nat i * BITMAP_WORD_BITS + of_nat (ctz64 w) in
            if pos < bm_nbits b then pos else BITMAP_NONE)
         else find_bit_loop f b (Suc i) words)
      else BITMAP_NONE)"
  by pat_completeness auto
termination
  by (relation "measure (\<lambda>(f, b, i, words). words - i)") auto

declare find_bit_loop.simps [simp del]

definition bitmap_find_first_zero :: "bitmap \<Rightarrow> u64" where
  "bitmap_find_first_zero b = find_bit_loop NOT b 0 (unat (BITMAP_WORDS (bm_nbits b)))"

definition bitmap_find_first_set :: "bitmap \<Rightarrow> u64" where
  "bitmap_find_first_set b = find_bit_loop (\<lambda>w. w) b 0 (unat (BITMAP_WORDS (bm_nbits b)))"

function zero_run_loop :: "bitmap \<Rightarrow> nat \<Rightarrow> nat \<Rightarrow> nat \<Rightarrow> nat \<Rightarrow> u64" where
  "zero_run_loop b count pos run start =
     (if pos < unat (bm_nbits b) then
        (if \<not> bitmap_test b (of_nat pos) then
           (let start = (if run = 0 then pos else start); run = Suc run in
            if run = count then of_nat start else zero_run_loop b count (Suc pos) run start)
         else zero_run_loop b count (Suc pos) 0 start)
      else BITMAP_NONE)"
  by pat_completeness auto
termination
  by (relation "measure (\<lambda>(b, count, pos, run, start). unat (bm_nbits b) - pos)") auto

declare zero_run_loop.simps [simp del]

definition bitmap_find_zero_run :: "bitmap \<Rightarrow> u64 \<Rightarrow> u64" where
  "bitmap_find_zero_run b count =
     (if count = 0 then BITMAP_NONE else zero_run_loop b (unat count) 0 0 0)"

definition bitmap_alloc :: "bitmap \<Rightarrow> bitmap \<times> u64" where
  "bitmap_alloc b =
     (let pos = bitmap_find_first_zero b in
      (if pos \<noteq> BITMAP_NONE then bitmap_set b pos else b, pos))"

subsection \<open>Invariant and the abstract bits\<close>

definition bitmap_bit :: "bitmap \<Rightarrow> nat \<Rightarrow> bool" where
  "bitmap_bit b k \<longleftrightarrow> bit (bm_words b ! (k div 64)) (k mod 64)"

definition bitmap_inv :: "bitmap \<Rightarrow> bool" where
  "bitmap_inv b \<longleftrightarrow>
     unat (bm_nbits b) + 63 < 2 ^ 64 \<and>
     length (bm_words b) = (unat (bm_nbits b) + 63) div 64 \<and>
     (\<forall>k < 64 * length (bm_words b). unat (bm_nbits b) \<le> k \<longrightarrow> \<not> bitmap_bit b k)"

abbreviation bitmap_size :: "bitmap \<Rightarrow> nat" where
  "bitmap_size b \<equiv> unat (bm_nbits b)"

definition bitmap_used :: "bitmap \<Rightarrow> nat set" where
  "bitmap_used b = {k. k < bitmap_size b \<and> bitmap_test b (of_nat k)}"

lemma word_of_eq: "word_of x = unat x div 64"
  by (simp add: word_of_def BITMAP_WORD_BITS_def unat_div)

lemma off_of_eq: "off_of x = unat x mod 64"
  by (simp add: off_of_def BITMAP_WORD_BITS_def unat_mod)

lemma off_of_less [simp]: "off_of x < 64"
  by (simp add: off_of_eq)

lemma BITMAP_WORDS_eq:
  assumes "unat n + 63 < 2 ^ 64"
  shows "unat (BITMAP_WORDS n) = (unat n + 63) div 64"
proof -
  have "n + 64 - 1 = n + 63" by simp
  then have "BITMAP_WORDS n = (n + 63) div 64"
    by (simp add: BITMAP_WORDS_def BITMAP_WORD_BITS_def add.commute)
  moreover have "unat (n + 63) = unat n + 63"
    using unat_plus_no_wrap [of n 63] assms by simp
  ultimately show ?thesis by (simp add: unat_div)
qed

lemma bitmap_invD:
  assumes "bitmap_inv b"
  shows "unat (BITMAP_WORDS (bm_nbits b)) = length (bm_words b)"
    and "bitmap_size b + 63 < 2 ^ 64"
    and "bitmap_size b \<le> 64 * length (bm_words b)"
    and "length (bm_words b) = (bitmap_size b + 63) div 64"
  using assms by (auto simp: bitmap_inv_def BITMAP_WORDS_eq)

lemma bitmap_index:
  assumes "bitmap_inv b" and "k < bitmap_size b"
  shows "k div 64 < length (bm_words b)"
  using bitmap_invD(3) [OF assms(1)] assms(2) by (simp add: less_mult_imp_div_less mult.commute)

lemma bitmap_test_iff: "bitmap_test b x \<longleftrightarrow> unat x < bitmap_size b \<and> bitmap_bit b (unat x)"
  by (auto simp: bitmap_test_def bitmap_bit_def word_le_unat word_of_eq off_of_eq and_one_eq_bit bit_simps)

subsection \<open>Setting and clearing\<close>

lemma bit_position: "(i = k) = (i div 64 = k div 64 \<and> i mod 64 = k mod (64 :: nat))"
  by (metis div_mult_mod_eq)

lemma bitmap_nbits_simps [simp]:
  "bm_nbits (bitmap_set b x) = bm_nbits b" "bm_nbits (bitmap_clear b x) = bm_nbits b"
  "length (bm_words (bitmap_set b x)) = length (bm_words b)"
  "length (bm_words (bitmap_clear b x)) = length (bm_words b)"
  by (simp_all add: bitmap_set_def bitmap_clear_def)

lemma bitmap_bit_set:
  assumes "k < 64 * length (bm_words b)"
  shows "bitmap_bit (bitmap_set b x) k \<longleftrightarrow> bitmap_bit b k \<or> k = unat x \<and> unat x < bitmap_size b"
proof -
  let ?w = "bm_words b ! (k div 64)"
  have k: "k div 64 < length (bm_words b)" "k mod 64 < 64"
    using assms by (simp_all add: less_mult_imp_div_less mult.commute)
  show ?thesis
  proof (cases "k div 64 = unat x div 64")
    case True
    then show ?thesis
      using k bit_position [of k "unat x"] bit_or_pow2 [of "k mod 64" ?w "unat x mod 64"]
      by (simp add: bitmap_bit_def bitmap_set_def word_le_unat word_of_eq off_of_eq)
  next
    case False
    then show ?thesis
      by (auto simp: bitmap_bit_def bitmap_set_def word_of_eq)
  qed
qed

lemma bitmap_bit_clear:
  assumes "k < 64 * length (bm_words b)"
  shows "bitmap_bit (bitmap_clear b x) k \<longleftrightarrow> bitmap_bit b k \<and> \<not> (k = unat x \<and> unat x < bitmap_size b)"
proof -
  let ?w = "bm_words b ! (k div 64)"
  have k: "k div 64 < length (bm_words b)" "k mod 64 < 64"
    using assms by (simp_all add: less_mult_imp_div_less mult.commute)
  show ?thesis
  proof (cases "k div 64 = unat x div 64")
    case True
    then show ?thesis
      using k bit_position [of k "unat x"] bit_and_not_pow2 [of "k mod 64" ?w "unat x mod 64"]
      by (simp add: bitmap_bit_def bitmap_clear_def word_le_unat word_of_eq off_of_eq)
  next
    case False
    then show ?thesis
      by (auto simp: bitmap_bit_def bitmap_clear_def word_of_eq)
  qed
qed

lemma bitmap_inv_set [kinv]: "bitmap_inv b \<Longrightarrow> bitmap_inv (bitmap_set b x)"
  by (auto simp: bitmap_inv_def bitmap_bit_set)

lemma bitmap_inv_clear [kinv]: "bitmap_inv b \<Longrightarrow> bitmap_inv (bitmap_clear b x)"
  by (auto simp: bitmap_inv_def bitmap_bit_clear)

lemma bitmap_test_set:
  assumes "bitmap_inv b"
  shows "bitmap_test (bitmap_set b x) y \<longleftrightarrow> bitmap_test b y \<or> y = x \<and> x < bm_nbits b"
  using bitmap_invD(3) [OF assms]
  by (auto simp: bitmap_test_iff bitmap_bit_set word_less_unat)

lemma bitmap_test_clear:
  assumes "bitmap_inv b"
  shows "bitmap_test (bitmap_clear b x) y \<longleftrightarrow> bitmap_test b y \<and> y \<noteq> x"
  using bitmap_invD(3) [OF assms]
  by (auto simp: bitmap_test_iff bitmap_bit_clear word_less_unat)

lemma index_word [simp]: "i < bitmap_size b \<Longrightarrow> unat (of_nat i :: u64) = i"
  using unat_lt_pow [of "bm_nbits b"] by simp

interpretation bm: bit_store "\<lambda>b i. bitmap_test b (of_nat i)" "\<lambda>b i. bitmap_set b (of_nat i)"
  "\<lambda>b i. bitmap_clear b (of_nat i)" bitmap_size bitmap_inv
proof (unfold_locales, goal_cases)
  case (1 s i j)
  then show ?case
    by (auto simp: bitmap_test_set word_less_unat dest: arg_cong [of _ _ unat])
next
  case (2 s i j)
  then show ?case
    by (auto simp: bitmap_test_clear dest: arg_cong [of _ _ unat])
qed (simp_all add: bitmap_inv_set bitmap_inv_clear)

lemma bitmap_used_eq: "bitmap_used = used_bits (\<lambda>b i. bitmap_test b (of_nat i)) bitmap_size"
  by (simp add: fun_eq_iff bitmap_used_def used_bits_def)

subsection \<open>Trailing zeros and the word-wise searches\<close>

lemma ctz64_loop_spec:
  "v \<noteq> 0 \<Longrightarrow> \<exists>k. ctz64_loop v n = n + k \<and> bit v k \<and> (\<forall>j < k. \<not> bit v j)"
proof (induction v n rule: ctz64_loop.induct)
  case (1 v n)
  show ?case
  proof (cases "v AND 1 = 0")
    case True
    then have b0: "\<not> bit v 0" by (simp add: and_one_zero_eq_bit)
    have "drop_bit 1 v \<noteq> 0"
    proof
      assume "drop_bit 1 v = 0"
      then have h: "\<not> bit v (Suc j)" for j
        using bit_drop_bit_eq [of 1 v] by (simp add: fun_eq_iff)
      have "\<not> bit v j" for j
        using b0 h by (cases j) simp_all
      then have "v = 0" by (intro bit_word_eqI) simp
      then show False using "1.prems" by simp
    qed
    then obtain k where k: "ctz64_loop (drop_bit 1 v) (Suc n) = Suc n + k"
      "bit v (Suc k)" "\<And>j. j < k \<Longrightarrow> \<not> bit v (Suc j)"
      using "1.IH" "1.prems" True by (auto simp: bit_drop_bit_eq)
    have "\<not> bit v j" if "j < Suc k" for j
      using that b0 k(3) by (cases j) auto
    then show ?thesis
      using k(1,2) True "1.prems" by (intro exI [of _ "Suc k"]) (simp add: ctz64_loop.simps [of v n])
  next
    case False
    then have "bit v 0" by (simp add: and_one_zero_eq_bit)
    then show ?thesis
      using False by (intro exI [of _ 0]) (simp add: ctz64_loop.simps [of v n])
  qed
qed

lemma ctz64_spec:
  assumes "v \<noteq> 0"
  shows "bit v (ctz64 v)" and "j < ctz64 v \<Longrightarrow> \<not> bit v j" and "ctz64 v < 64"
proof -
  obtain k where "ctz64 v = k" "bit v k" "\<forall>j < k. \<not> bit v j"
    using ctz64_loop_spec [OF assms, of 0] assms by (auto simp: ctz64_def)
  then show "bit v (ctz64 v)" "j < ctz64 v \<Longrightarrow> \<not> bit v j" by auto
  then show "ctz64 v < 64" using bit_imp_le_length by fastforce
qed

lemma find_bit_loop_eq:
  assumes "bitmap_inv b" and "n = length (bm_words b)" and "i \<le> n"
  shows "find_bit_loop f b i n =
     (case scan_from (\<lambda>k. bit (f (bm_words b ! (k div 64))) (k mod 64)) (64 * i) (bitmap_size b) of
        Some k \<Rightarrow> of_nat k | None \<Rightarrow> BITMAP_NONE)"
  using assms
proof (induction f b i n rule: find_bit_loop.induct)
  case (1 f b i n)
  let ?P = "\<lambda>k. bit (f (bm_words b ! (k div 64))) (k mod 64)"
  let ?w = "f (bm_words b ! i)"
  have size: "bitmap_size b \<le> 64 * n" "64 * n < 2 ^ 64"
    using bitmap_invD [OF "1.prems"(1)] "1.prems"(2) by auto
  have block: "?P (64 * i + j) = bit ?w j" if "j < 64" for j
    using that by simp
  show ?case
  proof (cases "i < n")
    case False
    then have "scan_from ?P (64 * i) (bitmap_size b) = None"
      using size(1) "1.prems" by (auto simp: scan_from_None_iff)
    then show ?thesis using False by (simp add: find_bit_loop.simps [of f b i n])
  next
    case True
    show ?thesis
    proof (cases "?w = 0")
      case w0: True
      have "scan_from ?P (64 * i) (bitmap_size b) = scan_from ?P (64 * Suc i) (bitmap_size b)"
      proof (rule scan_from_skip)
        fix j assume "64 * i \<le> j" "j < 64 * Suc i"
        then obtain d where "j = 64 * i + d" "d < 64" by (metis add_less_cancel_left le_iff_add mult_Suc_right add.commute)
        then show "\<not> ?P j" using block [of d] w0 by simp
      qed simp
      moreover have "find_bit_loop f b i n = find_bit_loop f b (Suc i) n"
        using w0 True by (simp add: find_bit_loop.simps [of f b i n])
      ultimately show ?thesis
        using w0 True "1.IH" "1.prems" by simp
    next
      case w: False
      let ?k = "64 * i + ctz64 ?w"
      have c: "ctz64 ?w < 64" "bit ?w (ctz64 ?w)" "\<And>j. j < ctz64 ?w \<Longrightarrow> \<not> bit ?w j"
        using ctz64_spec [OF w] by auto
      have below: "\<not> ?P j" if "64 * i \<le> j" "j < ?k" for j
      proof -
        obtain d where "j = 64 * i + d" "d < ctz64 ?w" using \<open>64 * i \<le> j\<close> \<open>j < ?k\<close> by (metis add_less_cancel_left le_iff_add)
        then show ?thesis using block [of d] c by simp
      qed
      have pos: "of_nat i * BITMAP_WORD_BITS + of_nat (ctz64 ?w) = (of_nat ?k :: u64)"
        by (simp add: BITMAP_WORD_BITS_def mult.commute)
      have "?k < 2 ^ 64" using c(1) True size(2) by auto
      then have k: "unat (of_nat ?k :: u64) = ?k" using unat_of_nat_no_wrap [of ?k, where 'a = 64] by (simp del: of_nat_add of_nat_mult)
      have Pk: "?P ?k" using c block by simp
      show ?thesis
      proof (cases "?k < bitmap_size b")
        case kn: True
        have "scan_from ?P (64 * i) (bitmap_size b) = Some ?k"
          using kn Pk below by (intro scan_from_eqI) auto
        then show ?thesis using w True kn k pos
          by (simp add: find_bit_loop.simps [of f b i n] Let_def word_less_unat)
      next
        case kn: False
        then have "scan_from ?P (64 * i) (bitmap_size b) = None"
          using below by (auto simp: scan_from_None_iff)
        then show ?thesis using w True kn k pos
          by (simp add: find_bit_loop.simps [of f b i n] Let_def word_less_unat)
      qed
    qed
  qed
qed

definition word_option :: "nat option \<Rightarrow> u64" where
  "word_option r = (case r of Some k \<Rightarrow> of_nat k | None \<Rightarrow> BITMAP_NONE)"

lemma bitmap_find_first_zero_eq:
  assumes "bitmap_inv b"
  shows "bitmap_find_first_zero b =
     word_option (scan_from (\<lambda>k. \<not> bitmap_test b (of_nat k)) 0 (bitmap_size b))"
proof -
  have "bit (NOT (bm_words b ! (k div 64))) (k mod 64) = (\<not> bitmap_test b (of_nat k))"
    if "k < bitmap_size b" for k
    using that by (simp add: bitmap_test_iff bitmap_bit_def bit_not_iff)
  then have "scan_from (\<lambda>k. bit (NOT (bm_words b ! (k div 64))) (k mod 64)) 0 (bitmap_size b)
     = scan_from (\<lambda>k. \<not> bitmap_test b (of_nat k)) 0 (bitmap_size b)"
    by (intro scan_from_cong) auto
  then show ?thesis
    using find_bit_loop_eq [OF assms, of _ 0 NOT] bitmap_invD(1) [OF assms]
    by (simp add: bitmap_find_first_zero_def word_option_def)
qed

lemma bitmap_find_first_set_eq:
  assumes "bitmap_inv b"
  shows "bitmap_find_first_set b =
     word_option (scan_from (\<lambda>k. bitmap_test b (of_nat k)) 0 (bitmap_size b))"
proof -
  have "bit (bm_words b ! (k div 64)) (k mod 64) = bitmap_test b (of_nat k)"
    if "k < bitmap_size b" for k
    using that by (simp add: bitmap_test_iff bitmap_bit_def)
  then have "scan_from (\<lambda>k. bit (bm_words b ! (k div 64)) (k mod 64)) 0 (bitmap_size b)
     = scan_from (\<lambda>k. bitmap_test b (of_nat k)) 0 (bitmap_size b)"
    by (intro scan_from_cong) auto
  then show ?thesis
    using find_bit_loop_eq [OF assms, of _ 0 "\<lambda>w. w"] bitmap_invD(1) [OF assms]
    by (simp add: bitmap_find_first_set_def word_option_def)
qed

subsection \<open>Runs of zero bits\<close>

definition zero_run :: "bitmap \<Rightarrow> nat \<Rightarrow> nat \<Rightarrow> bool" where
  "zero_run b s c \<longleftrightarrow> s + c \<le> bitmap_size b \<and> (\<forall>k. s \<le> k \<and> k < s + c \<longrightarrow> \<not> bitmap_test b (of_nat k))"

text \<open>
  Loop invariant at bit \<open>p\<close> with a current run of \<open>r\<close> zero bits: the run is maximal to the
  left, shorter than asked for, and no run of the asked length starts before it.
\<close>

lemma zero_run_loop_eq:
  assumes "0 < c" "r \<le> p" "r < c" "p \<le> bitmap_size b"
    and "0 < r \<Longrightarrow> st = p - r"
    and "\<forall>k. p - r \<le> k \<and> k < p \<longrightarrow> \<not> bitmap_test b (of_nat k)"
    and "\<forall>s < p - r. \<not> zero_run b s c"
  shows "zero_run_loop b c p r st =
     word_option (scan_from (\<lambda>s. zero_run b s c) 0 (bitmap_size b))"
  using assms
proof (induction b c p r st rule: zero_run_loop.induct)
  case (1 b c p r st)
  show ?case
  proof (cases "p < bitmap_size b")
    case False
    then have "\<not> zero_run b s c" for s
      using "1.prems" by (cases "s < p - r") (auto simp: zero_run_def)
    then have "scan_from (\<lambda>s. zero_run b s c) 0 (bitmap_size b) = None"
      by (simp add: scan_from_None_iff)
    then show ?thesis using False by (simp add: zero_run_loop.simps [of b c p r st] word_option_def)
  next
    case p: True
    show ?thesis
    proof (cases "bitmap_test b (of_nat p)")
      case True
      have "\<not> zero_run b s c" if "s < Suc p" for s
      proof (cases "s < p - r")
        case False
        have "s \<le> p" "p < s + c" using that False "1.prems" by auto
        then show ?thesis using True by (auto simp: zero_run_def)
      qed (use "1.prems" in blast)
      then show ?thesis
        using "1.IH"(2) "1.prems" p True by (simp add: zero_run_loop.simps [of b c p r st])
    next
      case free: False
      let ?st = "if r = 0 then p else st"
      have st: "?st = p - r" using "1.prems" by auto
      have ext: "\<forall>k. p - r \<le> k \<and> k < Suc p \<longrightarrow> \<not> bitmap_test b (of_nat k)"
        using "1.prems"(6) free by (metis less_antisym)
      show ?thesis
      proof (cases "Suc r = c")
        case True
        have "zero_run b (p - r) c"
          using ext "1.prems"(2) True p by (auto simp: zero_run_def)
        then have "scan_from (\<lambda>s. zero_run b s c) 0 (bitmap_size b) = Some (p - r)"
          using "1.prems"(7) p by (intro scan_from_eqI) auto
        then show ?thesis
          using p free True st by (simp add: zero_run_loop.simps [of b c p r st] Let_def word_option_def)
      next
        case False
        have "zero_run_loop b c p r st = zero_run_loop b c (Suc p) (Suc r) ?st"
          using p free False by (simp add: zero_run_loop.simps [of b c p r st] Let_def)
        also have "\<dots> = word_option (scan_from (\<lambda>s. zero_run b s c) 0 (bitmap_size b))"
          using "1.prems" p free False st ext by (intro "1.IH"(1)) auto
        finally show ?thesis .
      qed
    qed
  qed
qed

lemma bitmap_find_zero_run_eq:
  assumes "count \<noteq> 0"
  shows "bitmap_find_zero_run b count =
     word_option (scan_from (\<lambda>s. zero_run b s (unat count)) 0 (bitmap_size b))"
  using assms zero_run_loop_eq [of "unat count" 0 0 b 0]
  by (simp add: bitmap_find_zero_run_def unat_gt_0)


subsection \<open>Population count\<close>

lemma unat_popcount64: "unat (popcount64 v) = pc 64 (unat v)"
proof -
  define m5 :: u64 where "m5 = 0x5555555555555555"
  define m3 :: u64 where "m3 = 0x3333333333333333"
  define mF :: u64 where "mF = 0x0F0F0F0F0F0F0F0F"
  define m1 :: u64 where "m1 = 0x0101010101010101"
  define a where "a = v - (drop_bit 1 v AND m5)"
  define b where "b = (a AND m3) + (drop_bit 2 a AND m3)"
  define c where "c = (b + drop_bit 4 b) AND mF"
  have m: "unat m5 = repeat_mask 2 1 32" "unat m3 = repeat_mask 4 3 16" "unat mF = repeat_mask 8 15 8"
    "unat m1 = repeat_mask 8 1 8"
    by (simp_all add: m5_def m3_def mF_def m1_def repeat_masks repeat_mask_8 del: One_nat_def)
  have v: "unat v < 4 ^ 32" using unat_lt_pow [of v] by simp
  note p = swar_pairs [OF v]
  have "unat (drop_bit 1 v AND m5) = (unat v div 2) AND repeat_mask 2 1 32"
    by (simp only: unsigned_and_eq unat_shift_right m) simp
  then have a: "unat a = bitfields 2 32 (unat v)"
    unfolding a_def using p by (subst unat_minus_no_wrap) (simp_all add: word_le_unat)
  have b1: "unat (a AND m3) = unat a AND repeat_mask 4 3 16" "unat (drop_bit 2 a AND m3) = (unat a div 4) AND repeat_mask 4 3 16"
    by (simp_all only: unsigned_and_eq unat_shift_right m) simp
  have n: "(unat a AND repeat_mask 4 3 16) + ((unat a div 4) AND repeat_mask 4 3 16) = bitfields 4 16 (unat v)"
    using swar_nibbles [of 16 "unat v"] by (simp add: a Let_def)
  have fb: "bitfields 4 16 (unat v) \<le> 4 * 0x1111111111111111"
    using fields_bound [of 4 16 "unat v"] repeat_mask_geometric [of 4 1 16] by simp
  have b: "unat b = bitfields 4 16 (unat v)"
    unfolding b_def using n b1 fb by (subst unat_plus_no_wrap) simp_all
  have "unat (b + drop_bit 4 b) = unat b + unat b div 16"
    using fb b by (subst unat_plus_no_wrap) (simp_all only: unat_shift_right, simp_all)
  then have "unat c = (unat b + unat b div 16) AND repeat_mask 8 15 8"
    unfolding c_def by (simp only: unsigned_and_eq m)
  then have c: "unat c = bitfields 8 8 (unat v)"
    using swar_bytes [of 8 "unat v"] by (simp add: b Let_def)
  have "unat (drop_bit 56 (c * m1)) = pc 64 (unat v)"
    using swar_sum [of "unat v"] by (simp only: unat_shift_right unat_word_ariths c m) simp
  moreover have "popcount64 v = ucast (drop_bit 56 (c * m1))"
    by (simp add: popcount64_def Let_def a_def b_def c_def m5_def m3_def mF_def m1_def)
  moreover have "unat (ucast x :: u32) = unat x" if "unat x \<le> 64" for x :: u64
    using that by (simp add: unsigned_ucast_eq take_bit_nat_eq_self)
  ultimately show ?thesis using pc_le [of 64 "unat v"] by simp
qed

lemma pc_card: "pc n v = card {k. k < n \<and> bit v k}"
proof (induction n arbitrary: v)
  case 0
  then show ?case by simp
next
  case (Suc n)
  have "{k. k < Suc n \<and> bit v k} = (if bit v 0 then {0} else {}) \<union> Suc ` {k. k < n \<and> bit (v div 2) k}"
    by (auto simp: image_iff bit_Suc gr0_conv_Suc less_Suc_eq_0_disj)
  moreover have "card (Suc ` {k. k < n \<and> bit (v div 2) k}) = pc n (v div 2)"
    by (simp add: card_image Suc.IH)
  ultimately show ?case
    by (auto simp: bit_0 odd_iff_mod_2_eq_one even_iff_mod_2_eq_zero card_insert_if image_iff)
qed

lemma popcount64_card: "unat (popcount64 v) = card {k. k < 64 \<and> bit v k}"
  unfolding unat_popcount64 pc_card by (simp add: bit_unsigned_iff)

lemma block_card:
  "card {k. k < 64 * Suc n \<and> Q k} = card {k. k < 64 * n \<and> Q k} + card {j. j < 64 \<and> Q (64 * n + j)}"
proof -
  have "{k. k < 64 * Suc n \<and> Q k} = {k. k < 64 * n \<and> Q k} \<union> (\<lambda>j. 64 * n + j) ` {j. j < 64 \<and> Q (64 * n + j)}"
    by (auto simp: image_iff) (metis add_less_cancel_left le_iff_add not_le mult_Suc_right add.commute)
  moreover have "{k. k < 64 * n \<and> Q k} \<inter> (\<lambda>j. 64 * n + j) ` {j. j < 64 \<and> Q (64 * n + j)} = {}"
    by auto
  moreover have "card ((\<lambda>j. 64 * n + j) ` {j. j < 64 \<and> Q (64 * n + j)}) = card {j. j < 64 \<and> Q (64 * n + j)}"
    by (rule card_image) simp
  ultimately show ?thesis by (simp add: card_Un_disjoint)
qed

lemma bitmap_weight_words:
  assumes "bitmap_inv b" and "n \<le> length (bm_words b)"
  shows "unat (fold (\<lambda>i total. total + ucast (popcount64 (bm_words b ! i))) [0..<n] (0 :: u64))
     = card {k. k < 64 * n \<and> bitmap_bit b k}"
  using assms(2)
proof (induction n)
  case 0
  then show ?case by simp
next
  case (Suc n)
  let ?t = "fold (\<lambda>i total. total + ucast (popcount64 (bm_words b ! i))) [0..<n] (0 :: u64)"
  have t: "unat ?t = card {k. k < 64 * n \<and> bitmap_bit b k}"
    using Suc by simp
  have "card {k. k < 64 * n \<and> bitmap_bit b k} \<le> card {..<64 * n}"
    by (rule card_mono) auto
  then have tb: "unat ?t \<le> 64 * n" using t by simp
  have p: "unat (ucast (popcount64 (bm_words b ! n)) :: u64) = card {j. j < 64 \<and> bitmap_bit b (64 * n + j)}"
  proof -
    have "{j. j < 64 \<and> bitmap_bit b (64 * n + j)} = {k. k < 64 \<and> bit (bm_words b ! n) k}"
      by (auto simp: bitmap_bit_def)
    then show ?thesis
      using popcount64_card [of "bm_words b ! n"] unat_lt_pow [of "popcount64 (bm_words b ! n)"]
      by (simp add: unsigned_ucast_eq take_bit_nat_eq_self)
  qed
  have "card {j. j < 64 \<and> bitmap_bit b (64 * n + j)} \<le> card {..<64::nat}"
    by (rule card_mono) auto
  moreover have "64 * Suc n < 2 ^ 64"
    using bitmap_invD [OF assms(1)] Suc.prems by auto
  ultimately have "unat (?t + ucast (popcount64 (bm_words b ! n))) = unat ?t + card {j. j < 64 \<and> bitmap_bit b (64 * n + j)}"
    using p tb by (subst unat_plus_no_wrap) simp_all
  then show ?case using t block_card [of n "bitmap_bit b"] by simp
qed

lemma bitmap_weight_eq:
  assumes "bitmap_inv b"
  shows "unat (bitmap_weight b) = card (bitmap_used b)"
proof -
  have "{k. k < 64 * length (bm_words b) \<and> bitmap_bit b k} = bitmap_used b"
    using assms bitmap_invD(3) [OF assms]
    by (auto simp: bitmap_used_def bitmap_test_iff bitmap_inv_def not_le)
  then show ?thesis
    using bitmap_weight_words [OF assms, of "length (bm_words b)"] bitmap_invD(1) [OF assms]
    by (simp add: bitmap_weight_def)
qed


subsection \<open>Whole-bitmap and range operations\<close>

lemma bit_all_ones: "n < 64 \<Longrightarrow> bit (NOT (0 :: u64)) n"
  by (simp add: bit_not_iff)

lemma bit_pow2_minus_one: "bit (2 ^ t - 1 :: u64) n \<longleftrightarrow> n < 64 \<and> n < t"
  by (simp add: mask_eq_exp_minus_1 [symmetric] bit_mask_iff)

lemma bitmap_zero_inv:
  assumes "bitmap_inv b"
  shows "bitmap_inv (bitmap_zero b)" and "bitmap_used (bitmap_zero b) = {}"
proof -
  have bits: "\<not> bitmap_bit (bitmap_zero b) k" if "k < 64 * length (bm_words b)" for k
    using that bitmap_invD(1) [OF assms] less_mult_imp_div_less [of k "length (bm_words b)" 64]
    by (simp add: bitmap_zero_def bitmap_bit_def fold_update_nth mult.commute)
  show "bitmap_inv (bitmap_zero b)"
    using assms bits by (auto simp: bitmap_inv_def bitmap_zero_def)
  show "bitmap_used (bitmap_zero b) = {}"
    using bits bitmap_invD(3) [OF assms] by (auto simp: bitmap_used_def bitmap_test_iff bitmap_zero_def)
qed

lemma block_less:
  "d \<le> q \<Longrightarrow> m < 64 \<Longrightarrow> (64 * d + m < 64 * q + t) = (d < q \<or> m < (t :: nat))"
  by (cases "d = q") auto

lemma round_up_tail:
  fixes x :: nat
  assumes "x mod 64 \<noteq> 0"
  shows "(x + 63) div 64 = Suc (x div 64)"
proof (rule div_nat_eqI)
  have "64 * (x div 64) + x mod 64 = x" "x mod 64 < 64" by simp_all
  then show "64 * Suc (x div 64) \<le> x + 63" "x + 63 < 64 * Suc (Suc (x div 64))"
    using assms by (simp_all only: mult_Suc_right)
qed

lemma bitmap_fill_bits:
  assumes "bitmap_inv b" and "k < 64 * length (bm_words b)"
  shows "bitmap_bit (bitmap_fill b) k \<longleftrightarrow> k < bitmap_size b"
proof -
  let ?n = "length (bm_words b)"
  let ?t = "bitmap_size b mod 64"
  have k: "k div 64 < ?n" "k mod 64 < 64"
    using assms(2) by (simp_all add: less_mult_imp_div_less mult.commute)
  have n: "?n = (bitmap_size b + 63) div 64"
    by (rule bitmap_invD(4) [OF assms(1)])
  show ?thesis
  proof (cases "?t = 0")
    case True
    then have "64 * ?n = bitmap_size b" unfolding n by auto
    then show ?thesis
      using True k assms(2) bitmap_invD(1) [OF assms(1)]
      by (simp add: bitmap_fill_def Let_def off_of_eq bitmap_bit_def fold_update_nth bit_not_iff)
  next
    case False
    then have "?n = Suc (bitmap_size b div 64)" unfolding n by (rule round_up_tail)
    then have size: "bitmap_size b = 64 * (?n - 1) + ?t" "0 < ?n" by simp_all
    have "k < bitmap_size b \<longleftrightarrow> k div 64 < ?n - 1 \<or> k mod 64 < ?t"
      using block_less [of "k div 64" "?n - 1" "k mod 64" ?t] k size by simp
    then show ?thesis
      using False k size bitmap_invD(1) [OF assms(1)]
      by (auto simp: bitmap_fill_def Let_def off_of_eq bitmap_bit_def nth_list_update fold_update_nth
          bit_not_iff bit_pow2_minus_one bit_and_iff)
  qed
qed

lemma bitmap_fill_inv:
  assumes "bitmap_inv b"
  shows "bitmap_inv (bitmap_fill b)" and "bitmap_used (bitmap_fill b) = {..<bitmap_size b}"
proof -
  have len: "length (bm_words (bitmap_fill b)) = length (bm_words b)" "bm_nbits (bitmap_fill b) = bm_nbits b"
    by (simp_all add: bitmap_fill_def Let_def)
  show "bitmap_inv (bitmap_fill b)"
    using assms bitmap_fill_bits [OF assms] by (auto simp: bitmap_inv_def len)
  show "bitmap_used (bitmap_fill b) = {..<bitmap_size b}"
    using bitmap_fill_bits [OF assms] bitmap_invD(3) [OF assms]
    by (auto simp: bitmap_used_def bitmap_test_iff len)
qed

lemma bitmap_set_range_fold:
  assumes "bitmap_inv b"
  shows "bitmap_inv (fold (\<lambda>i b. bitmap_set b (g i)) is b) \<and>
     bm_nbits (fold (\<lambda>i b. bitmap_set b (g i)) is b) = bm_nbits b \<and>
     (\<forall>y. bitmap_test (fold (\<lambda>i b. bitmap_set b (g i)) is b) y \<longleftrightarrow>
        bitmap_test b y \<or> y < bm_nbits b \<and> y \<in> g ` set is)"
  using assms
  by (induction "is" arbitrary: b) (auto simp: bitmap_inv_set bitmap_test_set)

lemma bitmap_clear_range_fold:
  assumes "bitmap_inv b"
  shows "bitmap_inv (fold (\<lambda>i b. bitmap_clear b (g i)) is b) \<and>
     bm_nbits (fold (\<lambda>i b. bitmap_clear b (g i)) is b) = bm_nbits b \<and>
     (\<forall>y. bitmap_test (fold (\<lambda>i b. bitmap_clear b (g i)) is b) y \<longleftrightarrow>
        bitmap_test b y \<and> y \<notin> g ` set is)"
  using assms
  by (induction "is" arbitrary: b) (auto simp: bitmap_inv_clear bitmap_test_clear)

lemma bitmap_inv_example: "bitmap_inv (bitmap_attach [0] 8)" "bitmap_used (bitmap_attach [0] 8) = {}"
  by (simp_all add: bitmap_inv_def bitmap_attach_def bitmap_used_def bitmap_test_iff bitmap_bit_def
      BITMAP_WORDS_def BITMAP_WORD_BITS_def)


subsection \<open>Properties\<close>

text \<open>
  C18. \<open>bitmap_alloc\<close> hands out the least clear bit: either it returns \<open>BITMAP_NONE\<close>, the
  bitmap is unchanged and every bit was in use, or it returns a bit that was free, all lower
  bits were in use, and the new bitmap uses exactly the old bits and the returned one.  The
  invariant is kept, and clearing the returned bit restores the old set of used bits.
\<close>

theorem bitmap_alloc_correct:
  assumes "bitmap_inv b"
  shows "case bitmap_alloc b of (b', r) \<Rightarrow> bitmap_inv b' \<and>
     (if bitmap_used b = {..<bitmap_size b} then r = BITMAP_NONE \<and> b' = b
      else unat r < bitmap_size b \<and> unat r \<notin> bitmap_used b \<and> {..<unat r} \<subseteq> bitmap_used b \<and>
        bitmap_used b' = insert (unat r) (bitmap_used b) \<and>
        bitmap_used (bitmap_clear b' r) = bitmap_used b)"
proof (cases "scan_from (\<lambda>k. \<not> bitmap_test b (of_nat k)) 0 (bitmap_size b)")
  case None
  then have "bitmap_find_first_zero b = BITMAP_NONE"
    by (simp add: bitmap_find_first_zero_eq [OF assms] word_option_def)
  moreover have "bitmap_used b = {..<bitmap_size b}"
    using bm.no_free [OF None] used_bits_subset [of _ bitmap_size b] by (auto simp: bitmap_used_eq)
  ultimately show ?thesis using assms by (simp add: bitmap_alloc_def Let_def)
next
  case (Some k)
  note k = bm.first_free [OF Some order_refl]
  have r: "bitmap_find_first_zero b = of_nat k" "unat (of_nat k :: u64) = k"
    using k(3) by (simp_all add: bitmap_find_first_zero_eq [OF assms] Some word_option_def)
  have "unat (of_nat k :: u64) \<noteq> unat BITMAP_NONE"
    unfolding r(2) using k(3) bitmap_invD(2) [OF assms] by (simp add: BITMAP_NONE_def)
  then have "of_nat k \<noteq> BITMAP_NONE" by (rule contrapos_nn) (simp only:)
  then have alloc: "bitmap_alloc b = (bitmap_set b (of_nat k), of_nat k)"
    by (simp add: bitmap_alloc_def r Let_def)
  have "\<not> bitmap_test b (of_nat k)" "bitmap_used b \<noteq> {..<bitmap_size b}"
    using k by (auto simp: bitmap_used_eq used_bits_def)
  then show ?thesis
    using k r(2) bm.used_set1 [OF assms k(3)] bm.alloc_free_roundtrip [OF assms k(3)]
    by (auto simp: alloc bitmap_used_eq bitmap_inv_set [OF assms])
qed

theorem bitmap_alloc_correct_witness:
  "bitmap_inv (bitmap_attach [0] 8) \<and> snd (bitmap_alloc (bitmap_attach [0] 8)) = 0 \<and>
   bitmap_used (fst (bitmap_alloc (bitmap_attach [0] 8))) = {0}"
proof -
  have "{} \<noteq> {..<8 :: nat}" using lessThan_empty_iff [of "8 :: nat"] by (auto simp del: lessThan_empty_iff)
  moreover have "bm_nbits (bitmap_attach [0] 8) = 8" by (simp add: bitmap_attach_def)
  ultimately show ?thesis
    using bitmap_alloc_correct [of "bitmap_attach [0] 8"] bitmap_inv_example
    by (simp add: split_beta lessThan_empty_iff unat_eq_zero)
qed

text \<open>
  C20. \<open>bitmap_find_zero_run\<close> returns the start of the first run of \<open>count\<close> clear bits that
  fits in the bitmap, and \<open>BITMAP_NONE\<close> exactly if there is no such run (or \<open>count\<close> is 0).
\<close>

theorem bitmap_find_zero_run_correct:
  assumes "bitmap_inv b"
  shows "if count \<noteq> 0 \<and> (\<exists>s. zero_run b s (unat count))
     then zero_run b (unat (bitmap_find_zero_run b count)) (unat count) \<and>
          (\<forall>s. zero_run b s (unat count) \<longrightarrow> unat (bitmap_find_zero_run b count) \<le> s)
     else bitmap_find_zero_run b count = BITMAP_NONE"
proof (cases "count = 0")
  case True
  then show ?thesis by (simp add: bitmap_find_zero_run_def)
next
  case nz: False
  have range: "s < bitmap_size b" if "zero_run b s (unat count)" for s
    using that nz unat_gt_0 [of count] by (auto simp: zero_run_def)
  show ?thesis
  proof (cases "scan_from (\<lambda>s. zero_run b s (unat count)) 0 (bitmap_size b)")
    case None
    then have "\<not> zero_run b s (unat count)" for s
      using range [of s] by (auto simp: scan_from_None_iff)
    moreover have "bitmap_find_zero_run b count = BITMAP_NONE"
      by (simp add: bitmap_find_zero_run_eq [OF nz] None word_option_def)
    ultimately show ?thesis by simp
  next
    case (Some r)
    note r = scan_from_SomeD [OF Some]
    have "bitmap_find_zero_run b count = of_nat r"
      by (simp add: bitmap_find_zero_run_eq [OF nz] Some word_option_def)
    moreover have "unat (of_nat r :: u64) = r"
      using r bitmap_invD(2) [OF assms] by (intro unat_of_nat_no_wrap) simp
    ultimately show ?thesis
      using r nz by (auto simp: not_less [symmetric])
  qed
qed

theorem bitmap_find_zero_run_correct_witness:
  "zero_run (bitmap_attach [0] 8) (unat (bitmap_find_zero_run (bitmap_attach [0] 8) 3)) 3"
proof -
  have "zero_run (bitmap_attach [0] 8) 0 3"
    by (simp add: zero_run_def bitmap_attach_def bitmap_test_iff bitmap_bit_def)
  then show ?thesis
    using bitmap_find_zero_run_correct [OF bitmap_inv_example(1), of 3] by (auto split: if_splits)
qed

text \<open>
  C19. \<open>bitmap_weight\<close>, which adds up the SWAR population counts of the words, is the number
  of bits in use; the 64-bit total does not wrap.
\<close>

theorem bitmap_weight_correct:
  assumes "bitmap_inv b"
  shows "unat (bitmap_weight b) = card (bitmap_used b)"
  by (rule bitmap_weight_eq [OF assms])

theorem bitmap_weight_correct_witness:
  "bitmap_weight (bitmap_attach [0] 8) = 0"
  using bitmap_weight_correct [OF bitmap_inv_example(1)] bitmap_inv_example(2)
  by (simp add: unat_eq_zero)

text \<open>
  \<open>bitmap_set_range\<close> sets exactly the bits \<open>start + i\<close> for \<open>i < count\<close> that lie in the
  bitmap (the addition wraps), \<open>bitmap_clear_range\<close> clears exactly these; every other bit, the
  size and the invariant are kept.
\<close>

theorem bitmap_range_correct:
  assumes "bitmap_inv b"
  shows "bitmap_inv (bitmap_set_range b start count) \<and> bitmap_inv (bitmap_clear_range b start count) \<and>
     (bitmap_test (bitmap_set_range b start count) y \<longleftrightarrow>
       bitmap_test b y \<or> y < bm_nbits b \<and> (\<exists>i < unat count. y = start + of_nat i)) \<and>
     (bitmap_test (bitmap_clear_range b start count) y \<longleftrightarrow>
       bitmap_test b y \<and> \<not> (\<exists>i < unat count. y = start + of_nat i))"
  using bitmap_set_range_fold [OF assms, of "\<lambda>i. start + of_nat i" "[0..<unat count]"]
    bitmap_clear_range_fold [OF assms, of "\<lambda>i. start + of_nat i" "[0..<unat count]"]
  by (auto simp: bitmap_set_range_def bitmap_clear_range_def)

theorem bitmap_range_correct_witness:
  "bitmap_test (bitmap_set_range (bitmap_attach [0] 8) 2 3) 4"
  using bitmap_range_correct [OF bitmap_inv_example(1), of 2 3 4]
  by (auto simp: bitmap_attach_def intro!: exI [of _ 2])

end
