(* ===== verification/Idr.thy ===== *)
theory Idr
  imports Bitmap
begin

text \<open>
  \<open>kernel/lib/idr.h\<close> and \<open>idr.c\<close>: the allocator of small integer ids over a bitmap.
  An \<open>int\<close> result is a 32-bit word, \<open>- 1\<close> the failure value.  The words of the bitmap are
  the block \<open>storage\<close> points to; \<open>idr_storage\<close> says whether that pointer is non-null.
  \<open>kcalloc\<close>, which \<open>idr_init\<close> calls, is an argument: it yields the zeroed block or fails.
\<close>

record idr =
  idr_map :: bitmap
  idr_storage :: bool
  idr_base :: u32
  idr_capacity :: u32
  idr_next_hint :: u32

text \<open>\<open>BITMAP_WORDS(capacity)\<close> is computed on the 32-bit \<open>capacity\<close> here, so it wraps at 32 bits.\<close>

definition idr_init :: "(u64 \<Rightarrow> u64 \<Rightarrow> u64 list option) \<Rightarrow> u32 \<Rightarrow> u32 \<Rightarrow> idr option" where
  "idr_init kcalloc base capacity =
     (let words = ucast ((capacity + 64 - 1) div 64) in
      case kcalloc words 8 of
        None \<Rightarrow> None
      | Some storage \<Rightarrow>
          Some \<lparr>idr_map = bitmap_zero (bitmap_attach storage (ucast capacity)), idr_storage = True,
                idr_base = base, idr_capacity = capacity, idr_next_hint = 0\<rparr>)"

definition idr_destroy :: "idr \<Rightarrow> idr" where
  "idr_destroy d = d\<lparr>idr_storage := False, idr_capacity := 0\<rparr>"

definition idr_pass :: "idr \<Rightarrow> u32 \<Rightarrow> u32 \<Rightarrow> nat option" where
  "idr_pass d start end1 =
     scan_from (\<lambda>i. \<not> bitmap_test (idr_map d) (of_nat i)) (unat start) (unat end1)"

definition idr_alloc :: "idr \<Rightarrow> idr \<times> u32" where
  "idr_alloc d =
     (case (case idr_pass d (idr_next_hint d) (idr_capacity d) of
              Some i \<Rightarrow> Some i
            | None \<Rightarrow> idr_pass d 0 (idr_next_hint d)) of
        Some i \<Rightarrow>
          (d\<lparr>idr_map := bitmap_set (idr_map d) (of_nat i),
             idr_next_hint := if of_nat i + 1 < idr_capacity d then of_nat i + 1 else 0\<rparr>,
           idr_base d + of_nat i)
      | None \<Rightarrow> (d, - 1))"

definition idr_reserve :: "idr \<Rightarrow> u32 \<Rightarrow> idr \<times> u32" where
  "idr_reserve d id1 =
     (if id1 < idr_base d then (d, - 1)
      else
        (let i = id1 - idr_base d in
         if i \<ge> idr_capacity d \<or> bitmap_test (idr_map d) (ucast i) then (d, - 1)
         else (d\<lparr>idr_map := bitmap_set (idr_map d) (ucast i)\<rparr>, 0)))"

definition idr_free :: "idr \<Rightarrow> u32 \<Rightarrow> idr" where
  "idr_free d id1 =
     (if id1 < idr_base d then d
      else
        (let i = id1 - idr_base d in
         if i < idr_capacity d then d\<lparr>idr_map := bitmap_clear (idr_map d) (ucast i)\<rparr> else d))"

definition idr_in_use :: "idr \<Rightarrow> u32 \<Rightarrow> bool" where
  "idr_in_use d id1 =
     (if id1 < idr_base d then False
      else
        (let i = id1 - idr_base d in
         if i \<ge> idr_capacity d then False else bitmap_test (idr_map d) (ucast i)))"

definition idr_used :: "idr \<Rightarrow> u32" where
  "idr_used d = ucast (bitmap_weight (idr_map d))"


subsection \<open>The set of ids in use\<close>

text \<open>
  The invariant includes the bound under which every id of the range is a non-negative
  \<open>int\<close>, so that a successful result is never mistaken for the failure value.
\<close>

definition idr_inv :: "idr \<Rightarrow> bool" where
  "idr_inv d \<longleftrightarrow> bitmap_inv (idr_map d) \<and> bm_nbits (idr_map d) = ucast (idr_capacity d) \<and>
     idr_next_hint d \<le> idr_capacity d \<and> unat (idr_base d) + unat (idr_capacity d) \<le> 2 ^ 31"

definition idr_ids :: "idr \<Rightarrow> nat set" where
  "idr_ids d = (\<lambda>i. unat (idr_base d) + i) ` bitmap_used (idr_map d)"

definition idr_range :: "idr \<Rightarrow> nat set" where
  "idr_range d = {unat (idr_base d)..<unat (idr_base d) + unat (idr_capacity d)}"

lemma unat_ucast_u32 [simp]: "unat (ucast (x :: u32) :: u64) = unat x"
  using unat_lt_pow [of x] by (simp add: unsigned_ucast_eq take_bit_nat_eq_self)

lemma idr_size [simp]: "idr_inv d \<Longrightarrow> bitmap_size (idr_map d) = unat (idr_capacity d)"
  by (simp add: idr_inv_def)

lemma idr_ids_iff: "unat (idr_base d) + i \<in> idr_ids d \<longleftrightarrow> i \<in> bitmap_used (idr_map d)"
  by (auto simp: idr_ids_def)

lemma idr_used_iff:
  assumes "idr_inv d" "i < unat (idr_capacity d)"
  shows "i \<in> bitmap_used (idr_map d) \<longleftrightarrow> bitmap_test (idr_map d) (of_nat i)"
  using assms by (simp add: bitmap_used_def)

text \<open>Indexing of the operations that take an id: \<open>id - base\<close> without wrap-around.\<close>

lemma idr_index:
  assumes "idr_base d \<le> id1"
  shows "unat id1 = unat (idr_base d) + unat (id1 - idr_base d)"
  using assms by (simp add: unat_minus_no_wrap word_le_unat)

lemma idr_set_index:
  assumes "idr_inv d" "i < unat (idr_capacity d)"
  shows "idr_inv (d\<lparr>idr_map := bitmap_set (idr_map d) (of_nat i)\<rparr>)"
    and "idr_ids (d\<lparr>idr_map := bitmap_set (idr_map d) (of_nat i)\<rparr>) = insert (unat (idr_base d) + i) (idr_ids d)"
    and "idr_inv (d\<lparr>idr_map := bitmap_clear (idr_map d) (of_nat i)\<rparr>)"
    and "idr_ids (d\<lparr>idr_map := bitmap_clear (idr_map d) (of_nat i)\<rparr>) = idr_ids d - {unat (idr_base d) + i}"
proof -
  have b: "bitmap_inv (idr_map d)" "i < bitmap_size (idr_map d)"
    using assms by (simp_all add: idr_inv_def)
  show "idr_inv (d\<lparr>idr_map := bitmap_set (idr_map d) (of_nat i)\<rparr>)"
    "idr_inv (d\<lparr>idr_map := bitmap_clear (idr_map d) (of_nat i)\<rparr>)"
    using assms(1) bm.inv_set1 [OF b] bm.bits_set1 [OF b] bm.inv_clear1 [OF b] bm.bits_clear1 [OF b]
    by (simp_all add: idr_inv_def)
  show "idr_ids (d\<lparr>idr_map := bitmap_set (idr_map d) (of_nat i)\<rparr>) = insert (unat (idr_base d) + i) (idr_ids d)"
    "idr_ids (d\<lparr>idr_map := bitmap_clear (idr_map d) (of_nat i)\<rparr>) = idr_ids d - {unat (idr_base d) + i}"
    using bm.used_set1 [OF b] bm.used_clear1 [OF b]
    by (auto simp: idr_ids_def bitmap_used_eq)
qed

text \<open>The two passes together: the first free index at or after the hint, cyclically.\<close>

lemma idr_pass_Some:
  assumes "idr_inv d" "idr_pass d a e = Some i" "e \<le> idr_capacity d"
  shows "unat a \<le> i" "i < unat e" "i < unat (idr_capacity d)" "i \<notin> bitmap_used (idr_map d)"
    "{unat a..<i} \<subseteq> bitmap_used (idr_map d)"
  using bm.first_free [of "idr_map d" "unat a" "unat e" i] assms
  by (simp_all add: idr_pass_def bitmap_used_eq word_le_unat)

lemma idr_pass_None:
  assumes "idr_inv d" "idr_pass d a e = None" "e \<le> idr_capacity d"
  shows "{unat a..<unat e} \<subseteq> bitmap_used (idr_map d)"
  using bm.no_free [of "idr_map d" "unat a" "unat e"] assms
  by (simp add: idr_pass_def bitmap_used_eq word_le_unat)

lemma idr_alloc_Some:
  assumes "idr_inv d" "i < unat (idr_capacity d)"
  shows "idr_inv (d\<lparr>idr_map := bitmap_set (idr_map d) (of_nat i),
             idr_next_hint := if of_nat i + 1 < idr_capacity d then of_nat i + 1 else 0\<rparr>)"
    and "idr_ids (d\<lparr>idr_map := bitmap_set (idr_map d) (of_nat i),
             idr_next_hint := if of_nat i + 1 < idr_capacity d then of_nat i + 1 else 0\<rparr>) =
           insert (unat (idr_base d) + i) (idr_ids d)"
    and "unat (idr_base d + of_nat i) = unat (idr_base d) + i"
proof -
  show "idr_inv (d\<lparr>idr_map := bitmap_set (idr_map d) (of_nat i),
             idr_next_hint := if of_nat i + 1 < idr_capacity d then of_nat i + 1 else 0\<rparr>)"
    using idr_set_index(1) [OF assms] by (auto simp: idr_inv_def)
  show "idr_ids (d\<lparr>idr_map := bitmap_set (idr_map d) (of_nat i),
             idr_next_hint := if of_nat i + 1 < idr_capacity d then of_nat i + 1 else 0\<rparr>) =
           insert (unat (idr_base d) + i) (idr_ids d)"
    using idr_set_index(2) [OF assms] by (simp add: idr_ids_def)
  have "unat (idr_base d) + i < 2 ^ 32" "i < 2 ^ 32" using assms by (simp_all add: idr_inv_def)
  then show "unat (idr_base d + of_nat i) = unat (idr_base d) + i"
    using unat_plus_no_wrap [of "idr_base d" "of_nat i"] by simp
qed


subsection \<open>Properties\<close>

text \<open>
  C21. \<open>idr_alloc\<close> returns \<open>-1\<close> exactly when every id of the range is in use; otherwise it
  returns an id of the range that was not in use and marks exactly that id.  The id is the
  first free one in the cyclic order that starts at the round-robin hint: every id from the
  hint up to it (wrapping at the end of the range) is in use.
\<close>

theorem idr_alloc_correct:
  assumes "idr_inv d"
  shows "case idr_alloc d of (d', r) \<Rightarrow> idr_inv d' \<and>
     (if idr_ids d = idr_range d then r = - 1 \<and> d' = d
      else unat r \<in> idr_range d - idr_ids d \<and> idr_ids d' = insert (unat r) (idr_ids d) \<and>
        (let base = unat (idr_base d); hint = base + unat (idr_next_hint d) in
         if hint \<le> unat r then {hint..<unat r} \<subseteq> idr_ids d
         else {hint..<base + unat (idr_capacity d)} \<union> {base..<unat r} \<subseteq> idr_ids d))"
proof -
  let ?b = "unat (idr_base d)" and ?c = "unat (idr_capacity d)" and ?h = "unat (idr_next_hint d)"
  have shift: "{?b + m..<?b + n} \<subseteq> idr_ids d" if "{m..<n} \<subseteq> bitmap_used (idr_map d)" for m n
    using image_mono [OF that, of "\<lambda>i. ?b + i"] by (simp add: idr_ids_def add.commute)
  have hint: "idr_next_hint d \<le> idr_capacity d" using assms by (simp add: idr_inv_def)
  show ?thesis
  proof (cases "idr_pass d (idr_next_hint d) (idr_capacity d)")
    case (Some i)
    note i = idr_pass_Some [OF assms Some order_refl]
    have "?b + i \<in> idr_range d - idr_ids d" using i by (simp add: idr_range_def idr_ids_iff)
    moreover have "{?b + ?h..<?b + i} \<subseteq> idr_ids d" by (rule shift [OF i(5)])
    ultimately show ?thesis
      using Some i idr_alloc_Some [OF assms i(3)] by (auto simp: idr_alloc_def Let_def)
  next
    case None
    note high = shift [OF idr_pass_None [OF assms None order_refl]]
    show ?thesis
    proof (cases "idr_pass d 0 (idr_next_hint d)")
      case (Some i)
      note i = idr_pass_Some [OF assms Some hint]
      have "?b + i \<in> idr_range d - idr_ids d" using i by (simp add: idr_range_def idr_ids_iff)
      moreover have "{?b..<?b + i} \<subseteq> idr_ids d" using shift [OF i(5)] by simp
      ultimately show ?thesis
        using None Some i high idr_alloc_Some [OF assms i(3)] by (auto simp: idr_alloc_def Let_def)
    next
      case None2: None
      have "{?b..<?b + ?h} \<subseteq> idr_ids d" using shift [OF idr_pass_None [OF assms None2 hint]] by simp
      then have "idr_range d \<subseteq> idr_ids d"
        using high by (auto simp: idr_range_def subset_iff) (meson not_le)
      moreover have "idr_ids d \<subseteq> idr_range d"
        using assms by (auto simp: idr_ids_def idr_range_def bitmap_used_def)
      ultimately show ?thesis
        using None None2 assms by (simp add: idr_alloc_def)
    qed
  qed
qed

lemma idr_inv_example:
  "idr_inv \<lparr>idr_map = bitmap_attach [0] 8, idr_storage = True, idr_base = 100, idr_capacity = 8, idr_next_hint = 3\<rparr>"
  using bitmap_inv_example by (simp add: idr_inv_def) (simp add: bitmap_attach_def)

theorem idr_alloc_correct_witness:
  "unat (snd (idr_alloc \<lparr>idr_map = bitmap_attach [0] 8, idr_storage = True, idr_base = 100,
      idr_capacity = 8, idr_next_hint = 3\<rparr>)) = 103"
proof -
  let ?d = "\<lparr>idr_map = bitmap_attach [0] 8, idr_storage = True, idr_base = 100, idr_capacity = 8, idr_next_hint = 3\<rparr>"
  have "idr_ids ?d = {}" "100 \<in> idr_range ?d"
    using bitmap_inv_example(2) by (simp_all add: idr_ids_def idr_range_def)
  then show ?thesis
    using idr_alloc_correct [OF idr_inv_example]
    by (auto simp: split_beta Let_def split: if_splits)
qed

text \<open>
  The operations on a given id act on the set of ids in use: \<open>idr_reserve\<close> succeeds exactly
  for a free id of the range and adds it, \<open>idr_free\<close> removes the id, \<open>idr_in_use\<close> tests for
  membership and \<open>idr_used\<close> counts the set.  The invariant is kept.
\<close>

theorem idr_id_operations:
  assumes "idr_inv d"
  shows "(case idr_reserve d n of (d', r) \<Rightarrow> idr_inv d' \<and>
       (if unat n \<in> idr_range d - idr_ids d then r = 0 \<and> idr_ids d' = insert (unat n) (idr_ids d)
        else r = - 1 \<and> d' = d)) \<and>
     idr_inv (idr_free d n) \<and> idr_ids (idr_free d n) = idr_ids d - {unat n} \<and>
     idr_in_use d n = (unat n \<in> idr_ids d) \<and> unat (idr_used d) = card (idr_ids d)"
proof -
  let ?i = "unat (n - idr_base d)"
  have sub: "idr_ids d \<subseteq> idr_range d"
    using assms by (auto simp: idr_ids_def idr_range_def bitmap_used_def)
  have "card (idr_ids d) = card (bitmap_used (idr_map d))"
    unfolding idr_ids_def by (rule card_image) simp
  moreover have "card (bitmap_used (idr_map d)) \<le> unat (idr_capacity d)"
    using card_used_bits_le [of "\<lambda>b i. bitmap_test b (of_nat i)" bitmap_size "idr_map d"] assms by (simp add: bitmap_used_eq)
  ultimately have used: "unat (idr_used d) = card (idr_ids d)"
    using bitmap_weight_eq [of "idr_map d"] assms unat_lt_pow [of "idr_capacity d"]
    by (simp add: idr_used_def idr_inv_def unsigned_ucast_eq take_bit_nat_eq_self)
  show ?thesis
  proof (cases "n < idr_base d")
    case True
    then have "unat n \<notin> idr_range d" by (simp add: idr_range_def word_less_unat)
    then show ?thesis
      using True sub used assms by (auto simp: idr_reserve_def idr_free_def idr_in_use_def)
  next
    case False
    then obtain i where n: "unat n = unat (idr_base d) + i" "unat (n - idr_base d) = i"
      "(ucast (n - idr_base d) :: u64) = of_nat i"
      using idr_index [of d n] that [of ?i] by (simp add: not_less)
    show ?thesis
    proof (cases "n - idr_base d < idr_capacity d")
      case True
      then have i: "i < unat (idr_capacity d)" using n(2) by (simp add: word_less_unat)
      have "unat n \<in> idr_range d" "unat n \<in> idr_ids d \<longleftrightarrow> bitmap_test (idr_map d) (of_nat i)"
        using i n(1) idr_ids_iff [of d i] idr_used_iff [OF assms i] by (simp_all add: idr_range_def)
      then show ?thesis
        using True False used assms idr_set_index [OF assms i] n(1,3)
        by (simp add: idr_reserve_def idr_free_def idr_in_use_def Let_def not_le)
    next
      case far: False
      then have "unat n \<notin> idr_range d" using n(1,2) by (simp add: idr_range_def word_less_unat)
      then show ?thesis
        using far False sub used assms by (auto simp: idr_reserve_def idr_free_def idr_in_use_def Let_def)
    qed
  qed
qed

theorem idr_id_operations_witness:
  "snd (idr_reserve \<lparr>idr_map = bitmap_attach [0] 8, idr_storage = True, idr_base = 100,
      idr_capacity = 8, idr_next_hint = 3\<rparr> 105) = 0"
proof -
  let ?d = "\<lparr>idr_map = bitmap_attach [0] 8, idr_storage = True, idr_base = 100, idr_capacity = 8, idr_next_hint = 3\<rparr>"
  have "unat (105 :: u32) \<in> idr_range ?d - idr_ids ?d"
    using bitmap_inv_example(2) by (simp add: idr_ids_def idr_range_def)
  then show ?thesis
    using idr_id_operations [OF idr_inv_example, of 105] by (simp add: split_beta)
qed

end
