(* ===== verification/Fifo.thy ===== *)
theory Fifo
  imports Prelude
begin

text \<open>
  Bounded first-in first-out queues.  Two parts: the contents of a ring, i.e.\ \<open>n\<close> cells of
  an array read from \<open>t\<close> with wrap-around, which the byte ring buffer, the kernel log ring and
  the input event queue all use as their representation; and the contract of a bounded queue
  (\<open>bounded_fifo\<close>), from which the bulk transfers and the order of delivery follow once.
\<close>

subsection \<open>Reading a ring\<close>

definition ring_list :: "'a list \<Rightarrow> nat \<Rightarrow> nat \<Rightarrow> 'a list" where
  "ring_list d t n = map (\<lambda>i. d ! ((t + i) mod length d)) [0..<n]"

lemma length_ring_list [simp]: "length (ring_list d t n) = n"
  by (simp add: ring_list_def)

lemma ring_list_0 [simp]: "ring_list d t 0 = []"
  by (simp add: ring_list_def)

lemma nth_ring_list [simp]: "i < n \<Longrightarrow> ring_list d t n ! i = d ! ((t + i) mod length d)"
  by (simp add: ring_list_def)

lemma ring_index_inj:
  assumes "i < c" "j < c" "(t + i) mod c = (t + j) mod c"
  shows "i = (j :: nat)"
proof -
  have "i mod c = j mod c"
    using assms(3) unfolding nat_mod_eq_iff by (simp add: add.assoc)
  then show ?thesis using assms by simp
qed

lemma ring_list_put:
  assumes "n < length d"
  shows "ring_list (d[(t + n) mod length d := x]) t (Suc n) = ring_list d t n @ [x]"
proof (rule nth_equalityI)
  fix i assume i: "i < length (ring_list (d[(t + n) mod length d := x]) t (Suc n))"
  have "(t + i) mod length d = (t + n) mod length d \<longleftrightarrow> i = n"
    using ring_index_inj [of i "length d" n t] i assms by auto
  moreover have "(t + i) mod length d < length d" using assms by (intro mod_less_divisor) auto
  ultimately show "ring_list (d[(t + n) mod length d := x]) t (Suc n) ! i = (ring_list d t n @ [x]) ! i"
    using i by (auto simp: nth_append nth_list_update)
qed simp

lemma ring_list_get:
  assumes "t < length d"
  shows "ring_list d t (Suc n) = d ! t # ring_list d (Suc t mod length d) n"
proof (rule nth_equalityI)
  fix i assume i: "i < length (ring_list d t (Suc n))"
  then show "ring_list d t (Suc n) ! i = (d ! t # ring_list d (Suc t mod length d) n) ! i"
    using assms by (cases i) (simp_all add: mod_simps)
qed simp


subsection \<open>The contract of a bounded queue\<close>

text \<open>
  What the bulk operations compute: \<open>put_all\<close> stores elements until the queue refuses one,
  \<open>get_all\<close> removes at most \<open>n\<close> elements.
\<close>

fun put_all :: "('s \<Rightarrow> 'a \<Rightarrow> 's option) \<Rightarrow> 's \<Rightarrow> 'a list \<Rightarrow> 's \<times> nat" where
  "put_all put s [] = (s, 0)"
| "put_all put s (x # xs) =
     (case put s x of None \<Rightarrow> (s, 0) | Some s' \<Rightarrow> map_prod id Suc (put_all put s' xs))"

fun get_all :: "('s \<Rightarrow> ('a \<times> 's) option) \<Rightarrow> 's \<Rightarrow> nat \<Rightarrow> 'a list \<times> 's" where
  "get_all get s 0 = ([], s)"
| "get_all get s (Suc n) =
     (case get s of None \<Rightarrow> ([], s) | Some (x, s') \<Rightarrow> map_prod (Cons x) id (get_all get s' n))"

locale bounded_fifo =
  fixes put :: "'s \<Rightarrow> 'a \<Rightarrow> 's option"
    and get :: "'s \<Rightarrow> ('a \<times> 's) option"
    and contents :: "'s \<Rightarrow> 'a list"
    and room :: "'s \<Rightarrow> nat"
    and inv :: "'s \<Rightarrow> bool"
  assumes bounded: "inv s \<Longrightarrow> length (contents s) \<le> room s"
    and put_full: "inv s \<Longrightarrow> length (contents s) = room s \<Longrightarrow> put s x = None"
    and put_ok: "inv s \<Longrightarrow> length (contents s) < room s \<Longrightarrow>
      \<exists>s'. put s x = Some s' \<and> inv s' \<and> contents s' = contents s @ [x] \<and> room s' = room s"
    and get_empty: "inv s \<Longrightarrow> contents s = [] \<Longrightarrow> get s = None"
    and get_ok: "inv s \<Longrightarrow> contents s = x # xs \<Longrightarrow>
      \<exists>s'. get s = Some (x, s') \<and> inv s' \<and> contents s' = xs \<and> room s' = room s"
begin

lemma put_all_spec:
  "inv s \<Longrightarrow> put_all put s xs = (s', n) \<Longrightarrow>
     inv s' \<and> room s' = room s \<and> n = min (length xs) (room s - length (contents s)) \<and>
     contents s' = contents s @ take n xs"
proof (induction xs arbitrary: s n)
  case Nil
  then show ?case by simp
next
  case (Cons x xs)
  show ?case
  proof (cases "length (contents s) = room s")
    case True
    then show ?thesis using Cons.prems put_full by simp
  next
    case False
    then have less: "length (contents s) < room s" using bounded [OF Cons.prems(1)] by simp
    then obtain t where t: "put s x = Some t" "inv t" "contents t = contents s @ [x]" "room t = room s"
      using put_ok Cons.prems(1) by blast
    obtain m where m: "put_all put t xs = (s', m)" "n = Suc m"
      using Cons.prems(2) t by (cases "put_all put t xs") auto
    show ?thesis using Cons.IH [OF t(2) m(1)] t m less by (auto simp: min_def)
  qed
qed

lemma get_all_spec:
  "inv s \<Longrightarrow> get_all get s n = (xs, s') \<Longrightarrow>
     inv s' \<and> room s' = room s \<and> xs = take n (contents s) \<and> contents s' = drop n (contents s)"
proof (induction n arbitrary: s xs)
  case 0
  then show ?case by simp
next
  case (Suc n)
  show ?case
  proof (cases "contents s")
    case Nil
    then show ?thesis using Suc.prems get_empty by simp
  next
    case (Cons y ys)
    then obtain t where t: "get s = Some (y, t)" "inv t" "contents t = ys" "room t = room s"
      using get_ok Suc.prems(1) by blast
    obtain zs where zs: "get_all get t n = (zs, s')" "xs = y # zs"
      using Suc.prems(2) t by (cases "get_all get t n") auto
    show ?thesis using Suc.IH [OF t(2) zs(1)] t zs Cons by simp
  qed
qed

text \<open>Elements leave an initially empty queue in the order in which they entered it.\<close>

lemma fifo_order:
  assumes "inv s" "contents s = []" "length xs \<le> room s" "put_all put s xs = (s', n)"
  shows "fst (get_all get s' m) = take m xs"
proof -
  have s': "inv s'" "contents s' = xs"
    using put_all_spec [OF assms(1,4)] assms(2,3) by auto
  obtain ys t where "get_all get s' m = (ys, t)" by fastforce
  then show ?thesis using get_all_spec [OF s'(1)] s'(2) by simp
qed

end

end
