(* ===== verification/Ringbuf.thy ===== *)
theory Ringbuf
  imports Fifo
begin

text \<open>
  \<open>kernel/lib/ringbuf.h\<close> and \<open>ringbuf.c\<close>: the byte ring buffer with caller-owned storage.
  \<open>ringbuf_list\<close> is the queue a buffer stands for; every operation is proved to act on it as
  the corresponding operation of a bounded queue, and the bulk transfers are the bulk
  operations of \<open>bounded_fifo\<close>.
\<close>

record ringbuf =
  rb_data :: "u8 list"
  rb_capacity :: u64
  rb_head :: u64
  rb_tail :: u64
  rb_count :: u64

definition ringbuf_init :: "u8 list \<Rightarrow> u64 \<Rightarrow> ringbuf" where
  "ringbuf_init data cap = \<lparr>rb_data = data, rb_capacity = cap, rb_head = 0, rb_tail = 0, rb_count = 0\<rparr>"

definition ringbuf_empty :: "ringbuf \<Rightarrow> bool" where
  "ringbuf_empty r \<longleftrightarrow> rb_count r = 0"

definition ringbuf_full :: "ringbuf \<Rightarrow> bool" where
  "ringbuf_full r \<longleftrightarrow> rb_count r = rb_capacity r"

definition ringbuf_used :: "ringbuf \<Rightarrow> u64" where
  "ringbuf_used r = rb_count r"

definition ringbuf_free :: "ringbuf \<Rightarrow> u64" where
  "ringbuf_free r = rb_capacity r - rb_count r"

text \<open>The two index updates that the operations repeat.\<close>

definition rb_store :: "ringbuf \<Rightarrow> u8 \<Rightarrow> ringbuf" where
  "rb_store r c = r\<lparr>rb_data := (rb_data r)[unat (rb_head r) := c],
     rb_head := (rb_head r + 1) mod rb_capacity r, rb_count := rb_count r + 1\<rparr>"

definition rb_drop :: "ringbuf \<Rightarrow> ringbuf" where
  "rb_drop r = r\<lparr>rb_tail := (rb_tail r + 1) mod rb_capacity r, rb_count := rb_count r - 1\<rparr>"

definition ringbuf_putc :: "ringbuf \<Rightarrow> u8 \<Rightarrow> ringbuf option" where
  "ringbuf_putc r c = (if ringbuf_full r then None else Some (rb_store r c))"

definition ringbuf_getc :: "ringbuf \<Rightarrow> (u8 \<times> ringbuf) option" where
  "ringbuf_getc r =
     (if ringbuf_empty r then None else Some (rb_data r ! unat (rb_tail r), rb_drop r))"

definition ringbuf_peek :: "ringbuf \<Rightarrow> u8 option" where
  "ringbuf_peek r = (if ringbuf_empty r then None else Some (rb_data r ! unat (rb_tail r)))"

text \<open>
  The loop of \<open>ringbuf_write\<close> on the source bytes \<open>src[written], \<dots>, src[n - 1]\<close>, and the
  loop of \<open>ringbuf_read\<close>, which stores into \<open>dst[got]\<close>.
\<close>

function ringbuf_write_loop :: "ringbuf \<Rightarrow> u8 list \<Rightarrow> nat \<Rightarrow> nat \<Rightarrow> ringbuf \<times> nat" where
  "ringbuf_write_loop r src n written =
     (if written < n \<and> \<not> ringbuf_full r
      then ringbuf_write_loop (rb_store r (src ! written)) src n (Suc written)
      else (r, written))"
  by pat_completeness auto
termination
  by (relation "measure (\<lambda>(r, src, n, written). n - written)") auto

declare ringbuf_write_loop.simps [simp del]

definition ringbuf_write :: "ringbuf \<Rightarrow> u8 list \<Rightarrow> u64 \<Rightarrow> ringbuf \<times> u64" where
  "ringbuf_write r src n = map_prod id of_nat (ringbuf_write_loop r src (unat n) 0)"

function ringbuf_read_loop :: "ringbuf \<Rightarrow> u8 list \<Rightarrow> nat \<Rightarrow> nat \<Rightarrow> ringbuf \<times> u8 list \<times> nat" where
  "ringbuf_read_loop r dst n got =
     (if got < n \<and> \<not> ringbuf_empty r
      then ringbuf_read_loop (rb_drop r) (dst[got := rb_data r ! unat (rb_tail r)]) n (Suc got)
      else (r, dst, got))"
  by pat_completeness auto
termination
  by (relation "measure (\<lambda>(r, dst, n, got). n - got)") auto

declare ringbuf_read_loop.simps [simp del]

definition ringbuf_read :: "ringbuf \<Rightarrow> u8 list \<Rightarrow> u64 \<Rightarrow> ringbuf \<times> u8 list \<times> u64" where
  "ringbuf_read r dst n = (case ringbuf_read_loop r dst (unat n) 0 of (r', dst', got) \<Rightarrow> (r', dst', of_nat got))"

text \<open>
  With capacity 0 the buffer is full, and \<open>ringbuf_force_putc\<close> divides by the capacity: the
  result is \<open>None\<close>, the processor's divide fault.  The flag is the returned \<open>dropped\<close>.
\<close>

definition ringbuf_force_putc :: "ringbuf \<Rightarrow> u8 \<Rightarrow> (ringbuf \<times> bool) option" where
  "ringbuf_force_putc r c =
     (if rb_capacity r = 0 then None
      else if ringbuf_full r then Some (rb_store (rb_drop r) c, True)
      else Some (rb_store r c, False))"

definition ringbuf_reset :: "ringbuf \<Rightarrow> ringbuf" where
  "ringbuf_reset r = r\<lparr>rb_head := 0, rb_tail := 0, rb_count := 0\<rparr>"


subsection \<open>Representation\<close>

definition ringbuf_inv :: "ringbuf \<Rightarrow> bool" where
  "ringbuf_inv r \<longleftrightarrow>
     length (rb_data r) = unat (rb_capacity r) \<and> rb_count r \<le> rb_capacity r \<and>
     (if rb_capacity r = 0 then rb_head r = 0 \<and> rb_tail r = 0
      else rb_tail r < rb_capacity r \<and>
        unat (rb_head r) = (unat (rb_tail r) + unat (rb_count r)) mod unat (rb_capacity r))"

definition ringbuf_list :: "ringbuf \<Rightarrow> u8 list" where
  "ringbuf_list r = ring_list (rb_data r) (unat (rb_tail r)) (unat (rb_count r))"

abbreviation ringbuf_room :: "ringbuf \<Rightarrow> nat" where
  "ringbuf_room r \<equiv> unat (rb_capacity r)"

lemma length_ringbuf_list [simp]: "length (ringbuf_list r) = unat (rb_count r)"
  by (simp add: ringbuf_list_def)

lemma ringbuf_full_iff: "ringbuf_full r \<longleftrightarrow> length (ringbuf_list r) = ringbuf_room r"
  by (simp add: ringbuf_full_def)

lemma ringbuf_empty_iff: "ringbuf_empty r \<longleftrightarrow> ringbuf_list r = []"
  using length_ringbuf_list [of r] by (metis length_0_conv ringbuf_empty_def unsigned_eq_0_iff)

lemma unat_succ_mod:
  fixes x c :: u64
  assumes "x < c"
  shows "unat ((x + 1) mod c) = Suc (unat x) mod unat c"
proof -
  have "unat (x + 1) = Suc (unat x)"
    using unat_plus_no_wrap [of x 1] assms unat_lt_pow [of c] by (simp add: word_less_unat)
  then show ?thesis by (simp add: unat_mod)
qed

lemma rb_store_spec:
  assumes "ringbuf_inv r" "\<not> ringbuf_full r"
  shows "ringbuf_inv (rb_store r c)" "ringbuf_list (rb_store r c) = ringbuf_list r @ [c]"
    "rb_capacity (rb_store r c) = rb_capacity r"
proof -
  let ?c = "unat (rb_capacity r)" and ?t = "unat (rb_tail r)" and ?n = "unat (rb_count r)"
  have n: "?n < ?c" "rb_capacity r \<noteq> 0" "rb_count r < rb_capacity r"
    using assms by (auto simp: ringbuf_inv_def ringbuf_full_def word_le_less_eq word_less_unat)
  have len: "length (rb_data r) = ?c" and head: "unat (rb_head r) = (?t + ?n) mod ?c"
    using assms(1) n(2) by (simp_all add: ringbuf_inv_def)
  have "rb_head r < rb_capacity r" using head n(1) by (simp add: word_less_unat)
  moreover have cnt: "unat (rb_count r + 1) = Suc ?n"
    using unat_plus_no_wrap [of "rb_count r" 1] n(1) unat_lt_pow [of "rb_capacity r"] by simp
  ultimately show "ringbuf_inv (rb_store r c)"
    using assms(1) n by (simp add: ringbuf_inv_def rb_store_def unat_succ_mod head word_le_unat mod_Suc_eq)
  show "ringbuf_list (rb_store r c) = ringbuf_list r @ [c]"
    using ring_list_put [of ?n "rb_data r" ?t c] n(1) len by (simp add: ringbuf_list_def rb_store_def cnt head)
  show "rb_capacity (rb_store r c) = rb_capacity r" by (simp add: rb_store_def)
qed

lemma rb_drop_spec:
  assumes "ringbuf_inv r" "\<not> ringbuf_empty r"
  shows "ringbuf_inv (rb_drop r)" "ringbuf_list r = rb_data r ! unat (rb_tail r) # ringbuf_list (rb_drop r)"
    "rb_capacity (rb_drop r) = rb_capacity r"
proof -
  let ?c = "unat (rb_capacity r)" and ?t = "unat (rb_tail r)" and ?n = "unat (rb_count r)"
  have pos: "rb_count r \<noteq> 0" "rb_capacity r \<noteq> 0" "?n \<le> ?c"
    using assms by (auto simp: ringbuf_inv_def ringbuf_empty_def word_le_unat unat_eq_zero)
  have t: "rb_tail r < rb_capacity r" "?t < ?c"
    and len: "length (rb_data r) = ?c" and head: "unat (rb_head r) = (?t + ?n) mod ?c"
    using assms(1) pos(2) by (simp_all add: ringbuf_inv_def word_less_unat)
  have cnt: "Suc (unat (rb_count r - 1)) = ?n"
    using unat_dec [OF pos(1)] pos(1) by (simp add: unat_gt_0)
  have tail: "unat ((rb_tail r + 1) mod rb_capacity r) = Suc ?t mod ?c" by (rule unat_succ_mod [OF t(1)])
  have "(Suc ?t mod ?c + unat (rb_count r - 1)) mod ?c = (?t + ?n) mod ?c"
    unfolding cnt [symmetric] by (simp add: mod_simps)
  moreover have "Suc ?t mod ?c < ?c" using t by simp
  moreover have "unat (rb_count r - 1) \<le> ?c" using cnt pos(3) by linarith
  ultimately show "ringbuf_inv (rb_drop r)"
    using len pos(2) by (simp add: ringbuf_inv_def rb_drop_def head word_le_unat word_less_unat tail)
  show "ringbuf_list r = rb_data r ! unat (rb_tail r) # ringbuf_list (rb_drop r)"
    using ring_list_get [of ?t "rb_data r" "unat (rb_count r - 1)"] t len
    by (simp add: ringbuf_list_def rb_drop_def tail cnt)
  show "rb_capacity (rb_drop r) = rb_capacity r" by (simp add: rb_drop_def)
qed

interpretation rb: bounded_fifo ringbuf_putc ringbuf_getc ringbuf_list ringbuf_room ringbuf_inv
proof
  fix r :: ringbuf and c :: u8
  assume inv: "ringbuf_inv r"
  then show "length (ringbuf_list r) \<le> ringbuf_room r"
    by (simp add: ringbuf_inv_def word_le_unat)
  show "ringbuf_putc r c = None" if "length (ringbuf_list r) = ringbuf_room r"
    using that by (simp add: ringbuf_putc_def ringbuf_full_iff)
  show "\<exists>r'. ringbuf_putc r c = Some r' \<and> ringbuf_inv r' \<and> ringbuf_list r' = ringbuf_list r @ [c] \<and>
      ringbuf_room r' = ringbuf_room r" if "length (ringbuf_list r) < ringbuf_room r"
    using rb_store_spec [OF inv, of c] that by (auto simp: ringbuf_putc_def ringbuf_full_def)
  show "ringbuf_getc r = None" if "ringbuf_list r = []"
    using that by (simp add: ringbuf_getc_def ringbuf_empty_iff)
  show "\<exists>r'. ringbuf_getc r = Some (c, r') \<and> ringbuf_inv r' \<and> ringbuf_list r' = xs \<and>
      ringbuf_room r' = ringbuf_room r" if "ringbuf_list r = c # xs" for xs
    using rb_drop_spec [OF inv] that by (simp add: ringbuf_getc_def ringbuf_empty_iff)
qed

lemma drop_take_step:
  "k < n \<Longrightarrow> n \<le> length xs \<Longrightarrow> drop k (take n xs) = xs ! k # drop (Suc k) (take n xs)"
  using Cons_nth_drop_Suc [of k "take n xs"] by simp

lemma ringbuf_write_loop_eq:
  assumes "written \<le> n" "n \<le> length src"
  shows "ringbuf_write_loop r src n written =
     map_prod id (\<lambda>k. written + k) (put_all ringbuf_putc r (drop written (take n src)))"
  using assms
proof (induction r src n written rule: ringbuf_write_loop.induct)
  case (1 r src n written)
  show ?case
  proof (cases "written < n \<and> \<not> ringbuf_full r")
    case True
    then show ?thesis
      using 1 drop_take_step [of written n src]
      by (simp add: ringbuf_write_loop.simps [of r src n written] ringbuf_putc_def prod.map_comp o_def id_def)
  next
    case False
    then have "written = n \<or> written < n \<and> ringbuf_full r" using "1.prems" by auto
    then show ?thesis
      using False drop_take_step [of written n src] "1.prems"
      by (auto simp: ringbuf_write_loop.simps [of r src n written] ringbuf_putc_def)
  qed
qed

lemma ringbuf_read_loop_eq:
  assumes "got \<le> n" "n \<le> length dst"
  shows "ringbuf_read_loop r dst n got =
     (case get_all ringbuf_getc r (n - got) of
        (xs, r') \<Rightarrow> (r', take got dst @ xs @ drop (got + length xs) dst, got + length xs))"
  using assms
proof (induction r dst n got rule: ringbuf_read_loop.induct)
  case (1 r dst n got)
  show ?case
  proof (cases "got < n \<and> \<not> ringbuf_empty r")
    case True
    then obtain m where m: "n - got = Suc m" "n - Suc got = m" by (cases "n - got") auto
    let ?x = "rb_data r ! unat (rb_tail r)"
    have "take (Suc got) (dst[got := ?x]) = take got dst @ [?x]"
      using True "1.prems" by (simp add: take_Suc_conv_app_nth)
    then show ?thesis
      using True 1 m
      by (auto simp: ringbuf_read_loop.simps [of r dst n got] ringbuf_getc_def split: prod.splits)
  next
    case False
    then have "ringbuf_read_loop r dst n got = (r, dst, got)"
      by (subst ringbuf_read_loop.simps) (rule if_not_P)
    then show ?thesis
      using False "1.prems" by (cases "n - got") (auto simp: ringbuf_getc_def)
  qed
qed


subsection \<open>Properties\<close>

text \<open>
  C22. The single-byte operations are those of a bounded queue.  \<open>ringbuf_putc\<close> fails exactly
  on a full buffer and otherwise appends; \<open>ringbuf_getc\<close> and \<open>ringbuf_peek\<close> fail exactly on an
  empty buffer and otherwise deliver the oldest byte; \<open>ringbuf_force_putc\<close> on a buffer of
  positive capacity appends and drops the oldest byte exactly if the buffer was full.
  All keep the representation invariant.
\<close>

theorem ringbuf_refines_queue:
  assumes "ringbuf_inv r"
  shows "(case ringbuf_putc r c of
       None \<Rightarrow> length (ringbuf_list r) = ringbuf_room r
     | Some r' \<Rightarrow> length (ringbuf_list r) < ringbuf_room r \<and> ringbuf_inv r' \<and> ringbuf_list r' = ringbuf_list r @ [c]) \<and>
     (case ringbuf_getc r of
       None \<Rightarrow> ringbuf_list r = [] \<and> ringbuf_peek r = None
     | Some (x, r') \<Rightarrow> ringbuf_inv r' \<and> ringbuf_list r = x # ringbuf_list r' \<and> ringbuf_peek r = Some x) \<and>
     (case ringbuf_force_putc r c of
       None \<Rightarrow> rb_capacity r = 0
     | Some (r', dropped) \<Rightarrow> ringbuf_inv r' \<and> dropped = ringbuf_full r \<and>
         ringbuf_list r' = (if dropped then tl (ringbuf_list r) else ringbuf_list r) @ [c])"
proof -
  have "ringbuf_full r \<Longrightarrow> rb_capacity r \<noteq> 0 \<Longrightarrow> \<not> ringbuf_empty r"
    by (auto simp: ringbuf_full_def ringbuf_empty_def)
  moreover have "\<not> ringbuf_full (rb_drop r)" if "\<not> ringbuf_empty r"
    using rb_drop_spec [OF assms that] rb.bounded [OF assms] by (auto simp: ringbuf_full_def)
  moreover have "length (ringbuf_list r) < ringbuf_room r" if "\<not> ringbuf_full r"
    using rb.bounded [OF assms] that unfolding ringbuf_full_iff by (rule le_neq_implies_less)
  ultimately show ?thesis
    using rb_store_spec [OF assms, of c] rb_drop_spec [OF assms] rb_store_spec [of "rb_drop r" c]
    by (auto simp: ringbuf_putc_def ringbuf_getc_def ringbuf_peek_def ringbuf_force_putc_def
        ringbuf_full_iff [symmetric] ringbuf_empty_iff [symmetric] simp del: length_ringbuf_list)
qed

lemma ringbuf_inv_init: "length data = unat cap \<Longrightarrow> ringbuf_inv (ringbuf_init data cap)"
  by (simp add: ringbuf_inv_def ringbuf_init_def word_gt_0)

lemma ringbuf_list_init [simp]:
  "ringbuf_list (ringbuf_init data cap) = []" "rb_capacity (ringbuf_init data cap) = cap" "rb_count (ringbuf_init data cap) = 0"
  by (simp_all add: ringbuf_list_def ringbuf_init_def)

theorem ringbuf_refines_queue_witness:
  "\<exists>r'. ringbuf_force_putc (ringbuf_init [0, 0] 2) 7 = Some (r', False) \<and> ringbuf_list r' = [7]"
proof -
  let ?r = "ringbuf_init [0, 0] 2"
  have "ringbuf_force_putc ?r 7 = Some (rb_store ?r 7, False)"
    by (simp add: ringbuf_force_putc_def ringbuf_full_def ringbuf_init_def)
  then show ?thesis
    using ringbuf_refines_queue [of ?r 7] ringbuf_inv_init [of "[0, 0]" 2] by simp
qed

text \<open>
  The bulk transfers move as many bytes as fit: \<open>ringbuf_write\<close> accepts
  \<open>min n (capacity - count)\<close> bytes and appends exactly the first that many of the source,
  \<open>ringbuf_read\<close> delivers the oldest \<open>min n count\<close> bytes in order into the front of \<open>dst\<close>,
  leaves the rest of \<open>dst\<close> alone and removes exactly what it delivered.
\<close>

theorem ringbuf_bulk_correct:
  assumes "ringbuf_inv r" "unat n \<le> length src" "unat n \<le> length dst"
  shows "(case ringbuf_write r src n of (r', k) \<Rightarrow> ringbuf_inv r' \<and>
       unat k = min (unat n) (ringbuf_room r - length (ringbuf_list r)) \<and>
       ringbuf_list r' = ringbuf_list r @ take (unat k) src) \<and>
     (case ringbuf_read r dst n of (r', dst', k) \<Rightarrow> ringbuf_inv r' \<and>
       unat k = min (unat n) (length (ringbuf_list r)) \<and>
       dst' = take (unat k) (ringbuf_list r) @ drop (unat k) dst \<and>
       ringbuf_list r' = drop (unat k) (ringbuf_list r))"
proof -
  obtain r1 k1 where w: "put_all ringbuf_putc r (take (unat n) src) = (r1, k1)" by fastforce
  obtain xs r2 where g: "get_all ringbuf_getc r (unat n) = (xs, r2)" by fastforce
  note w' = rb.put_all_spec [OF assms(1) w] and g' = rb.get_all_spec [OF assms(1) g]
  have "k1 \<le> unat n" "length xs \<le> unat n" using w' g' assms(2) by auto
  then have "unat (of_nat k1 :: u64) = k1" "unat (of_nat (length xs) :: u64) = length xs"
    using unat_lt_pow [of n] by simp_all
  moreover have "ringbuf_write r src n = (r1, of_nat k1)"
    using ringbuf_write_loop_eq [of 0 "unat n" src r] w assms(2) by (simp add: ringbuf_write_def)
  moreover have "ringbuf_read r dst n = (r2, xs @ drop (length xs) dst, of_nat (length xs))"
    using ringbuf_read_loop_eq [of 0 "unat n" dst r] g assms(3) by (simp add: ringbuf_read_def)
  ultimately show ?thesis
    using w' g' assms(2) by (auto simp: min_def)
qed

theorem ringbuf_bulk_correct_witness:
  "\<exists>r'. ringbuf_write (ringbuf_init [0, 0] 2) [5, 6, 7] 3 = (r', 2) \<and> ringbuf_list r' = [5, 6]"
proof -
  obtain r' k where w: "ringbuf_write (ringbuf_init [0, 0] 2) [5, 6, 7] 3 = (r', k)" by fastforce
  then have "unat k = 2" "ringbuf_list r' = [5, 6]"
    using ringbuf_bulk_correct [of "ringbuf_init [0, 0] 2" 3 "[5, 6, 7]" "[0, 0, 0]"] ringbuf_inv_init [of "[0, 0]" 2]
    by auto
  moreover then have "k = 2" by (metis of_nat_numeral of_nat_unat_eq)
  ultimately show ?thesis using w by simp
qed

end
