(* ===== verification/Klog.thy ===== *)
theory Klog
  imports Ringbuf
begin

text \<open>
  \<open>kernel/debug/klog_ring.c\<close>: the kernel log ring, a client of the byte ring buffer.  The
  array \<open>g_storage\<close> is the data of \<open>g_ring\<close>.  A write yields \<open>None\<close> only if the overwriting
  push of the ring buffer faults, which the invariant excludes.
\<close>

definition KLOG_RING_SIZE :: nat where
  "KLOG_RING_SIZE = 64 * 1024"

record klog =
  kl_ring :: ringbuf
  kl_total :: u64
  kl_dropped :: u64
  kl_inited :: bool

text \<open>The statics before the first call.\<close>

definition klog_boot :: klog where
  "klog_boot = \<lparr>kl_ring = \<lparr>rb_data = replicate KLOG_RING_SIZE 0, rb_capacity = 0, rb_head = 0, rb_tail = 0, rb_count = 0\<rparr>,
     kl_total = 0, kl_dropped = 0, kl_inited = False\<rparr>"

definition klog_ring_init :: "klog \<Rightarrow> klog" where
  "klog_ring_init k = k\<lparr>kl_ring := ringbuf_init (rb_data (kl_ring k)) (of_nat KLOG_RING_SIZE),
     kl_total := 0, kl_dropped := 0, kl_inited := True\<rparr>"

definition klog_putc :: "u8 \<Rightarrow> klog \<Rightarrow> klog option" where
  "klog_putc c k =
     (case ringbuf_force_putc (kl_ring k) c of
        None \<Rightarrow> None
      | Some (r, dropped) \<Rightarrow>
          Some (k\<lparr>kl_ring := r, kl_dropped := kl_dropped k + (if dropped then 1 else 0),
                  kl_total := kl_total k + 1\<rparr>))"

definition klog_ring_write_n :: "klog \<Rightarrow> u8 list \<Rightarrow> u64 \<Rightarrow> klog option" where
  "klog_ring_write_n k s n =
     fold (\<lambda>i ko. Option.bind ko (klog_putc (s ! i))) [0..<unat n]
       (Some (if kl_inited k then k else klog_ring_init k))"

text \<open>One step of the snapshot loop on \<open>(idx, copied, out)\<close>.\<close>

definition klog_snapshot_step ::
    "ringbuf \<Rightarrow> u64 \<Rightarrow> u64 \<Rightarrow> nat \<Rightarrow> u64 \<times> nat \<times> u8 list \<Rightarrow> u64 \<times> nat \<times> u8 list" where
  "klog_snapshot_step r skip max1 i st =
     (case st of (idx, copied, out) \<Rightarrow>
        let c = rb_data r ! unat idx; idx = (idx + 1) mod rb_capacity r in
        if i < unat skip then (idx, copied, out)
        else if copied < unat max1 then (idx, Suc copied, out[copied := c])
        else (idx, copied, out))"

definition klog_ring_snapshot :: "klog \<Rightarrow> u8 list \<Rightarrow> u64 \<Rightarrow> u8 list \<times> u64" where
  "klog_ring_snapshot k out max1 =
     (if \<not> kl_inited k then (out, 0)
      else
        (let used = ringbuf_used (kl_ring k);
             skip = (if used > max1 then used - max1 else 0)
         in case fold (klog_snapshot_step (kl_ring k) skip max1) [0..<unat used] (rb_tail (kl_ring k), 0, out) of
              (idx, copied, out) \<Rightarrow> (out, of_nat copied)))"

definition klog_ring_used :: "klog \<Rightarrow> u64" where
  "klog_ring_used k = (if kl_inited k then ringbuf_used (kl_ring k) else 0)"


declare length_ringbuf_list [simp del]

subsection \<open>The log as a suffix of everything written\<close>

definition klog_inv :: "klog \<Rightarrow> bool" where
  "klog_inv k \<longleftrightarrow> length (rb_data (kl_ring k)) = KLOG_RING_SIZE \<and>
     (kl_inited k \<longrightarrow> ringbuf_inv (kl_ring k) \<and> rb_capacity (kl_ring k) = of_nat KLOG_RING_SIZE)"

definition klog_bytes :: "klog \<Rightarrow> u8 list" where
  "klog_bytes k = (if kl_inited k then ringbuf_list (kl_ring k) else [])"

definition last_n :: "nat \<Rightarrow> 'a list \<Rightarrow> 'a list" where
  "last_n n xs = drop (length xs - n) xs"

lemma length_last_n [simp]: "length (last_n n xs) = min n (length xs)"
  by (simp add: last_n_def)

lemma last_n_all: "length xs \<le> n \<Longrightarrow> last_n n xs = xs"
  by (simp add: last_n_def)

lemma last_n_snoc: "0 < n \<Longrightarrow> last_n n (xs @ [x]) = (if length xs < n then xs else tl (last_n n xs)) @ [x]"
  by (auto simp: last_n_def Suc_diff_le drop_Suc tl_drop)

lemma last_n_last_n: "last_n n (last_n n xs @ ys) = last_n n (xs @ ys)"
proof -
  have "last_n n xs @ ys = drop (length xs - n) (xs @ ys)" by (simp add: last_n_def)
  moreover have "last_n n (drop (length xs - n) (xs @ ys)) = last_n n (xs @ ys)"
    unfolding last_n_def drop_drop length_drop by (rule arg_cong [of _ _ "\<lambda>k. drop k (xs @ ys)"]) auto
  ultimately show ?thesis by simp
qed

lemma klog_size: "unat (of_nat KLOG_RING_SIZE :: u64) = KLOG_RING_SIZE" "0 < KLOG_RING_SIZE"
  "of_nat KLOG_RING_SIZE \<noteq> (0 :: u64)"
  by (simp_all add: KLOG_RING_SIZE_def)

lemma klog_putc_spec:
  assumes "klog_inv k" "kl_inited k"
  shows "\<exists>k'. klog_putc c k = Some k' \<and> klog_inv k' \<and> kl_inited k' \<and>
     klog_bytes k' = last_n KLOG_RING_SIZE (klog_bytes k @ [c]) \<and>
     kl_total k' = kl_total k + 1 \<and>
     kl_dropped k' = kl_dropped k + of_nat (length (klog_bytes k @ [c]) - KLOG_RING_SIZE)"
proof -
  let ?r = "kl_ring k"
  have inv: "ringbuf_inv ?r" and cap: "rb_capacity ?r = of_nat KLOG_RING_SIZE" "ringbuf_room ?r = KLOG_RING_SIZE"
    using assms by (simp_all add: klog_inv_def klog_size)
  have len: "length (ringbuf_list ?r) \<le> KLOG_RING_SIZE" using rb.bounded [OF inv] cap by simp
  have full: "ringbuf_full ?r \<longleftrightarrow> length (ringbuf_list ?r) = KLOG_RING_SIZE"
    unfolding ringbuf_full_iff cap(2) ..
  show ?thesis
  proof (cases "ringbuf_full ?r")
    case True
    then have ne: "\<not> ringbuf_empty ?r" using full klog_size(2) by (auto simp: ringbuf_empty_iff)
    note d = rb_drop_spec [OF inv ne]
    have nf: "\<not> ringbuf_full (rb_drop ?r)"
      using d True full cap(2) unfolding ringbuf_full_iff by (simp)
    note s = rb_store_spec [OF d(1) nf, of c]
    have tl: "ringbuf_list (rb_drop ?r) = tl (ringbuf_list ?r)" using d(2) by (metis list.sel(3))
    have "last_n KLOG_RING_SIZE (ringbuf_list ?r @ [c]) = tl (ringbuf_list ?r) @ [c]"
      using True full last_n_snoc [OF klog_size(2), of "ringbuf_list ?r" c] len
      by (simp add: last_n_all)
    moreover have "length (rb_data (rb_store (rb_drop ?r) c)) = KLOG_RING_SIZE"
      using assms(1) by (simp add: klog_inv_def rb_store_def rb_drop_def)
    moreover have "rb_capacity (rb_store (rb_drop ?r) c) = of_nat KLOG_RING_SIZE"
      using s(3) d(3) cap(1) by simp
    moreover have "length (ringbuf_list ?r @ [c]) - KLOG_RING_SIZE = 1"
      using True full by (simp)
    ultimately show ?thesis
      using True s tl assms(2) cap(1) klog_size(3)
      by (simp add: klog_putc_def ringbuf_force_putc_def klog_inv_def klog_bytes_def)
  next
    case False
    then have less: "length (ringbuf_list ?r) < KLOG_RING_SIZE" using full len by linarith
    note s = rb_store_spec [OF inv False, of c]
    have "last_n KLOG_RING_SIZE (ringbuf_list ?r @ [c]) = ringbuf_list ?r @ [c]"
      using less by (simp add: last_n_all)
    moreover have "length (rb_data (rb_store ?r c)) = KLOG_RING_SIZE"
      using assms(1) by (simp add: klog_inv_def rb_store_def)
    moreover have "length (ringbuf_list ?r @ [c]) - KLOG_RING_SIZE = 0"
      using less by (simp)
    ultimately show ?thesis
      using False s assms(2) cap(1) klog_size(3)
      by (simp add: klog_putc_def ringbuf_force_putc_def klog_inv_def klog_bytes_def)
  qed
qed

lemma klog_write_fold:
  assumes "klog_inv k" "kl_inited k"
  shows "\<exists>k'. fold (\<lambda>c ko. Option.bind ko (klog_putc c)) cs (Some k) = Some k' \<and> klog_inv k' \<and> kl_inited k' \<and>
     klog_bytes k' = last_n KLOG_RING_SIZE (klog_bytes k @ cs) \<and>
     kl_total k' = kl_total k + of_nat (length cs) \<and>
     kl_dropped k' = kl_dropped k + of_nat (length (klog_bytes k @ cs) - KLOG_RING_SIZE)"
  using assms
proof (induction cs arbitrary: k)
  case Nil
  then have "length (klog_bytes k) \<le> KLOG_RING_SIZE"
    using rb.bounded [of "kl_ring k"] by (simp add: klog_bytes_def klog_inv_def klog_size)
  then show ?case using Nil by (simp add: last_n_all)
next
  case (Cons c cs)
  obtain k1 where k1: "klog_putc c k = Some k1" "klog_inv k1" "kl_inited k1"
    "klog_bytes k1 = last_n KLOG_RING_SIZE (klog_bytes k @ [c])" "kl_total k1 = kl_total k + 1"
    "kl_dropped k1 = kl_dropped k + of_nat (length (klog_bytes k @ [c]) - KLOG_RING_SIZE)"
    using klog_putc_spec [OF Cons.prems] by blast
  have eq: "length (klog_bytes k @ [c]) - KLOG_RING_SIZE + (length (klog_bytes k1 @ cs) - KLOG_RING_SIZE)
      = length (klog_bytes k @ c # cs) - KLOG_RING_SIZE"
    unfolding k1(4) by auto
  then have "kl_dropped k1 + of_nat (length (klog_bytes k1 @ cs) - KLOG_RING_SIZE)
      = kl_dropped k + of_nat (length (klog_bytes k @ c # cs) - KLOG_RING_SIZE)"
    by (simp only: k1(6) eq [symmetric] of_nat_add add.assoc)
  then show ?case
    using Cons.IH [OF k1(2,3)] k1 last_n_last_n [of KLOG_RING_SIZE "klog_bytes k @ [c]" cs]
    by (simp add: algebra_simps)
qed

lemma klog_ring_init_spec:
  assumes "klog_inv k"
  shows "klog_inv (klog_ring_init k)" "kl_inited (klog_ring_init k)" "klog_bytes (klog_ring_init k) = []"
  using assms ringbuf_inv_init [of "rb_data (kl_ring k)" "of_nat KLOG_RING_SIZE"] klog_size(1)
  by (simp_all add: klog_inv_def klog_ring_init_def klog_bytes_def) (simp add: ringbuf_init_def)

lemma klog_snapshot_loop:
  assumes inv: "ringbuf_inv r" "rb_capacity r \<noteq> 0" and "n \<le> unat (rb_count r)"
    and skip: "unat (rb_count r) - unat skip \<le> unat max1" "skip \<le> rb_count r"
    and out: "unat max1 \<le> length out"
  shows "case fold (klog_snapshot_step r skip max1) [0..<n] (rb_tail r, 0, out) of
     (idx, copied, out') \<Rightarrow>
       unat idx = (unat (rb_tail r) + n) mod unat (rb_capacity r) \<and> copied = n - unat skip \<and>
       out' = drop (unat skip) (take n (ringbuf_list r)) @ drop copied out"
  using assms(3)
proof (induction n)
  case 0
  then show ?case using inv by (simp add: ringbuf_inv_def word_less_unat)
next
  case (Suc n)
  let ?c = "unat (rb_capacity r)" and ?L = "ringbuf_list r" and ?s = "unat skip"
  obtain idx copied out' where st: "fold (klog_snapshot_step r skip max1) [0..<n] (rb_tail r, 0, out) = (idx, copied, out')"
    and ih: "unat idx = (unat (rb_tail r) + n) mod ?c" "copied = n - ?s" "out' = drop ?s (take n ?L) @ drop copied out"
    using Suc by (cases "fold (klog_snapshot_step r skip max1) [0..<n] (rb_tail r, 0, out)") auto
  have st': "fold (klog_snapshot_step r skip max1) [0..<Suc n] (rb_tail r, 0, out) = klog_snapshot_step r skip max1 n (idx, copied, out')"
    using st by simp
  have len: "length (rb_data r) = ?c" using inv(1) by (simp add: ringbuf_inv_def)
  have "idx < rb_capacity r" using ih(1) inv(2) by (simp add: word_less_unat unat_gt_0)
  then have idx': "unat ((idx + 1) mod rb_capacity r) = (unat (rb_tail r) + Suc n) mod ?c"
    using unat_succ_mod [of idx "rb_capacity r"] ih(1) by (simp add: mod_Suc_eq)
  have c: "rb_data r ! unat idx = ?L ! n"
    using Suc.prems len ih(1) by (simp add: ringbuf_list_def)
  have n: "n < length ?L" using Suc.prems by (simp add: length_ringbuf_list)
  show ?case
  proof (cases "n < ?s")
    case True
    then show ?thesis unfolding st' using ih idx' n by (simp add: klog_snapshot_step_def Let_def)
  next
    case False
    have "drop ?s (take (Suc n) ?L) = drop ?s (take n ?L) @ [?L ! n]"
      using False n by (simp add: take_Suc_conv_app_nth)
    moreover have "length (drop ?s (take n ?L)) = n - ?s" using n by simp
    moreover have lt: "n - ?s < unat max1" using skip(1) Suc.prems False by linarith
    moreover have "drop (n - ?s) out = out ! (n - ?s) # drop (Suc (n - ?s)) out"
      using lt out by (simp add: Cons_nth_drop_Suc)
    ultimately show ?thesis
      unfolding st' using False ih idx' n c by (simp add: klog_snapshot_step_def Let_def list_update_append Suc_diff_le)
  qed
qed


subsection \<open>Properties\<close>

text \<open>
  \<open>klog_ring_write_n\<close> never faults; the log then holds the most recent
  \<open>KLOG_RING_SIZE\<close> bytes of the old contents followed by the written bytes, and the lifetime
  and loss counters grow by the number of bytes written and of bytes overwritten (the loss
  counter of a log that was not initialised before starts at 0).
\<close>

theorem klog_write_keeps_latest:
  assumes "klog_inv k" "unat n \<le> length s"
  shows "\<exists>k'. klog_ring_write_n k s n = Some k' \<and> klog_inv k' \<and>
     klog_bytes k' = last_n KLOG_RING_SIZE (klog_bytes k @ take (unat n) s) \<and>
     kl_total k' = (if kl_inited k then kl_total k else 0) + n \<and>
     kl_dropped k' = (if kl_inited k then kl_dropped k else 0) +
        of_nat (length (klog_bytes k @ take (unat n) s) - KLOG_RING_SIZE)"
proof -
  let ?k = "if kl_inited k then k else klog_ring_init k"
  have k: "klog_inv ?k" "kl_inited ?k" "klog_bytes ?k = klog_bytes k"
    using assms(1) klog_ring_init_spec [of k] by (simp_all add: klog_bytes_def)
  have "fold (\<lambda>i ko. Option.bind ko (klog_putc (s ! i))) [0..<unat n] (Some ?k)
      = fold (\<lambda>c ko. Option.bind ko (klog_putc c)) (map (\<lambda>i. s ! i) [0..<unat n]) (Some ?k)"
    by (simp add: fold_map comp_def)
  moreover have "map (\<lambda>i. s ! i) [0..<unat n] = take (unat n) s"
    using assms(2) by (auto intro: nth_equalityI)
  ultimately have "klog_ring_write_n k s n = fold (\<lambda>c ko. Option.bind ko (klog_putc c)) (take (unat n) s) (Some ?k)"
    by (simp add: klog_ring_write_n_def)
  then show ?thesis
    using klog_write_fold [OF k(1,2), of "take (unat n) s"] k(3) assms(2)
    by (auto simp: klog_ring_init_def)
qed

lemma klog_boot: "klog_inv klog_boot" "klog_bytes klog_boot = []" "\<not> kl_inited klog_boot"
  by (simp_all add: klog_boot_def klog_inv_def klog_bytes_def)

theorem klog_write_keeps_latest_witness:
  "\<exists>k'. klog_ring_write_n klog_boot [72, 105] 2 = Some k' \<and> klog_bytes k' = [72, 105]"
  using klog_write_keeps_latest [OF klog_boot(1), of 2 "[72, 105]"]
  by (auto simp: klog_boot last_n_def KLOG_RING_SIZE_def)

text \<open>
  \<open>klog_ring_snapshot\<close> copies the most recent \<open>min max used\<close> bytes of the log, oldest
  first, into the front of \<open>out\<close>, leaves the rest of \<open>out\<close> alone and returns their number.
\<close>

theorem klog_snapshot_correct:
  assumes "klog_inv k" "unat max1 \<le> length out"
  shows "case klog_ring_snapshot k out max1 of (out', n) \<Rightarrow>
     unat n = min (unat max1) (length (klog_bytes k)) \<and>
     out' = last_n (unat max1) (klog_bytes k) @ drop (unat n) out"
proof (cases "kl_inited k")
  case False
  then show ?thesis by (simp add: klog_ring_snapshot_def klog_bytes_def last_n_def)
next
  case True
  let ?r = "kl_ring k" and ?used = "rb_count (kl_ring k)"
  define skip where "skip = (if ?used > max1 then ?used - max1 else 0)"
  have inv: "ringbuf_inv ?r" "rb_capacity ?r \<noteq> 0" using assms(1) True klog_size(3) by (auto simp: klog_inv_def)
  have skip: "unat skip = unat ?used - unat max1" "skip \<le> ?used"
    by (auto simp: skip_def unat_minus_no_wrap word_less_unat word_le_unat not_less)
  obtain idx copied out' where st: "fold (klog_snapshot_step ?r skip max1) [0..<unat ?used] (rb_tail ?r, 0, out) = (idx, copied, out')"
    by (metis prod_cases3)
  then have "copied = unat ?used - unat skip" "out' = drop (unat skip) (ringbuf_list ?r) @ drop copied out"
    using klog_snapshot_loop [OF inv order_refl, of skip max1 out] skip assms(2) by (auto simp: length_ringbuf_list)
  moreover have "unat ?used - unat skip = min (unat max1) (unat ?used)" using skip by simp
  moreover have "unat (of_nat (min (unat max1) (unat ?used)) :: u64) = min (unat max1) (unat ?used)"
    using unat_lt_pow [of max1] by simp
  ultimately show ?thesis
    using True st skip(1)
    by (simp add: length_ringbuf_list klog_ring_snapshot_def ringbuf_used_def Let_def skip_def [symmetric] klog_bytes_def last_n_def)
qed

theorem klog_snapshot_correct_witness:
  "klog_ring_snapshot klog_boot [1, 2] 2 = ([1, 2], 0)"
  using klog_snapshot_correct [OF klog_boot(1), of 2 "[1, 2]"]
  by (auto simp: klog_boot last_n_def unat_eq_zero split: prod.splits)

end
