(* ===== verification/Ktrace.thy ===== *)
theory Ktrace
  imports Prelude
begin

text \<open>
  \<open>kernel/debug/ktrace.c\<close>: the ring of trace events.  \<open>tick\<close> stands for the value
  \<open>kernel_ticks()\<close> returns at the call; the message pointer is the string it points to.
  The theorem relates the ring to the history of all emitted events.
\<close>

datatype ktrace_cat =
    KTRACE_CAT_SCHED | KTRACE_CAT_MEM | KTRACE_CAT_IRQ | KTRACE_CAT_FS | KTRACE_CAT_BLOCK
  | KTRACE_CAT_NET | KTRACE_CAT_USB | KTRACE_CAT_SYSCALL | KTRACE_CAT_DRIVER

fun cat_num :: "ktrace_cat \<Rightarrow> nat" where
  "cat_num KTRACE_CAT_SCHED = 0"
| "cat_num KTRACE_CAT_MEM = 1"
| "cat_num KTRACE_CAT_IRQ = 2"
| "cat_num KTRACE_CAT_FS = 3"
| "cat_num KTRACE_CAT_BLOCK = 4"
| "cat_num KTRACE_CAT_NET = 5"
| "cat_num KTRACE_CAT_USB = 6"
| "cat_num KTRACE_CAT_SYSCALL = 7"
| "cat_num KTRACE_CAT_DRIVER = 8"

fun ktrace_cat_name :: "ktrace_cat \<Rightarrow> string" where
  "ktrace_cat_name KTRACE_CAT_SCHED = ''sched''"
| "ktrace_cat_name KTRACE_CAT_MEM = ''mem''"
| "ktrace_cat_name KTRACE_CAT_IRQ = ''irq''"
| "ktrace_cat_name KTRACE_CAT_FS = ''fs''"
| "ktrace_cat_name KTRACE_CAT_BLOCK = ''block''"
| "ktrace_cat_name KTRACE_CAT_NET = ''net''"
| "ktrace_cat_name KTRACE_CAT_USB = ''usb''"
| "ktrace_cat_name KTRACE_CAT_SYSCALL = ''syscall''"
| "ktrace_cat_name KTRACE_CAT_DRIVER = ''driver''"

definition KTRACE_RING_EVENTS :: u64 where
  "KTRACE_RING_EVENTS = 1024"

record ktrace_event =
  te_seq :: u64
  te_tick :: u64
  te_cat :: ktrace_cat
  te_id :: u32
  te_arg0 :: u64
  te_arg1 :: u64
  te_msg :: string

record ktrace =
  kt_events :: "ktrace_event list"
  kt_head :: u64
  kt_seq :: u64
  kt_mask :: u32
  kt_inited :: bool

text \<open>The statics before \<open>ktrace_init\<close>.\<close>

definition ktrace_event0 :: ktrace_event where
  "ktrace_event0 = \<lparr>te_seq = 0, te_tick = 0, te_cat = KTRACE_CAT_SCHED, te_id = 0, te_arg0 = 0, te_arg1 = 0, te_msg = []\<rparr>"

definition ktrace_boot :: ktrace where
  "ktrace_boot = \<lparr>kt_events = replicate (unat KTRACE_RING_EVENTS) ktrace_event0, kt_head = 0, kt_seq = 0,
     kt_mask = 0, kt_inited = False\<rparr>"

definition ktrace_init :: "ktrace \<Rightarrow> ktrace" where
  "ktrace_init k = k\<lparr>kt_head := 0, kt_seq := 0, kt_mask := 0, kt_inited := True\<rparr>"

definition ktrace_enable :: "ktrace_cat \<Rightarrow> ktrace \<Rightarrow> ktrace" where
  "ktrace_enable cat k = k\<lparr>kt_mask := kt_mask k OR push_bit (cat_num cat) 1\<rparr>"

definition ktrace_disable :: "ktrace_cat \<Rightarrow> ktrace \<Rightarrow> ktrace" where
  "ktrace_disable cat k = k\<lparr>kt_mask := kt_mask k AND NOT (push_bit (cat_num cat) 1)\<rparr>"

definition ktrace_enable_all :: "ktrace \<Rightarrow> ktrace" where
  "ktrace_enable_all k = k\<lparr>kt_mask := NOT 0\<rparr>"

definition ktrace_disable_all :: "ktrace \<Rightarrow> ktrace" where
  "ktrace_disable_all k = k\<lparr>kt_mask := 0\<rparr>"

definition ktrace_enabled :: "ktrace_cat \<Rightarrow> ktrace \<Rightarrow> bool" where
  "ktrace_enabled cat k \<longleftrightarrow> kt_inited k \<and> kt_mask k AND push_bit (cat_num cat) 1 \<noteq> 0"

definition ktrace_emit ::
    "u64 \<Rightarrow> ktrace_cat \<Rightarrow> u32 \<Rightarrow> string \<Rightarrow> u64 \<Rightarrow> u64 \<Rightarrow> ktrace \<Rightarrow> ktrace" where
  "ktrace_emit tick cat id1 msg arg0 arg1 k0 =
     (let k = (if kt_inited k0 then k0 else ktrace_init k0);
          slot = unat (kt_head k mod KTRACE_RING_EVENTS);
          e = \<lparr>te_seq = kt_seq k, te_tick = tick, te_cat = cat, te_id = id1, te_arg0 = arg0, te_arg1 = arg1, te_msg = msg\<rparr>
      in k\<lparr>kt_events := (kt_events k)[slot := e], kt_seq := kt_seq k + 1, kt_head := kt_head k + 1\<rparr>)"

definition ktrace_macro ::
    "u64 \<Rightarrow> ktrace_cat \<Rightarrow> u32 \<Rightarrow> string \<Rightarrow> u64 \<Rightarrow> u64 \<Rightarrow> ktrace \<Rightarrow> ktrace" where
  "ktrace_macro tick cat id1 msg arg0 arg1 k =
     (if ktrace_enabled cat k then ktrace_emit tick cat id1 msg arg0 arg1 k else k)"

definition ktrace_count :: "ktrace \<Rightarrow> u64" where
  "ktrace_count k = kt_seq k"

definition ktrace_snapshot :: "ktrace \<Rightarrow> ktrace_event list \<Rightarrow> u64 \<Rightarrow> ktrace_event list \<times> u64" where
  "ktrace_snapshot k out max1 =
     (let total = (if kt_seq k < KTRACE_RING_EVENTS then kt_seq k else KTRACE_RING_EVENTS);
          n = (if total < max1 then total else max1)
      in (fold (\<lambda>i out. out[i := kt_events k ! unat ((kt_head k - 1 - of_nat i) mod KTRACE_RING_EVENTS)])
            [0..<unat n] out, n))"


subsection \<open>The ring and the history\<close>

text \<open>
  \<open>ktrace_rep k h\<close>: the state \<open>k\<close> was reached by emitting the events \<open>h\<close>, oldest first, since
  initialisation.  The bound keeps the 64-bit sequence number from wrapping.
\<close>

definition ktrace_rep :: "ktrace \<Rightarrow> ktrace_event list \<Rightarrow> bool" where
  "ktrace_rep k h \<longleftrightarrow> kt_inited k \<and> length (kt_events k) = 1024 \<and> length h < 2 ^ 64 \<and>
     unat (kt_seq k) = length h \<and> kt_head k = kt_seq k \<and>
     (\<forall>j < length h. length h \<le> j + 1024 \<longrightarrow> kt_events k ! (j mod 1024) = h ! j)"

lemma ktrace_rep_init: "length (kt_events k) = 1024 \<Longrightarrow> ktrace_rep (ktrace_init k) []"
  by (simp add: ktrace_rep_def ktrace_init_def)

lemma mod_window:
  assumes "j < n" "n < j + m" shows "j mod m \<noteq> n mod (m :: nat)"
proof
  assume "j mod m = n mod m"
  then have "m dvd n - j" using assms(1) mod_eq_dvd_iff_nat [of j n m] by auto
  then show False using assms by (auto dest: dvd_imp_le)
qed

lemma ktrace_emit_rep:
  assumes "ktrace_rep k h" "Suc (length h) < 2 ^ 64"
  shows "ktrace_rep (ktrace_emit tick cat id1 msg arg0 arg1 k)
     (h @ [\<lparr>te_seq = of_nat (length h), te_tick = tick, te_cat = cat, te_id = id1, te_arg0 = arg0, te_arg1 = arg1, te_msg = msg\<rparr>])"
proof -
  let ?e = "\<lparr>te_seq = kt_seq k, te_tick = tick, te_cat = cat, te_id = id1, te_arg0 = arg0, te_arg1 = arg1, te_msg = msg\<rparr>"
  let ?n = "length h"
  have k: "kt_inited k" "length (kt_events k) = 1024" "unat (kt_seq k) = ?n" "kt_head k = kt_seq k"
    using assms(1) by (simp_all add: ktrace_rep_def)
  have seq: "kt_seq k = of_nat ?n" using k(3) by (metis of_nat_unat_eq)
  have inc: "unat (kt_seq k + 1) = Suc ?n"
    using unat_plus_no_wrap [of "kt_seq k" 1] k(3) assms(2) by simp
  have slot: "unat (kt_seq k mod KTRACE_RING_EVENTS) = ?n mod 1024"
    by (simp add: unat_mod k(3) KTRACE_RING_EVENTS_def)
  have "((kt_events k)[?n mod 1024 := ?e]) ! (j mod 1024) = (h @ [?e]) ! j"
    if "j < Suc ?n" "Suc ?n \<le> j + 1024" for j
  proof (cases "j = ?n")
    case True
    then show ?thesis using k(2) by (simp add: nth_append)
  next
    case False
    then have "j < ?n" "?n < j + 1024" using that by simp_all
    moreover then have "j mod 1024 \<noteq> ?n mod 1024" by (rule mod_window)
    ultimately show ?thesis
      using assms(1) k(2) by (simp add: ktrace_rep_def nth_append nth_list_update)
  qed
  then show ?thesis
    using k assms(2) inc by (simp add: ktrace_rep_def ktrace_emit_def Let_def slot seq [symmetric])
qed


subsection \<open>Property\<close>

text \<open>
  The snapshot lists the most recent events first: if \<open>h\<close> is the history of emitted
  events, it fills the front of \<open>out\<close> with the last \<open>min max (min 1024 (length h))\<close> events of
  \<open>h\<close> in reverse order, leaves the rest of \<open>out\<close> alone and returns their number, and the
  event counter is the length of the history.
\<close>

theorem ktrace_snapshot_recent_first:
  assumes "ktrace_rep k h" "unat max1 \<le> length out"
  shows "ktrace_snapshot k out max1 =
     (take (unat max1) (take 1024 (rev h)) @ drop (min (unat max1) (min 1024 (length h))) out,
      of_nat (min (unat max1) (min 1024 (length h)))) \<and> unat (ktrace_count k) = length h"
proof -
  let ?n = "length h"
  define n where "n = (let total = (if kt_seq k < KTRACE_RING_EVENTS then kt_seq k else KTRACE_RING_EVENTS) in
      if total < max1 then total else max1)"
  have k: "unat (kt_seq k) = ?n" "kt_head k = kt_seq k" using assms(1) by (simp_all add: ktrace_rep_def)
  have n: "unat n = min (unat max1) (min 1024 ?n)"
    by (auto simp: n_def Let_def word_less_unat k(1) KTRACE_RING_EVENTS_def)
  have cell: "kt_events k ! unat ((kt_head k - 1 - of_nat i) mod KTRACE_RING_EVENTS) = rev h ! i" if "i < unat n" for i
  proof -
    have i: "i < ?n" "i < 1024" using that n by simp_all
    have "unat (of_nat (Suc i) :: u64) = Suc i" using i by (intro unat_of_nat_no_wrap) simp
    then have diff: "unat (kt_seq k - of_nat (Suc i)) = ?n - Suc i"
      using unat_minus_no_wrap [of "of_nat (Suc i)" "kt_seq k"] i k(1) by (simp add: word_le_unat)
    have "kt_head k - 1 - of_nat i = kt_seq k - of_nat (Suc i)" using k(2) by simp
    then have "unat ((kt_head k - 1 - of_nat i) mod KTRACE_RING_EVENTS) = (?n - Suc i) mod 1024"
      by (simp only: unat_mod diff) (simp add: KTRACE_RING_EVENTS_def)
    then show ?thesis
      using assms(1) i by (simp add: ktrace_rep_def rev_nth)
  qed
  let ?out = "fold (\<lambda>i out. out[i := kt_events k ! unat ((kt_head k - 1 - of_nat i) mod KTRACE_RING_EVENTS)]) [0..<unat n] out"
  have "?out = take (unat n) (rev h) @ drop (unat n) out"
  proof (rule nth_equalityI)
    show "length ?out = length (take (unat n) (rev h) @ drop (unat n) out)" using n assms(2) by simp
  next
    fix i assume "i < length ?out"
    then have "i < length out" by simp
    moreover have "unat n \<le> ?n" "unat n \<le> length out" using n assms(2) by simp_all
    ultimately show "?out ! i = (take (unat n) (rev h) @ drop (unat n) out) ! i"
      using cell by (cases "i < unat n") (simp_all add: fold_update_nth nth_append)
  qed
  moreover have "ktrace_snapshot k out max1 = (?out, n)" by (simp add: ktrace_snapshot_def n_def Let_def)
  moreover have "n = of_nat (min (unat max1) (min 1024 ?n))" using n by (metis of_nat_unat_eq)
  moreover have "take (unat n) (rev h) = take (unat max1) (take 1024 (rev h))" using n by (auto simp: min_def)
  ultimately show ?thesis using n k(1) by (simp add: ktrace_count_def)
qed

theorem ktrace_snapshot_recent_first_witness:
  "fst (ktrace_snapshot (ktrace_emit 5 KTRACE_CAT_FS 1 ''open'' 7 8 (ktrace_init ktrace_boot)) [ktrace_event0] 1) =
   [\<lparr>te_seq = 0, te_tick = 5, te_cat = KTRACE_CAT_FS, te_id = 1, te_arg0 = 7, te_arg1 = 8, te_msg = ''open''\<rparr>]"
proof -
  have "ktrace_rep (ktrace_init ktrace_boot) []"
    by (rule ktrace_rep_init) (simp add: ktrace_boot_def KTRACE_RING_EVENTS_def)
  then have rep: "ktrace_rep (ktrace_emit 5 KTRACE_CAT_FS 1 ''open'' 7 8 (ktrace_init ktrace_boot))
      [\<lparr>te_seq = 0, te_tick = 5, te_cat = KTRACE_CAT_FS, te_id = 1, te_arg0 = 7, te_arg1 = 8, te_msg = ''open''\<rparr>]"
    using ktrace_emit_rep [of "ktrace_init ktrace_boot" "[]" 5 KTRACE_CAT_FS 1 "''open''" 7 8] by simp
  show ?thesis
    using ktrace_snapshot_recent_first [OF rep, of 1 "[ktrace_event0]"] by simp
qed

end
