(* ===== verification/Input_Queue.thy ===== *)
theory Input_Queue
  imports Fifo
begin

text \<open>
  \<open>kernel/input/input_queue.c\<close> and \<open>input_event.c\<close>: the ring of input events that the
  interrupt handlers fill and the readers drain.  Each operation runs with interrupts
  disabled, so it is one atomic step.  The C \<open>int\<close> indices stay in \<open>0..QUEUE_SIZE\<close> and are
  natural numbers here.
\<close>

record input_event =
  ev_type :: u16
  ev_code :: u16
  ev_value :: u32
  ev_value2 :: u32
  ev_source :: u16
  ev_pad :: u16

definition INPUT_EV_KEY :: u16 where
  "INPUT_EV_KEY = 1"

definition INPUT_SRC_UNKNOWN :: u16 where
  "INPUT_SRC_UNKNOWN = 0"

definition input_event_init_key :: "u16 \<Rightarrow> bool \<Rightarrow> input_event" where
  "input_event_init_key code pressed =
     \<lparr>ev_type = INPUT_EV_KEY, ev_code = code, ev_value = (if pressed then 1 else 0), ev_value2 = 0,
      ev_source = INPUT_SRC_UNKNOWN, ev_pad = 0\<rparr>"

definition input_source_name :: "u16 \<Rightarrow> string" where
  "input_source_name source =
     (if source = 1 then ''ps2-keyboard''
      else if source = 2 then ''usb-keyboard''
      else if source = 3 then ''usb-mouse''
      else ''unknown'')"

definition QUEUE_SIZE :: nat where
  "QUEUE_SIZE = 128"

record input_queue =
  iq_ring :: "input_event list"
  iq_head :: nat
  iq_tail :: nat
  iq_count :: nat

definition input_queue_init :: "input_queue \<Rightarrow> input_queue" where
  "input_queue_init q = q\<lparr>iq_head := 0, iq_tail := 0, iq_count := 0\<rparr>"

definition input_queue_push :: "input_queue \<Rightarrow> input_event \<Rightarrow> input_queue option" where
  "input_queue_push q ev =
     (if iq_count q \<ge> QUEUE_SIZE then None
      else Some (q\<lparr>iq_ring := (iq_ring q)[iq_tail q := ev],
                   iq_tail := (iq_tail q + 1) mod QUEUE_SIZE, iq_count := iq_count q + 1\<rparr>))"

definition input_queue_pop :: "input_queue \<Rightarrow> (input_event \<times> input_queue) option" where
  "input_queue_pop q =
     (if iq_count q = 0 then None
      else Some (iq_ring q ! iq_head q,
                 q\<lparr>iq_head := (iq_head q + 1) mod QUEUE_SIZE, iq_count := iq_count q - 1\<rparr>))"

definition input_queue_count :: "input_queue \<Rightarrow> nat" where
  "input_queue_count q = iq_count q"


subsection \<open>The queue of events\<close>

definition iq_inv :: "input_queue \<Rightarrow> bool" where
  "iq_inv q \<longleftrightarrow> length (iq_ring q) = QUEUE_SIZE \<and> iq_count q \<le> QUEUE_SIZE \<and>
     iq_head q < QUEUE_SIZE \<and> iq_tail q = (iq_head q + iq_count q) mod QUEUE_SIZE"

definition iq_events :: "input_queue \<Rightarrow> input_event list" where
  "iq_events q = ring_list (iq_ring q) (iq_head q) (iq_count q)"

lemma length_iq_events [simp]: "length (iq_events q) = iq_count q"
  by (simp add: iq_events_def)

lemma iq_inv_init: "length (iq_ring q) = QUEUE_SIZE \<Longrightarrow> iq_inv (input_queue_init q)"
  by (simp add: iq_inv_def input_queue_init_def QUEUE_SIZE_def)

lemma iq_events_init [simp]: "iq_events (input_queue_init q) = []"
  by (simp add: iq_events_def input_queue_init_def)

interpretation iq: bounded_fifo input_queue_push input_queue_pop iq_events "\<lambda>_. QUEUE_SIZE" iq_inv
proof
  fix q :: input_queue and ev :: input_event
  assume inv: "iq_inv q"
  then show "length (iq_events q) \<le> QUEUE_SIZE" by (simp add: iq_inv_def)
  show "input_queue_push q ev = None" if "length (iq_events q) = QUEUE_SIZE"
    using that by (simp add: input_queue_push_def)
  show "\<exists>q'. input_queue_push q ev = Some q' \<and> iq_inv q' \<and> iq_events q' = iq_events q @ [ev] \<and> QUEUE_SIZE = QUEUE_SIZE"
    if "length (iq_events q) < QUEUE_SIZE"
    using that inv ring_list_put [of "iq_count q" "iq_ring q" "iq_head q" ev]
    by (simp add: input_queue_push_def iq_inv_def iq_events_def mod_Suc_eq)
  show "input_queue_pop q = None" if "iq_events q = []"
    using that length_iq_events [of q] by (simp add: input_queue_pop_def)
  show "\<exists>q'. input_queue_pop q = Some (ev, q') \<and> iq_inv q' \<and> iq_events q' = xs \<and> QUEUE_SIZE = QUEUE_SIZE"
    if hd: "iq_events q = ev # xs" for xs
  proof -
    obtain n where n: "iq_count q = Suc n" using arg_cong [OF hd, of length] by (cases "iq_count q") auto
    then show ?thesis
      using hd inv ring_list_get [of "iq_head q" "iq_ring q" n]
      by (simp add: input_queue_pop_def iq_inv_def iq_events_def mod_simps QUEUE_SIZE_def)
  qed
qed


subsection \<open>Property\<close>

text \<open>
  Events leave the input queue in the order in which they were pushed, and none is lost
  up to the capacity: from an initialised queue, pushing at most \<open>QUEUE_SIZE\<close> events succeeds
  for each, and \<open>m\<close> pops deliver the first \<open>m\<close> of them in order.
\<close>

theorem input_queue_order:
  assumes "length (iq_ring q) = QUEUE_SIZE" and "length evs \<le> QUEUE_SIZE"
  shows "case put_all input_queue_push (input_queue_init q) evs of (q', n) \<Rightarrow>
     n = length evs \<and> input_queue_count q' = length evs \<and> fst (get_all input_queue_pop q' m) = take m evs"
proof -
  have q: "iq_inv (input_queue_init q)" using assms(1) by (rule iq_inv_init)
  obtain q' n where put: "put_all input_queue_push (input_queue_init q) evs = (q', n)" by fastforce
  have "n = length evs" "iq_events q' = evs"
    using iq.put_all_spec [OF q put] assms(2) by simp_all
  moreover have "fst (get_all input_queue_pop q' m) = take m evs"
    by (rule iq.fifo_order [OF q _ _ put]) (simp_all add: assms)
  moreover have "input_queue_count q' = length (iq_events q')" by (simp add: input_queue_count_def)
  ultimately show ?thesis using put by simp
qed

theorem input_queue_order_witness:
  "case put_all input_queue_push (input_queue_init \<lparr>iq_ring = replicate QUEUE_SIZE (input_event_init_key 0 False),
        iq_head = 0, iq_tail = 0, iq_count = 0\<rparr>) [input_event_init_key 30 True, input_event_init_key 30 False] of
     (q', n) \<Rightarrow> fst (get_all input_queue_pop q' 1) = [input_event_init_key 30 True]"
  using input_queue_order [of "\<lparr>iq_ring = replicate QUEUE_SIZE (input_event_init_key 0 False),
        iq_head = 0, iq_tail = 0, iq_count = 0\<rparr>" "[input_event_init_key 30 True, input_event_init_key 30 False]" 1]
  by (auto simp: QUEUE_SIZE_def split: prod.splits)

end
