(* ===== verification/Tty.thy ===== *)
theory Tty
  imports Prelude
begin

text \<open>
  \<open>kernel/tty/tty.c\<close>: the scripted input buffer and the canonical line discipline.  The
  statics are one record; \<open>tty_out\<close> collects what goes to the console sinks through
  \<open>console_putc\<close> and \<open>console_write\<close>.  Characters are bytes.
\<close>

definition TTY_INPUT_CAPACITY :: u64 where
  "TTY_INPUT_CAPACITY = 4096"

definition TTY_LINE_MAX :: u64 where
  "TTY_LINE_MAX = 256"

record tty =
  tty_buf :: "u8 list"
  tty_input_len :: u64
  tty_input_pos :: u64
  tty_line :: "u8 list"
  tty_line_len :: u64
  tty_out :: "u8 list"

definition tty_init :: "tty \<Rightarrow> tty" where
  "tty_init t = t\<lparr>tty_input_len := 0, tty_input_pos := 0, tty_line_len := 0\<rparr>"

function tty_push_loop :: "u8 list \<Rightarrow> nat \<Rightarrow> nat \<Rightarrow> tty \<Rightarrow> tty" where
  "tty_push_loop data i len t =
     (if i < len \<and> tty_input_len t < TTY_INPUT_CAPACITY
      then tty_push_loop data (Suc i) len
             (t\<lparr>tty_buf := (tty_buf t)[unat (tty_input_len t) := data ! i], tty_input_len := tty_input_len t + 1\<rparr>)
      else t)"
  by pat_completeness auto
termination
  by (relation "measure (\<lambda>(data, i, len, t). len - i)") auto

declare tty_push_loop.simps [simp del]

definition tty_push_input :: "u8 list \<Rightarrow> u64 \<Rightarrow> tty \<Rightarrow> tty" where
  "tty_push_input data len t = tty_push_loop data 0 (unat len) t"

definition tty_push_line :: "u8 list \<Rightarrow> tty \<Rightarrow> tty" where
  "tty_push_line line t = tty_push_input [10] 1 (tty_push_input line (of_nat (length line)) t)"

text \<open>\<open>tty_read\<close> copies into the caller's buffer; the result is the copied bytes and their number.\<close>

definition tty_read :: "u64 \<Rightarrow> tty \<Rightarrow> u8 list \<times> u64 \<times> tty" where
  "tty_read sz t =
     (if tty_input_pos t \<ge> tty_input_len t \<or> sz = 0 then ([], 0, t)
      else
        (let avail = tty_input_len t - tty_input_pos t;
             n = (if sz < avail then sz else avail)
         in (take (unat n) (drop (unat (tty_input_pos t)) (tty_buf t)), n,
             t\<lparr>tty_input_pos := tty_input_pos t + n\<rparr>)))"

definition tty_write :: "u8 list \<Rightarrow> tty \<Rightarrow> tty" where
  "tty_write buf t = t\<lparr>tty_out := tty_out t @ buf\<rparr>"

definition tty_echo :: "u8 \<Rightarrow> tty \<Rightarrow> tty" where
  "tty_echo c t = t\<lparr>tty_out := tty_out t @ [c]\<rparr>"

definition tty_input_char :: "u8 \<Rightarrow> tty \<Rightarrow> tty" where
  "tty_input_char c t =
     (if c = 10 \<or> c = 13 then
        (tty_echo 10 (tty_push_input [10] 1 (tty_push_input (tty_line t) (tty_line_len t) t)))\<lparr>tty_line_len := 0\<rparr>
      else if c = 8 \<or> c = 0x7F then
        (if tty_line_len t > 0
         then tty_echo 8 (tty_echo 32 (tty_echo 8 (t\<lparr>tty_line_len := tty_line_len t - 1\<rparr>)))
         else t)
      else if tty_line_len t < TTY_LINE_MAX - 1 then
        tty_echo c (t\<lparr>tty_line := (tty_line t)[unat (tty_line_len t) := c], tty_line_len := tty_line_len t + 1\<rparr>)
      else t)"

definition tty_reset_input :: "tty \<Rightarrow> tty" where
  "tty_reset_input t = t\<lparr>tty_input_len := 0, tty_input_pos := 0, tty_line_len := 0\<rparr>"


subsection \<open>Pending input and the edited line\<close>

definition tty_inv :: "tty \<Rightarrow> bool" where
  "tty_inv t \<longleftrightarrow> length (tty_buf t) = unat TTY_INPUT_CAPACITY \<and> length (tty_line t) = unat TTY_LINE_MAX \<and>
     tty_input_pos t \<le> tty_input_len t \<and> tty_input_len t \<le> TTY_INPUT_CAPACITY \<and> tty_line_len t < TTY_LINE_MAX"

text \<open>Everything submitted so far, what a reader has not consumed of it, and the line under construction.\<close>

definition tty_submitted :: "tty \<Rightarrow> u8 list" where
  "tty_submitted t = take (unat (tty_input_len t)) (tty_buf t)"

definition tty_pending :: "tty \<Rightarrow> u8 list" where
  "tty_pending t = drop (unat (tty_input_pos t)) (tty_submitted t)"

definition tty_current :: "tty \<Rightarrow> u8 list" where
  "tty_current t = take (unat (tty_line_len t)) (tty_line t)"

text \<open>The editing a user sees: a line of at most 255 characters with backspace.\<close>

definition edit_char :: "u8 \<Rightarrow> u8 list \<Rightarrow> u8 list" where
  "edit_char c line =
     (if c = 8 \<or> c = 0x7F then butlast line else if length line < 255 then line @ [c] else line)"

text \<open>What the user sees on the console while typing: the character, or an erased column.\<close>

definition char_echo :: "u8 \<Rightarrow> u8 list \<Rightarrow> u8 list" where
  "char_echo c line =
     (if c = 8 \<or> c = 0x7F then (if line = [] then [] else [8, 32, 8]) else if length line < 255 then [c] else [])"

primrec edit_echo :: "u8 list \<Rightarrow> u8 list \<Rightarrow> u8 list" where
  "edit_echo [] line = []"
| "edit_echo (c # cs) line = char_echo c line @ edit_echo cs (edit_char c line)"

lemmas tty_const = TTY_INPUT_CAPACITY_def TTY_LINE_MAX_def

lemma length_tty_submitted: "tty_inv t \<Longrightarrow> length (tty_submitted t) = unat (tty_input_len t)"
  by (simp add: tty_inv_def tty_submitted_def word_le_unat)

lemma unat_incr: "x < (y :: u64) \<Longrightarrow> unat (x + 1) = Suc (unat x)"
  using unat_plus_no_wrap [of x 1] unat_lt_pow [of y] by (simp add: word_less_unat)

lemma tty_push_loop_spec:
  assumes "tty_inv t" "i \<le> len" "len \<le> length data"
  shows "tty_inv (tty_push_loop data i len t) \<and>
     tty_submitted (tty_push_loop data i len t) = take 4096 (tty_submitted t @ drop i (take len data)) \<and>
     tty_input_pos (tty_push_loop data i len t) = tty_input_pos t \<and>
     tty_line (tty_push_loop data i len t) = tty_line t \<and> tty_line_len (tty_push_loop data i len t) = tty_line_len t \<and>
     tty_out (tty_push_loop data i len t) = tty_out t"
  using assms
proof (induction data i len t rule: tty_push_loop.induct)
  case (1 data i len t)
  let ?n = "unat (tty_input_len t)"
  have n: "?n \<le> 4096" using "1.prems"(1) by (simp add: tty_inv_def word_le_unat tty_const)
  show ?case
  proof (cases "i < len \<and> tty_input_len t < TTY_INPUT_CAPACITY")
    case True
    let ?t = "t\<lparr>tty_buf := (tty_buf t)[?n := data ! i], tty_input_len := tty_input_len t + 1\<rparr>"
    have lt: "?n < 4096" using True by (simp add: word_less_unat tty_const)
    have inc: "unat (tty_input_len t + 1) = Suc ?n" using unat_incr True by blast
    have inv: "tty_inv ?t"
      using "1.prems"(1) lt inc by (simp add: tty_inv_def word_le_unat tty_const)
    have "tty_submitted ?t = tty_submitted t @ [data ! i]"
      using "1.prems"(1) lt by (simp add: tty_submitted_def inc tty_inv_def tty_const take_Suc_conv_app_nth)
    moreover have "drop i (take len data) = data ! i # drop (Suc i) (take len data)"
      using True "1.prems"(3) Cons_nth_drop_Suc [of i "take len data"] by simp
    ultimately show ?thesis
      using "1.IH" [OF True inv] True "1.prems" by (simp add: tty_push_loop.simps [of data i len t])
  next
    case False
    have "tty_push_loop data i len t = t"
      unfolding tty_push_loop.simps [of data i len t] by (rule if_not_P [OF False])
    moreover have "take 4096 (tty_submitted t @ drop i (take len data)) = tty_submitted t"
      using False "1.prems" n length_tty_submitted [of t]
      by (auto simp: word_less_unat tty_const not_less)
    ultimately show ?thesis using "1.prems"(1) by simp
  qed
qed

lemma tty_push_input_spec:
  assumes "tty_inv t" "unat len \<le> length data"
  shows "tty_inv (tty_push_input data len t)"
    and "tty_submitted (tty_push_input data len t) = take 4096 (tty_submitted t @ take (unat len) data)"
    and "tty_input_pos (tty_push_input data len t) = tty_input_pos t"
    and "tty_line (tty_push_input data len t) = tty_line t"
    and "tty_line_len (tty_push_input data len t) = tty_line_len t"
    and "tty_out (tty_push_input data len t) = tty_out t"
  using tty_push_loop_spec [OF assms(1) le0 assms(2)] by (simp_all add: tty_push_input_def)

lemma tty_echo_simps [simp]:
  "tty_inv (tty_echo c t) = tty_inv t" "tty_submitted (tty_echo c t) = tty_submitted t"
  "tty_current (tty_echo c t) = tty_current t" "tty_input_pos (tty_echo c t) = tty_input_pos t"
  "tty_line (tty_echo c t) = tty_line t" "tty_line_len (tty_echo c t) = tty_line_len t"
  "tty_buf (tty_echo c t) = tty_buf t" "tty_input_len (tty_echo c t) = tty_input_len t"
  "tty_out (tty_echo c t) = tty_out t @ [c]"
  by (simp_all add: tty_echo_def tty_inv_def tty_submitted_def tty_current_def)

lemma tty_input_edit:
  assumes "tty_inv t" "c \<noteq> 10" "c \<noteq> 13"
  shows "tty_inv (tty_input_char c t)" "tty_current (tty_input_char c t) = edit_char c (tty_current t)"
    "tty_submitted (tty_input_char c t) = tty_submitted t" "tty_input_pos (tty_input_char c t) = tty_input_pos t"
    "tty_out (tty_input_char c t) = tty_out t @ char_echo c (tty_current t)"
proof -
  let ?n = "unat (tty_line_len t)"
  have n: "?n < 256" "length (tty_line t) = 256"
    using assms(1) by (simp_all add: tty_inv_def word_less_unat tty_const)
  have len: "length (tty_current t) = ?n" using n by (simp add: tty_current_def)
  have room: "tty_line_len t < TTY_LINE_MAX - 1 \<longleftrightarrow> ?n < 255"
    by (simp add: word_less_unat tty_const)
  have dec: "tty_line_len t \<noteq> 0 \<Longrightarrow> unat (tty_line_len t - 1) = ?n - 1" by (rule unat_dec)
  have inc: "?n < 255 \<Longrightarrow> unat (tty_line_len t + 1) = Suc ?n"
    using unat_plus_no_wrap [of "tty_line_len t" 1] by simp
  have zero: "tty_line_len t = 0 \<longleftrightarrow> ?n = 0" by (simp add: unat_eq_zero)
  show "tty_inv (tty_input_char c t)"
    using assms n dec inc zero
    by (auto simp: tty_input_char_def room tty_inv_def word_less_unat tty_const word_gt_0)
  show "tty_current (tty_input_char c t) = edit_char c (tty_current t)"
    using assms(2,3) n dec inc zero len
    by (auto simp: tty_input_char_def edit_char_def room word_gt_0 tty_current_def butlast_take
        take_Suc_conv_app_nth)
  show "tty_submitted (tty_input_char c t) = tty_submitted t" "tty_input_pos (tty_input_char c t) = tty_input_pos t"
    using assms(2,3) by (auto simp: tty_input_char_def tty_submitted_def)
  have "tty_current t = [] \<longleftrightarrow> ?n = 0" using len by (metis length_0_conv)
  then show "tty_out (tty_input_char c t) = tty_out t @ char_echo c (tty_current t)"
    using assms(2,3) len zero by (auto simp: tty_input_char_def char_echo_def room word_gt_0)
qed

lemma tty_input_submit:
  assumes "tty_inv t" "c = 10 \<or> c = 13"
  shows "tty_inv (tty_input_char c t)" "tty_current (tty_input_char c t) = []"
    "tty_submitted (tty_input_char c t) = take 4096 (tty_submitted t @ tty_current t @ [10])"
    "tty_input_pos (tty_input_char c t) = tty_input_pos t" "tty_out (tty_input_char c t) = tty_out t @ [10]"
proof -
  let ?t1 = "tty_push_input (tty_line t) (tty_line_len t) t" and ?t2 = "\<lambda>t. tty_push_input [10] 1 t"
  have "unat (tty_line_len t) \<le> length (tty_line t)"
    using assms(1) by (simp add: tty_inv_def word_less_unat)
  note p1 = tty_push_input_spec [OF assms(1) this]
  have p2: "tty_inv (?t2 ?t1)" "tty_submitted (?t2 ?t1) = take 4096 (tty_submitted ?t1 @ [10])"
    "tty_input_pos (?t2 ?t1) = tty_input_pos ?t1" "tty_out (?t2 ?t1) = tty_out ?t1"
    using tty_push_input_spec [OF p1(1), of 1 "[10]"] by simp_all
  have eq: "tty_input_char c t = (tty_echo 10 (?t2 ?t1))\<lparr>tty_line_len := 0\<rparr>"
    using assms(2) by (simp add: tty_input_char_def)
  show "tty_inv (tty_input_char c t)" "tty_current (tty_input_char c t) = []"
    "tty_input_pos (tty_input_char c t) = tty_input_pos t" "tty_out (tty_input_char c t) = tty_out t @ [10]"
    using p2 p1(3,6) tty_echo_simps(1) [of 10 "?t2 ?t1"]
    unfolding eq by (simp_all add: tty_inv_def tty_current_def word_gt_0 tty_const)
  have "tty_submitted (tty_input_char c t) = tty_submitted (?t2 ?t1)"
    unfolding eq by (simp add: tty_submitted_def)
  then show "tty_submitted (tty_input_char c t) = take 4096 (tty_submitted t @ tty_current t @ [10])"
    using p2(2) p1(2) by (simp add: tty_current_def min_def)
qed

lemma tty_read_spec:
  assumes "tty_inv t"
  shows "case tty_read n t of (bytes, k, t') \<Rightarrow>
     bytes = take (unat n) (tty_pending t) \<and> unat k = length bytes \<and>
     tty_pending t' = drop (unat n) (tty_pending t) \<and> (\<exists>p. t' = t\<lparr>tty_input_pos := p\<rparr>)"
proof -
  let ?p = "unat (tty_input_pos t)" and ?l = "unat (tty_input_len t)"
  have pl: "?p \<le> ?l" "?l \<le> length (tty_buf t)" using assms by (simp_all add: tty_inv_def word_le_unat)
  have pend: "tty_pending t = take (?l - ?p) (drop ?p (tty_buf t))"
    by (simp add: tty_pending_def tty_submitted_def drop_take)
  show ?thesis
  proof (cases "tty_input_pos t \<ge> tty_input_len t \<or> n = 0")
    case True
    then have "tty_read n t = ([], 0, t)" by (auto simp: tty_read_def)
    moreover have "\<exists>p. t = t\<lparr>tty_input_pos := p\<rparr>" by (rule exI [of _ "tty_input_pos t"]) simp
    ultimately show ?thesis using True pend pl by (auto simp: word_le_unat)
  next
    case False
    have av: "unat (tty_input_len t - tty_input_pos t) = ?l - ?p"
      using False by (simp add: unat_minus_no_wrap word_le_unat)
    define k where "k = (if n < tty_input_len t - tty_input_pos t then n else tty_input_len t - tty_input_pos t)"
    have k: "unat k = min (unat n) (?l - ?p)" by (auto simp: k_def av word_less_unat)
    have "unat k \<le> ?l - ?p" using k by simp
    then have "?p + unat k \<le> ?l" using pl(1) by linarith
    then have "?p + unat k < 2 ^ 64" using unat_lt_pow [of "tty_input_len t"] by simp
    then have pos: "unat (tty_input_pos t + k) = ?p + unat k" using unat_plus_no_wrap [of "tty_input_pos t" k] by simp
    have "tty_read n t = (take (unat k) (drop ?p (tty_buf t)), k, t\<lparr>tty_input_pos := tty_input_pos t + k\<rparr>)"
      using False by (simp add: tty_read_def k_def Let_def)
    moreover have "take (unat k) (drop ?p (tty_buf t)) = take (unat n) (tty_pending t)"
      by (simp add: k pend min.commute)
    moreover have "tty_pending (t\<lparr>tty_input_pos := tty_input_pos t + k\<rparr>) = drop (unat n) (tty_pending t)"
    proof (cases "unat n \<le> ?l - ?p")
      case True
      then show ?thesis by (simp add: tty_pending_def tty_submitted_def pos k) (simp add: add.commute)
    next
      case far: False
      then show ?thesis using pl by (simp add: tty_pending_def tty_submitted_def pos k)
    qed
    moreover have "\<exists>p. t\<lparr>tty_input_pos := tty_input_pos t + k\<rparr> = t\<lparr>tty_input_pos := p\<rparr>" by blast
    ultimately show ?thesis using k pl by (simp add: pend)
  qed
qed


subsection \<open>Property\<close>

text \<open>
  C23. Canonical input.  Typing characters without Enter edits the current line: an erase
  character removes the last character, any other is appended up to 255 characters, and the
  console shows each accepted character and each erased column; input that is not yet read stays
  as it is.  Enter (carriage return or newline) then puts exactly the edited line and a newline
  after the unread input, as far as the 4096 bytes of the buffer, which reading does not
  give back, have room for them, and empties the line.  A following read of \<open>n\<close> bytes delivers the
  first \<open>n\<close> bytes of the unread input, consumes exactly these and changes nothing else.
\<close>

theorem tty_canonical_input:
  assumes "tty_inv t" "10 \<notin> set cs" "13 \<notin> set cs" "enter = 10 \<or> enter = 13"
  defines "line \<equiv> fold edit_char cs (tty_current t)"
    and "t1 \<equiv> fold tty_input_char cs t"
    and "input \<equiv> tty_pending t @ take (4096 - length (tty_submitted t)) (fold edit_char cs (tty_current t) @ [10])"
  shows "tty_current t1 = line \<and> tty_pending t1 = tty_pending t \<and> tty_out t1 = tty_out t @ edit_echo cs (tty_current t)
     \<and> tty_inv (tty_input_char enter t1) \<and> tty_current (tty_input_char enter t1) = []
     \<and> tty_pending (tty_input_char enter t1) = input \<and> tty_out (tty_input_char enter t1) = tty_out t1 @ [10]
     \<and> (case tty_read n (tty_input_char enter t1) of (bytes, k, t2) \<Rightarrow>
          bytes = take (unat n) input \<and> unat k = length bytes \<and> tty_pending t2 = drop (unat n) input
          \<and> (\<exists>p. t2 = (tty_input_char enter t1)\<lparr>tty_input_pos := p\<rparr>))"
proof -
  define t' where "t' = tty_input_char enter t1"
  have edit: "tty_inv t1 \<and> tty_current t1 = line \<and> tty_submitted t1 = tty_submitted t \<and> tty_input_pos t1 = tty_input_pos t
      \<and> tty_out t1 = tty_out t @ edit_echo cs (tty_current t)"
    unfolding line_def t1_def using assms(1-3)
    by (induction cs arbitrary: t) (simp_all add: tty_input_edit)
  note sub = tty_input_submit [OF conjunct1 [OF edit] assms(4), folded t'_def]
  have len: "length (tty_submitted t) \<le> 4096" "unat (tty_input_pos t) \<le> length (tty_submitted t)"
    using assms(1) length_tty_submitted [OF assms(1)] by (simp_all add: tty_inv_def word_le_unat tty_const)
  have pend: "tty_pending t' = input"
    using sub(3,4) edit len unfolding input_def line_def [symmetric] by (simp add: tty_pending_def)
  moreover have "tty_pending t1 = tty_pending t" using edit by (simp add: tty_pending_def)
  moreover have "case tty_read n t' of (bytes, k, t2) \<Rightarrow>
      bytes = take (unat n) input \<and> unat k = length bytes \<and> tty_pending t2 = drop (unat n) input
      \<and> (\<exists>p. t2 = t'\<lparr>tty_input_pos := p\<rparr>)"
    using tty_read_spec [OF sub(1), of n] unfolding pend .
  ultimately show ?thesis using edit sub unfolding t'_def by blast
qed

definition tty_boot :: tty where
  "tty_boot = \<lparr>tty_buf = replicate 4096 0, tty_input_len = 0, tty_input_pos = 0, tty_line = replicate 256 0,
     tty_line_len = 0, tty_out = []\<rparr>"

theorem tty_canonical_input_witness:
  "fst (tty_read 8 (tty_input_char 10 (fold tty_input_char [108, 120, 8, 115] (tty_push_input [33, 10] 2 tty_boot))))
     = [33, 10, 108, 115, 10]"
proof -
  define t where "t = tty_push_input [33, 10] 2 tty_boot"
  have boot: "tty_inv tty_boot" "tty_current tty_boot = []" "tty_submitted tty_boot = []"
    by (simp_all add: tty_boot_def tty_inv_def tty_current_def tty_submitted_def tty_const)
  note p = tty_push_input_spec [OF boot(1), of 2 "[33, 10]", folded t_def]
  have t: "tty_inv t" "tty_current t = []" "tty_submitted t = [33, 10]" "tty_pending t = [33, 10]"
    using p boot by (simp_all add: tty_current_def tty_pending_def) (simp_all add: tty_boot_def)
  show ?thesis
    using tty_canonical_input [OF t(1), of "[108, 120, 8, 115]" 10 8] t(2-4)
    unfolding t_def [symmetric] by (simp add: edit_char_def split: prod.splits)
qed

end
