(* ===== verification/KList.thy ===== *)
theory KList
  imports Prelude "HOL-Library.Multiset"
begin

text \<open>
  \<open>kernel/lib/list.h\<close>, \<open>list.c\<close> and \<open>queue.h\<close>: the intrusive doubly-linked circular list
  and the queue on top of it.  A node is identified by its address; the store maps an address
  to its \<open>next\<close> and \<open>prev\<close> pointers, and every operation updates the store in the order in
  which the code assigns.  \<open>dlist s h xs\<close> says that the sentinel \<open>h\<close> carries exactly the
  nodes \<open>xs\<close> in this order, with all back pointers consistent.
\<close>

type_synonym addr = nat

abbreviation NULL :: addr where
  "NULL \<equiv> 0"

record store =
  nxt :: "addr \<Rightarrow> addr"
  prv :: "addr \<Rightarrow> addr"

definition set_next :: "addr \<Rightarrow> addr \<Rightarrow> store \<Rightarrow> store" where
  "set_next p v s = s\<lparr>nxt := (nxt s)(p := v)\<rparr>"

definition set_prev :: "addr \<Rightarrow> addr \<Rightarrow> store \<Rightarrow> store" where
  "set_prev p v s = s\<lparr>prv := (prv s)(p := v)\<rparr>"

lemmas store_defs = set_next_def set_prev_def

definition list_init :: "addr \<Rightarrow> store \<Rightarrow> store" where
  "list_init n s = set_prev n n (set_next n n s)"

definition list_empty :: "addr \<Rightarrow> store \<Rightarrow> bool" where
  "list_empty head s \<longleftrightarrow> nxt s head = head"

definition list_add_between :: "addr \<Rightarrow> addr \<Rightarrow> addr \<Rightarrow> store \<Rightarrow> store" where
  "list_add_between n p q s = set_next p n (set_prev n p (set_next n q (set_prev q n s)))"

definition list_add :: "addr \<Rightarrow> addr \<Rightarrow> store \<Rightarrow> store" where
  "list_add n head s = list_add_between n head (nxt s head) s"

definition list_add_tail :: "addr \<Rightarrow> addr \<Rightarrow> store \<Rightarrow> store" where
  "list_add_tail n head s = list_add_between n (prv s head) head s"

definition list_del_between :: "addr \<Rightarrow> addr \<Rightarrow> store \<Rightarrow> store" where
  "list_del_between p q s = set_next p q (set_prev q p s)"

definition list_del :: "addr \<Rightarrow> store \<Rightarrow> store" where
  "list_del n s = set_prev n NULL (set_next n NULL (list_del_between (prv s n) (nxt s n) s))"

definition list_del_init :: "addr \<Rightarrow> store \<Rightarrow> store" where
  "list_del_init n s = list_init n (list_del_between (prv s n) (nxt s n) s)"

definition list_linked :: "addr \<Rightarrow> store \<Rightarrow> bool" where
  "list_linked n s \<longleftrightarrow> nxt s n \<noteq> n \<and> nxt s n \<noteq> NULL"

definition list_move :: "addr \<Rightarrow> addr \<Rightarrow> store \<Rightarrow> store" where
  "list_move n head s = list_add n head (list_del_between (prv s n) (nxt s n) s)"

definition list_move_tail :: "addr \<Rightarrow> addr \<Rightarrow> store \<Rightarrow> store" where
  "list_move_tail n head s = list_add_tail n head (list_del_between (prv s n) (nxt s n) s)"

definition list_is_first :: "addr \<Rightarrow> addr \<Rightarrow> store \<Rightarrow> bool" where
  "list_is_first n head s \<longleftrightarrow> prv s n = head"

definition list_is_last :: "addr \<Rightarrow> addr \<Rightarrow> store \<Rightarrow> bool" where
  "list_is_last n head s \<longleftrightarrow> nxt s n = head"

definition list_splice_init :: "addr \<Rightarrow> addr \<Rightarrow> store \<Rightarrow> store" where
  "list_splice_init src dst s =
     (if list_empty src s then s
      else
        (let first = nxt s src; last1 = prv s src;
             s = set_prev first dst s;
             s = set_next last1 (nxt s dst) s;
             s = set_prev (nxt s dst) last1 s;
             s = set_next dst first s
         in list_init src s))"

text \<open>
  The walks follow \<open>next\<close> pointers until they are back at the head.  On a corrupt list they
  may not end, so they are partial functions: \<open>None\<close> is a walk that does not return.
\<close>

partial_function (option) list_length_loop :: "addr \<Rightarrow> addr \<Rightarrow> nat \<Rightarrow> store \<Rightarrow> nat option" where
  "list_length_loop head p n s =
     (if p = head then Some n else list_length_loop head (nxt s p) (Suc n) s)"

definition list_length :: "addr \<Rightarrow> store \<Rightarrow> nat option" where
  "list_length head s = list_length_loop head (nxt s head) 0 s"

partial_function (option) list_contains_loop :: "addr \<Rightarrow> addr \<Rightarrow> addr \<Rightarrow> store \<Rightarrow> bool option" where
  "list_contains_loop head n p s =
     (if p = head then Some False else if p = n then Some True else list_contains_loop head n (nxt s p) s)"

definition list_contains :: "addr \<Rightarrow> addr \<Rightarrow> store \<Rightarrow> bool option" where
  "list_contains head n s = list_contains_loop head n (nxt s head) s"

function list_validate_loop :: "addr \<Rightarrow> addr \<Rightarrow> nat \<Rightarrow> store \<Rightarrow> bool" where
  "list_validate_loop head p guard s =
     (if prv s (nxt s p) \<noteq> p then False
      else if nxt s (prv s p) \<noteq> p then False
      else
        (let p = nxt s p; guard = Suc guard in
         if guard > 0x1000000 then False
         else if p \<noteq> head then list_validate_loop head p guard s
         else True))"
  by pat_completeness auto
termination
  by (relation "measure (\<lambda>(head, p, guard, s). 0x1000000 - guard)") auto

declare list_validate_loop.simps [simp del]

definition list_validate :: "addr \<Rightarrow> store \<Rightarrow> bool" where
  "list_validate head s = list_validate_loop head head 0 s"

text \<open>\<open>list_sort\<close>: the inner search for the insertion point and the outer loop over the old chain.\<close>

partial_function (option) sort_pos_loop ::
    "(addr \<Rightarrow> addr \<Rightarrow> int) \<Rightarrow> addr \<Rightarrow> addr \<Rightarrow> addr \<Rightarrow> store \<Rightarrow> addr option" where
  "sort_pos_loop cmp sorted1 node pos s =
     (if pos \<noteq> sorted1 \<and> cmp pos node \<le> 0 then sort_pos_loop cmp sorted1 node (nxt s pos) s else Some pos)"

partial_function (option) sort_outer_loop ::
    "(addr \<Rightarrow> addr \<Rightarrow> int) \<Rightarrow> addr \<Rightarrow> addr \<Rightarrow> addr \<Rightarrow> store \<Rightarrow> store option" where
  "sort_outer_loop cmp head sorted1 node s =
     (if node = head then Some s
      else
        Option.bind (sort_pos_loop cmp sorted1 node (nxt s sorted1) s)
          (\<lambda>pos. sort_outer_loop cmp head sorted1 (nxt s node) (list_add_between node (prv s pos) pos s)))"

text \<open>\<open>sorted1\<close> is the address of the stack variable \<open>sorted\<close>.\<close>

definition list_sort :: "(addr \<Rightarrow> addr \<Rightarrow> int) \<Rightarrow> addr \<Rightarrow> addr \<Rightarrow> store \<Rightarrow> store option" where
  "list_sort cmp sorted1 head s =
     (if list_empty head s \<or> nxt s (nxt s head) = head then Some s
      else
        (let s = list_init sorted1 s; node = nxt s head; s = list_init head s in
         map_option (list_splice_init sorted1 head) (sort_outer_loop cmp head sorted1 node s)))"

record queue =
  q_head :: addr
  q_length :: u64

definition queue_init :: "queue \<Rightarrow> store \<Rightarrow> queue \<times> store" where
  "queue_init q s = (q\<lparr>q_length := 0\<rparr>, list_init (q_head q) s)"

definition queue_empty :: "queue \<Rightarrow> bool" where
  "queue_empty q \<longleftrightarrow> q_length q = 0"

definition queue_length :: "queue \<Rightarrow> u64" where
  "queue_length q = q_length q"

definition queue_enqueue :: "queue \<Rightarrow> addr \<Rightarrow> store \<Rightarrow> queue \<times> store" where
  "queue_enqueue q n s = (q\<lparr>q_length := q_length q + 1\<rparr>, list_add_tail n (q_head q) s)"

definition queue_push_front :: "queue \<Rightarrow> addr \<Rightarrow> store \<Rightarrow> queue \<times> store" where
  "queue_push_front q n s = (q\<lparr>q_length := q_length q + 1\<rparr>, list_add n (q_head q) s)"

definition queue_dequeue :: "queue \<Rightarrow> store \<Rightarrow> addr \<times> queue \<times> store" where
  "queue_dequeue q s =
     (if queue_empty q then (NULL, q, s)
      else (let n = nxt s (q_head q) in (n, q\<lparr>q_length := q_length q - 1\<rparr>, list_del_init n s)))"

definition queue_peek :: "queue \<Rightarrow> store \<Rightarrow> addr" where
  "queue_peek q s = (if queue_empty q then NULL else nxt s (q_head q))"

definition queue_remove :: "queue \<Rightarrow> addr \<Rightarrow> store \<Rightarrow> queue \<times> store" where
  "queue_remove q n s =
     (if q_length q \<noteq> 0 then q\<lparr>q_length := q_length q - 1\<rparr> else q, list_del_init n s)"


subsection \<open>Linked segments\<close>

fun links :: "store \<Rightarrow> addr \<Rightarrow> addr list \<Rightarrow> addr \<Rightarrow> bool" where
  "links s a [] b \<longleftrightarrow> nxt s a = b \<and> prv s b = a"
| "links s a (x # xs) b \<longleftrightarrow> nxt s a = x \<and> prv s x = a \<and> links s x xs b"

definition dlist :: "store \<Rightarrow> addr \<Rightarrow> addr list \<Rightarrow> bool" where
  "dlist s h xs \<longleftrightarrow> links s h xs h \<and> distinct (h # xs)"

definition queue_rep :: "store \<Rightarrow> queue \<Rightarrow> addr list \<Rightarrow> bool" where
  "queue_rep s q xs \<longleftrightarrow> dlist s (q_head q) xs \<and> unat (q_length q) = length xs"

lemma links_append [simp]: "links s a (xs @ y # ys) b \<longleftrightarrow> links s a xs y \<and> links s y ys b"
  by (induction xs arbitrary: a) auto

lemma links_cong:
  assumes "\<And>x. x \<in> set (a # xs) \<Longrightarrow> nxt t x = nxt s x" "\<And>x. x \<in> set (xs @ [b]) \<Longrightarrow> prv t x = prv s x"
  shows "links t a xs b = links s a xs b"
  using assms by (induction xs arbitrary: a) simp_all

lemma links_first: "links s a xs b \<Longrightarrow> nxt s a = hd (xs @ [b])" "links s a xs b \<Longrightarrow> prv s (hd (xs @ [b])) = a"
  by (cases xs; simp)+

lemma links_last: "links s a xs b \<Longrightarrow> prv s b = last (a # xs) \<and> nxt s (last (a # xs)) = b"
  by (induction xs arbitrary: a) simp_all

lemma dlist_empty_iff: "dlist s h xs \<Longrightarrow> list_empty h s \<longleftrightarrow> xs = []"
  by (cases xs) (auto simp: dlist_def list_empty_def)

lemma dlist_init [simp]: "dlist (list_init h s) h []"
  by (simp add: dlist_def list_init_def store_defs)

lemma dlist_frame:
  assumes "dlist s h xs" "\<And>x. x \<in> set (h # xs) \<Longrightarrow> nxt t x = nxt s x \<and> prv t x = prv s x"
  shows "dlist t h xs"
  using assms links_cong [of h xs t s h] by (auto simp: dlist_def)

text \<open>Only the node and its two neighbours are touched.\<close>

lemma list_add_between_frame:
  "x \<noteq> n \<Longrightarrow> x \<noteq> p \<Longrightarrow> nxt (list_add_between n p q s) x = nxt s x"
  "x \<noteq> n \<Longrightarrow> x \<noteq> q \<Longrightarrow> prv (list_add_between n p q s) x = prv s x"
  by (auto simp: list_add_between_def store_defs)

lemma links_split_frame:
  assumes "links s a xs b" "distinct (a # xs)"
    and "\<And>x. x \<in> set (a # xs) \<Longrightarrow> x \<noteq> last (a # xs) \<Longrightarrow> nxt t x = nxt s x"
    and "\<And>x. x \<in> set xs \<Longrightarrow> prv t x = prv s x"
    and "nxt t (last (a # xs)) = b'" "prv t b' = last (a # xs)"
  shows "links t a xs b'"
  using assms
proof (induction xs arbitrary: a)
  case Nil
  then show ?case by simp
next
  case (Cons x xs)
  have "a \<noteq> last (x # xs)" using Cons.prems(2) by (metis distinct.simps(2) last_in_set list.discI)
  then have "nxt t a = x" using Cons.prems(1) Cons.prems(3) [of a] by auto
  moreover have "prv t x = a" using Cons.prems(1) Cons.prems(4) [of x] by auto
  moreover have "links t x xs b'"
    using Cons.prems by (intro Cons.IH) auto
  ultimately show ?case by simp
qed

lemma links_cut:
  "links s a (xs @ ys) b \<longleftrightarrow> links s a xs (hd (ys @ [b])) \<and> (ys \<noteq> [] \<longrightarrow> links s (hd ys) (tl ys) b)"
  by (cases ys) auto

lemma last_in_Cons: "last (h # xs) \<in> set (h # xs)"
  by (rule last_in_set) simp

lemma list_add_between_dlist:
  assumes "dlist s h (xs @ ys)" "n \<notin> set (h # xs @ ys)" "p = last (h # xs)" "q = hd (ys @ [h])"
  shows "dlist (list_add_between n p q s) h (xs @ n # ys)"
proof -
  let ?t = "list_add_between n p q s"
  have d: "distinct (h # xs)" "distinct (h # ys)" "set (h # xs) \<inter> set ys = {}"
    and l: "links s h xs q" "ys \<noteq> [] \<Longrightarrow> links s (hd ys) (tl ys) h"
    using assms(1,4) by (auto simp: dlist_def links_cut)
  have p: "p \<in> set (h # xs)" "p \<noteq> n" "q \<in> set (h # ys)" "q \<noteq> n" "q \<notin> set xs"
    using assms(2,3,4) d last_in_Cons [of h xs] by (cases ys; force)+
  have upd: "nxt ?t p = n" "prv ?t n = p" "nxt ?t n = q" "prv ?t q = n"
    using p by (simp_all add: list_add_between_def store_defs)
  have "links ?t h xs n"
  proof (rule links_split_frame [OF l(1) d(1)])
    show "nxt ?t x = nxt s x" if "x \<in> set (h # xs)" "x \<noteq> last (h # xs)" for x
      using that assms(2,3) by (intro list_add_between_frame) auto
    show "prv ?t x = prv s x" if "x \<in> set xs" for x
      using that assms(2) p(5) by (intro list_add_between_frame) auto
  qed (use upd assms(3) in simp_all)
  moreover have "links ?t n ys h"
  proof (cases ys)
    case Nil
    then show ?thesis using upd assms(4) by simp
  next
    case (Cons y zs)
    have "links ?t y zs h = links s y zs h"
      using assms(2,4) d p Cons by (intro links_cong list_add_between_frame) auto
    then show ?thesis using Cons upd assms(4) l(2) by simp
  qed
  ultimately show ?thesis using assms(1,2) by (auto simp: dlist_def)
qed

lemma list_del_between_dlist:
  assumes "dlist s h (xs @ n # ys)"
  shows "dlist (list_del_between (prv s n) (nxt s n) s) h (xs @ ys)"
proof -
  let ?p = "last (h # xs)" and ?q = "hd (ys @ [h])"
  let ?t = "list_del_between ?p ?q s"
  have d: "distinct (h # xs)" "distinct (h # ys)" "set (h # xs) \<inter> set ys = {}" "n \<notin> set (h # xs @ ys)"
    and l: "links s h xs n" "links s n ys h"
    using assms by (auto simp: dlist_def)
  have pq: "prv s n = ?p" "nxt s n = ?q" using links_last [OF l(1)] links_first(1) [OF l(2)] by simp_all
  have p: "?p \<in> set (h # xs)" "?q \<in> set (h # ys)" "?q \<notin> set xs"
    using d last_in_Cons [of h xs] by (cases ys; force)+
  have upd: "nxt ?t ?p = ?q" "prv ?t ?q = ?p"
    "\<And>x. x \<noteq> ?p \<Longrightarrow> nxt ?t x = nxt s x" "\<And>x. x \<noteq> ?q \<Longrightarrow> prv ?t x = prv s x"
    by (simp_all add: list_del_between_def store_defs)
  have "links ?t h xs ?q"
  proof (rule links_split_frame [OF l(1) d(1)])
    show "prv ?t x = prv s x" if "x \<in> set xs" for x
      using that p(3) by (intro upd) auto
  qed (rule upd; assumption)+
  moreover have "links ?t (hd ys) (tl ys) h" if ne: "ys \<noteq> []"
  proof -
    obtain y zs where Cons: "ys = y # zs" using ne by (cases ys) auto
    have "links ?t y zs h = links s y zs h"
      using d p Cons by (intro links_cong upd) auto
    then show ?thesis using Cons l(2) by simp
  qed
  ultimately show ?thesis using assms pq by (auto simp: dlist_def links_cut)
qed

lemma list_add_dlist:
  "dlist s h xs \<Longrightarrow> n \<notin> set (h # xs) \<Longrightarrow> dlist (list_add n h s) h (n # xs)"
  using list_add_between_dlist [of s h "[]" xs n] links_first(1) [of s h xs h]
  by (simp add: list_add_def dlist_def)

lemma list_add_tail_dlist:
  "dlist s h xs \<Longrightarrow> n \<notin> set (h # xs) \<Longrightarrow> dlist (list_add_tail n h s) h (xs @ [n])"
  using list_add_between_dlist [of s h xs "[]" n] links_last [of s h xs h]
  by (simp add: list_add_tail_def dlist_def)

lemma list_del_dlist:
  assumes "dlist s h (xs @ n # ys)"
  shows "dlist (list_del n s) h (xs @ ys)" "dlist (list_del_init n s) h (xs @ ys)" "dlist (list_del_init n s) n []"
proof -
  have n: "n \<notin> set (h # xs @ ys)" using assms by (auto simp: dlist_def)
  note d = list_del_between_dlist [OF assms]
  show "dlist (list_del n s) h (xs @ ys)" "dlist (list_del_init n s) h (xs @ ys)"
    using n by (auto intro!: dlist_frame [OF d] simp: list_del_def list_del_init_def list_init_def store_defs)
  show "dlist (list_del_init n s) n []" by (simp add: list_del_init_def)
qed

lemma list_move_dlist:
  assumes "dlist s h (xs @ n # ys)"
  shows "dlist (list_move n h s) h (n # xs @ ys)" "dlist (list_move_tail n h s) h (xs @ ys @ [n])"
proof -
  have n: "n \<notin> set (h # xs @ ys)" using assms by (auto simp: dlist_def)
  show "dlist (list_move n h s) h (n # xs @ ys)" "dlist (list_move_tail n h s) h (xs @ ys @ [n])"
    using list_add_dlist [OF list_del_between_dlist [OF assms] n]
      list_add_tail_dlist [OF list_del_between_dlist [OF assms] n]
    by (simp_all add: list_move_def list_move_tail_def)
qed

lemma list_splice_init_dlist:
  assumes "dlist s a xs" "dlist s b ys" "set (a # xs) \<inter> set (b # ys) = {}"
  shows "dlist (list_splice_init a b s) b (xs @ ys)" "dlist (list_splice_init a b s) a []"
proof -
  let ?t = "list_splice_init a b s"
  show "dlist ?t b (xs @ ys)"
  proof (cases xs)
    case Nil
    then show ?thesis using assms dlist_empty_iff [OF assms(1)] by (simp add: list_splice_init_def)
  next
    case (Cons x zs)
    define l where "l = last xs"
    define q where "q = hd (ys @ [b])"
    have ne: "\<not> list_empty a s" using dlist_empty_iff [OF assms(1)] Cons by simp
    have la: "links s x zs a" "distinct (x # zs)" "nxt s a = x" "prv s a = l" "l \<in> set xs"
      using assms(1) Cons links_last [of s a xs a] by (auto simp: dlist_def l_def)
    have lb: "nxt s b = q" "distinct (b # ys)" "q \<in> set (b # ys)" "ys \<noteq> [] \<Longrightarrow> links s (hd ys) (tl ys) b" "q \<notin> set xs"
      using assms(2,3) links_first(1) [of s b ys b] by (cases ys; auto simp: dlist_def q_def)+
    have dn: "a \<noteq> b" "x \<noteq> a" "x \<noteq> b" "l \<noteq> a" "l \<noteq> b" "q \<noteq> a" "q \<noteq> x"
      using la lb assms(1,3) Cons by (auto simp: dlist_def)
    have t: "?t = list_init a (set_next b x (set_prev q l (set_next l q (set_prev x b s))))"
      using ne la(3,4) lb(1) dn by (simp add: list_splice_init_def Let_def) (simp add: store_defs)
    have upd: "nxt ?t b = x" "prv ?t x = b" "nxt ?t l = q" "prv ?t q = l"
      "\<And>y. y \<noteq> a \<Longrightarrow> y \<noteq> b \<Longrightarrow> y \<noteq> l \<Longrightarrow> nxt ?t y = nxt s y"
      "\<And>y. y \<noteq> a \<Longrightarrow> y \<noteq> x \<Longrightarrow> y \<noteq> q \<Longrightarrow> prv ?t y = prv s y"
      unfolding t using dn by (simp_all add: list_init_def store_defs)
    have "links ?t x zs q"
    proof (rule links_split_frame [OF la(1,2)])
      show "nxt ?t y = nxt s y" if "y \<in> set (x # zs)" "y \<noteq> last (x # zs)" for y
        using that Cons assms(1,3) by (intro upd) (auto simp: dlist_def l_def)
      show "prv ?t y = prv s y" if "y \<in> set zs" for y
        using that Cons assms(1,3) lb(5) by (intro upd) (auto simp: dlist_def)
    qed (use upd(3,4) Cons in \<open>simp_all add: l_def\<close>)
    moreover have "links ?t (hd ys) (tl ys) b" if nonempty: "ys \<noteq> []"
    proof -
      obtain y ws where ys: "ys = y # ws" using nonempty by (cases ys) auto
      have "links ?t y ws b = links s y ws b"
        using ys lb(2,5) la(5) assms(2,3) Cons by (intro links_cong upd(5,6)) (auto simp: q_def)
      then show ?thesis using ys lb(4) by simp
    qed
    moreover have "distinct (b # xs @ ys)" using assms by (auto simp: dlist_def)
    ultimately show ?thesis using Cons upd(1,2) by (simp add: dlist_def links_cut [of _ x zs ys b] q_def)
  qed
  show "dlist ?t a []"
    using assms(1) dlist_empty_iff [OF assms(1)] by (auto simp: list_splice_init_def Let_def)
qed


subsection \<open>Walks\<close>

lemma list_length_loop_links:
  assumes "links s a xs h" "h \<notin> set xs"
  shows "list_length_loop h (nxt s a) c s = Some (c + length xs)"
  using assms
proof (induction xs arbitrary: a c)
  case Nil
  then show ?case by (simp add: list_length_loop.simps [of h h])
next
  case (Cons x xs)
  then show ?case by (simp add: list_length_loop.simps [of h x])
qed

lemma list_contains_loop_links:
  assumes "links s a xs h" "h \<notin> set xs"
  shows "list_contains_loop h n (nxt s a) s = Some (n \<in> set xs)"
  using assms
proof (induction xs arbitrary: a)
  case Nil
  then show ?case by (simp add: list_contains_loop.simps [of h n h])
next
  case (Cons x xs)
  then show ?case by (auto simp: list_contains_loop.simps [of h n x])
qed

lemma links_unique:
  "links s a xs h \<Longrightarrow> links s a ys h \<Longrightarrow> h \<notin> set xs \<Longrightarrow> h \<notin> set ys \<Longrightarrow> xs = ys"
proof (induction xs arbitrary: a ys)
  case Nil
  then show ?case by (cases ys) simp_all
next
  case (Cons x xs)
  then show ?case by (cases ys) simp_all
qed

lemma links_distinct:
  assumes "links s h xs h" "h \<notin> set xs"
  shows "distinct (h # xs)"
proof -
  have "distinct xs"
  proof (rule ccontr)
    assume "\<not> distinct xs"
    then obtain us x vs ws where xs: "xs = us @ [x] @ vs @ [x] @ ws" using not_distinct_decomp by blast
    then have "links s x (vs @ x # ws) h" "links s x ws h" using assms(1) by simp_all
    then have "vs @ x # ws = ws" by (rule links_unique) (use assms(2) xs in auto)
    then show False using arg_cong [of "vs @ x # ws" ws length] by simp
  qed
  then show ?thesis using assms(2) by simp
qed

lemma list_validate_loop_sound:
  assumes "list_validate_loop h p g s"
  shows "\<exists>xs. links s p xs h \<and> h \<notin> set xs \<and> length xs + g < 0x1000000"
  using assms
proof (induction h p g s rule: list_validate_loop.induct)
  case (1 h p g s)
  have v: "prv s (nxt s p) = p" "nxt s (prv s p) = p" "Suc g \<le> 0x1000000"
    using "1.prems" by (simp_all add: list_validate_loop.simps [of h p g s] Let_def split: if_splits)
  show ?case
  proof (cases "nxt s p = h")
    case True
    then show ?thesis using v by (intro exI [of _ "[]"]) simp
  next
    case False
    then have "list_validate_loop h (nxt s p) (Suc g) s"
      using "1.prems" v by (simp add: list_validate_loop.simps [of h p g s] Let_def)
    then obtain xs where "links s (nxt s p) xs h" "h \<notin> set xs" "length xs + Suc g < 0x1000000"
      using "1.IH" v False by (metis not_le)
    then show ?thesis using v False by (intro exI [of _ "nxt s p # xs"]) simp
  qed
qed

lemma list_validate_loop_complete:
  assumes "links s p xs h" "h \<notin> set xs" "nxt s (prv s p) = p" "length xs + g < 0x1000000"
  shows "list_validate_loop h p g s"
  using assms
proof (induction xs arbitrary: p g)
  case Nil
  then show ?case by (simp add: list_validate_loop.simps [of h p g s] Let_def)
next
  case (Cons x xs)
  then have "list_validate_loop h x (Suc g) s" by (intro Cons.IH) simp_all
  then show ?case using Cons.prems by (simp add: list_validate_loop.simps [of h p g s] Let_def)
qed


subsection \<open>Insertion sort\<close>

fun fwd :: "store \<Rightarrow> addr \<Rightarrow> addr list \<Rightarrow> addr \<Rightarrow> bool" where
  "fwd s p [] e \<longleftrightarrow> p = e"
| "fwd s p (x # xs) e \<longleftrightarrow> p = x \<and> fwd s (nxt s x) xs e"

lemma links_fwd: "links s a xs b \<Longrightarrow> fwd s (nxt s a) xs b"
  by (induction xs arbitrary: a) simp_all

lemma fwd_cong: "(\<And>x. x \<in> set xs \<Longrightarrow> nxt t x = nxt s x) \<Longrightarrow> fwd t p xs e = fwd s p xs e"
  by (induction xs arbitrary: p) simp_all

definition ins_after :: "(addr \<Rightarrow> addr \<Rightarrow> int) \<Rightarrow> addr \<Rightarrow> addr list \<Rightarrow> addr list" where
  "ins_after cmp x ys = takeWhile (\<lambda>y. cmp y x \<le> 0) ys @ x # dropWhile (\<lambda>y. cmp y x \<le> 0) ys"

lemma set_ins_after [simp]: "set (ins_after cmp x ys) = insert x (set ys)"
proof -
  have "set ys = set (takeWhile (\<lambda>y. cmp y x \<le> 0) ys) \<union> set (dropWhile (\<lambda>y. cmp y x \<le> 0) ys)"
    by (metis set_append takeWhile_dropWhile_id)
  then show ?thesis by (simp add: ins_after_def)
qed

lemma sort_pos_loop_links:
  assumes "links s a ys srt" "srt \<notin> set ys"
  shows "sort_pos_loop cmp srt node (nxt s a) s = Some (hd (dropWhile (\<lambda>y. cmp y node \<le> 0) ys @ [srt]))"
  using assms
proof (induction ys arbitrary: a)
  case Nil
  then show ?case by (simp add: sort_pos_loop.simps [of cmp srt node srt])
next
  case (Cons y ys)
  then show ?case by (simp add: sort_pos_loop.simps [of cmp srt node y])
qed

lemma dlist_prev_of_split:
  assumes "dlist s h (xs @ ys)"
  shows "prv s (hd (ys @ [h])) = last (h # xs)"
  using assms links_last [of s h xs "hd (ys @ [h])"] by (simp add: dlist_def links_cut)

lemma sort_outer_loop_spec:
  assumes "dlist s srt ys" "fwd s node rest h" "distinct rest" "h \<notin> set (srt # ys @ rest)" "set (srt # ys) \<inter> set rest = {}"
  shows "\<exists>t. sort_outer_loop cmp h srt node s = Some t \<and> dlist t srt (fold (ins_after cmp) rest ys) \<and>
     nxt t h = nxt s h \<and> prv t h = prv s h"
  using assms
proof (induction rest arbitrary: s node ys)
  case Nil
  then show ?case by (simp add: sort_outer_loop.simps [of cmp h srt h])
next
  case (Cons x rest)
  let ?P = "\<lambda>y. cmp y x \<le> 0"
  let ?us = "takeWhile ?P ys" and ?vs = "dropWhile ?P ys"
  let ?pos = "hd (?vs @ [srt])" and ?p = "last (srt # ?us)"
  have node: "node = x" "x \<noteq> h" using Cons.prems(2,4) by auto
  have pos: "sort_pos_loop cmp srt x (nxt s srt) s = Some ?pos"
    using Cons.prems(1) by (intro sort_pos_loop_links) (auto simp: dlist_def)
  have prev: "prv s ?pos = ?p" using dlist_prev_of_split [of s srt ?us ?vs] Cons.prems(1) by simp
  let ?t = "list_add_between x ?p ?pos s"
  have split: "dlist s srt (?us @ ?vs)" "x \<notin> set (srt # ?us @ ?vs)"
    using Cons.prems(1,5) by simp_all
  have d: "dlist ?t srt (ins_after cmp x ys)"
    using list_add_between_dlist [OF split refl refl] by (simp add: ins_after_def)
  have in_ys: "?p \<in> set (srt # ys)" "?pos \<in> set (srt # ys)"
    using last_in_Cons [of srt ?us] set_takeWhileD [of _ ?P ys] hd_in_set [of "?vs @ [srt]"] set_dropWhileD [of _ ?P ys]
    by auto
  have h: "nxt ?t h = nxt s h" "prv ?t h = prv s h"
    using in_ys node Cons.prems(4) by (auto intro!: list_add_between_frame)
  have "nxt ?t y = nxt s y" if "y \<in> set rest" for y
    using that Cons.prems(3,5) in_ys by (intro list_add_between_frame) auto
  then have "fwd ?t (nxt s x) rest h = fwd s (nxt s x) rest h" by (rule fwd_cong)
  moreover have "fwd s (nxt s x) rest h" using Cons.prems(2) by simp
  moreover have "set (srt # ins_after cmp x ys) \<inter> set rest = {}" "h \<notin> set (srt # ins_after cmp x ys @ rest)"
    using Cons.prems(3-5) node by auto
  ultimately obtain t where "sort_outer_loop cmp h srt (nxt s x) ?t = Some t" "nxt t h = nxt ?t h" "prv t h = prv ?t h"
    "dlist t srt (fold (ins_after cmp) rest (ins_after cmp x ys))"
    using Cons.IH [OF d] Cons.prems(3) by auto
  then show ?case
    using node pos prev h by (simp add: sort_outer_loop.simps [of cmp h srt x])
qed

lemma mset_ins_after: "mset (ins_after cmp x ys) = add_mset x (mset ys)"
proof -
  have "mset (takeWhile P ys) + mset (dropWhile P ys) = mset ys" for P
    by (metis mset_append takeWhile_dropWhile_id)
  then show ?thesis by (simp add: ins_after_def)
qed

lemma sorted_ins_after:
  assumes cmp: "\<And>a b. cmp a b \<le> 0 \<longleftrightarrow> key a \<le> (key b :: 'k::linorder)" and "sorted (map key ys)"
  shows "sorted (map key (ins_after cmp x ys))"
    and "filter (\<lambda>y. k = key y) (ins_after cmp x ys) = filter (\<lambda>y. k = key y) ys @ filter (\<lambda>y. k = key y) [x]"
proof -
  let ?P = "\<lambda>y. cmp y x \<le> 0"
  have gt: "key x < key y" if "y \<in> set (dropWhile ?P ys)" for y
  proof -
    obtain z zs where z: "dropWhile ?P ys = z # zs" using \<open>y \<in> set (dropWhile ?P ys)\<close> by (cases "dropWhile ?P ys") auto
    have "\<not> ?P z" using hd_dropWhile [of ?P ys] z by simp
    then have "key x < key z" using cmp by (simp add: not_le)
    moreover have "sorted (map key (z # zs))"
      using assms(2) sorted_append [of "map key (takeWhile ?P ys)" "map key (dropWhile ?P ys)"] z
      by (metis map_append takeWhile_dropWhile_id)
    ultimately show ?thesis using \<open>y \<in> set (dropWhile ?P ys)\<close> z by (auto intro: less_le_trans)
  qed
  have le: "key y \<le> key x" if "y \<in> set (takeWhile ?P ys)" for y
    using set_takeWhileD [OF that] cmp by simp
  have parts: "sorted (map key (takeWhile ?P ys))" "sorted (map key (dropWhile ?P ys))"
    using assms(2) sorted_append [of "map key (takeWhile ?P ys)" "map key (dropWhile ?P ys)"]
    by (metis map_append takeWhile_dropWhile_id)+
  show "sorted (map key (ins_after cmp x ys))"
    using parts gt le by (force simp: ins_after_def sorted_append)
  have "filter (\<lambda>y. k = key y) (x # dropWhile ?P ys) = filter (\<lambda>y. k = key y) (dropWhile ?P ys) @ filter (\<lambda>y. k = key y) [x]"
  proof (cases "k = key x")
    case True
    then have "filter (\<lambda>y. k = key y) (dropWhile ?P ys) = []" using gt by (fastforce simp: filter_empty_conv)
    then show ?thesis using True by simp
  qed simp
  then show "filter (\<lambda>y. k = key y) (ins_after cmp x ys) = filter (\<lambda>y. k = key y) ys @ filter (\<lambda>y. k = key y) [x]"
    unfolding ins_after_def filter_append by (metis append.assoc filter_append takeWhile_dropWhile_id)
qed

lemma fold_ins_after:
  assumes cmp: "\<And>a b. cmp a b \<le> 0 \<longleftrightarrow> key a \<le> (key b :: 'k::linorder)" and "sorted (map key ys)"
  shows "sorted (map key (fold (ins_after cmp) xs ys)) \<and> mset (fold (ins_after cmp) xs ys) = mset xs + mset ys \<and>
     filter (\<lambda>y. k = key y) (fold (ins_after cmp) xs ys) = filter (\<lambda>y. k = key y) ys @ filter (\<lambda>y. k = key y) xs"
  using assms(2)
proof (induction xs arbitrary: ys)
  case Nil
  then show ?case by simp
next
  case (Cons x xs)
  note s = sorted_ins_after [OF cmp Cons.prems, where x = x]
  show ?case using Cons.IH [OF s(1)] s(2) mset_ins_after [of cmp x ys] by simp
qed

lemma fold_ins_after_sort_key:
  assumes "\<And>a b. cmp a b \<le> 0 \<longleftrightarrow> key a \<le> (key b :: 'k::linorder)"
  shows "fold (ins_after cmp) xs [] = sort_key key xs"
proof -
  have f: "sorted (map key (fold (ins_after cmp) xs []))" "mset (fold (ins_after cmp) xs []) = mset xs"
    "filter (\<lambda>y. k = key y) (fold (ins_after cmp) xs []) = filter (\<lambda>y. k = key y) xs" for k
    using fold_ins_after [where key = key and cmp = cmp and ys = "[]" and xs = xs and k = k] assms by simp_all
  show ?thesis
    by (rule properties_for_sort_key [symmetric]) (simp_all add: f)
qed


subsection \<open>Properties\<close>

text \<open>
  C13. \<open>list_sort\<close> terminates on every well-formed list and leaves the same nodes, linked
  consistently, in the order of the stable sort by the key the comparator compares.  The
  stack node \<open>sorted\<close> must not be one of the list's nodes.
\<close>

theorem list_sort_correct:
  fixes key :: "addr \<Rightarrow> 'k::linorder"
  assumes "dlist s h xs" "srt \<notin> set (h # xs)" "\<And>a b. cmp a b \<le> 0 \<longleftrightarrow> key a \<le> key b"
  shows "\<exists>t. list_sort cmp srt h s = Some t \<and> dlist t h (sort_key key xs)"
proof (cases "list_empty h s \<or> nxt s (nxt s h) = h")
  case True
  then have "xs = [] \<or> (\<exists>x. xs = [x])"
    using assms(1) by (cases xs rule: remdups_adj.cases) (auto simp: dlist_def list_empty_def)
  then have "sort_key key xs = xs" by auto
  then show ?thesis using True assms(1) by (simp add: list_sort_def)
next
  case False
  let ?s1 = "list_init srt s"
  let ?s2 = "list_init h ?s1"
  have "dlist ?s2 srt []" "nxt ?s2 h = h" "prv ?s2 h = h"
    using assms(2) by (auto simp: dlist_def list_init_def store_defs)
  moreover have "fwd ?s2 (nxt ?s1 h) xs h"
  proof -
    have "fwd s (nxt s h) xs h" using assms(1) by (auto simp: dlist_def intro: links_fwd)
    moreover have "nxt ?s2 x = nxt s x" if "x \<in> set xs" for x
      using that assms(1,2) by (auto simp: dlist_def list_init_def store_defs)
    then have "fwd ?s2 (nxt s h) xs h = fwd s (nxt s h) xs h" by (rule fwd_cong)
    moreover have "nxt ?s1 h = nxt s h" using assms(2) by (auto simp: list_init_def store_defs)
    ultimately show ?thesis by simp
  qed
  ultimately obtain t where t: "sort_outer_loop cmp h srt (nxt ?s1 h) ?s2 = Some t"
    "dlist t srt (fold (ins_after cmp) xs [])" "nxt t h = h" "prv t h = h"
    using sort_outer_loop_spec [of ?s2 srt "[]" "nxt ?s1 h" xs h cmp] assms(1,2) by (auto simp: dlist_def)
  have eq: "fold (ins_after cmp) xs [] = sort_key key xs"
    by (rule fold_ins_after_sort_key [OF assms(3)])
  have "dlist (list_splice_init srt h t) h (sort_key key xs @ [])"
    using t assms(1,2) by (intro list_splice_init_dlist) (auto simp: dlist_def eq)
  moreover have "list_sort cmp srt h s = Some (list_splice_init srt h t)"
    using False t(1) by (simp add: list_sort_def Let_def)
  ultimately show ?thesis by simp
qed

text \<open>
  \<open>list_validate\<close> accepts exactly the well-formed lists of fewer than \<open>2^24\<close> nodes: the
  forward walk with its back-pointer checks returns 1 if and only if some sequence of distinct
  nodes is linked consistently in both directions around the head.  It always terminates.
\<close>

theorem list_validate_iff: "list_validate h s \<longleftrightarrow> (\<exists>xs. dlist s h xs \<and> length xs < 2 ^ 24)"
proof
  assume "list_validate h s"
  then obtain xs where "links s h xs h" "h \<notin> set xs" "length xs < 0x1000000"
    using list_validate_loop_sound [of h h 0 s] by (auto simp: list_validate_def)
  then show "\<exists>xs. dlist s h xs \<and> length xs < 2 ^ 24"
    using links_distinct [of s h xs] by (auto simp: dlist_def)
next
  assume "\<exists>xs. dlist s h xs \<and> length xs < 2 ^ 24"
  then obtain xs where xs: "dlist s h xs" "length xs < 2 ^ 24" by blast
  then show "list_validate h s"
    using links_last [of s h xs h] unfolding list_validate_def
    by (intro list_validate_loop_complete [of s h xs h 0]) (auto simp: dlist_def)
qed

definition example_store :: store where
  "example_store = list_add_tail 9 1 (list_add_tail 4 1 (list_add_tail 7 1 (list_init 1 \<lparr>nxt = id, prv = id\<rparr>)))"

lemma example_dlist: "dlist example_store 1 [7, 4, 9]"
  using list_add_tail_dlist [OF list_add_tail_dlist [OF list_add_tail_dlist [OF dlist_init]], of 7 1 4 9]
  by (simp add: example_store_def)

theorem list_sort_correct_witness:
  "\<exists>t. list_sort (\<lambda>a b. int a - int b) 100 1 example_store = Some t \<and> dlist t 1 [4, 7, 9]"
  using list_sort_correct [OF example_dlist, of 100 "\<lambda>a b. int a - int b" "\<lambda>a. a"] by simp

text \<open>
  The queue operations.  If a queue holds the nodes \<open>xs\<close>, enqueueing a fresh node appends it
  and pushing it to the front prepends it; dequeueing returns \<open>NULL\<close> and changes nothing on an
  empty queue and otherwise unlinks and returns the oldest node; peeking returns the oldest
  node; removing a node of the queue takes exactly that node out.  The length field counts the
  nodes as long as the count fits in 64 bits.
\<close>

theorem queue_operations:
  assumes "queue_rep s q xs"
  shows "(n \<notin> set (q_head q # xs) \<and> Suc (length xs) < 2 ^ 64 \<longrightarrow>
       (case queue_enqueue q n s of (q', s') \<Rightarrow> queue_rep s' q' (xs @ [n])) \<and>
       (case queue_push_front q n s of (q', s') \<Rightarrow> queue_rep s' q' (n # xs))) \<and>
     (case queue_dequeue q s of (m, q', s') \<Rightarrow>
        (case xs of [] \<Rightarrow> m = NULL \<and> q' = q \<and> s' = s
         | y # ys \<Rightarrow> m = y \<and> queue_peek q s = y \<and> queue_rep s' q' ys \<and> dlist s' y [])) \<and>
     (xs = us @ n # vs \<longrightarrow> (case queue_remove q n s of (q', s') \<Rightarrow> queue_rep s' q' (us @ vs)))"
proof -
  let ?h = "q_head q"
  have d: "dlist s ?h xs" and len: "unat (q_length q) = length xs" using assms by (simp_all add: queue_rep_def)
  have inc: "unat (q_length q + 1) = Suc (length xs)" if "Suc (length xs) < 2 ^ 64"
    using unat_plus_no_wrap [of "q_length q" 1] len that by simp
  have zero: "q_length q = 0 \<longleftrightarrow> xs = []" using len by (metis length_0_conv unat_eq_zero)
  have dec: "unat (q_length q - 1) = length xs - 1" if "xs \<noteq> []" using unat_dec [of "q_length q"] len zero that by simp
  have "case queue_dequeue q s of (m, q', s') \<Rightarrow>
        (case xs of [] \<Rightarrow> m = NULL \<and> q' = q \<and> s' = s
         | y # ys \<Rightarrow> m = y \<and> queue_peek q s = y \<and> queue_rep s' q' ys \<and> dlist s' y [])"
  proof (cases xs)
    case Nil
    then show ?thesis using zero by (simp add: queue_dequeue_def queue_empty_def)
  next
    case (Cons y ys)
    have "nxt s ?h = y" using d Cons by (simp add: dlist_def)
    then show ?thesis
      using Cons d zero dec list_del_dlist(2,3) [of s ?h "[]" y ys]
      by (simp add: queue_dequeue_def queue_empty_def queue_peek_def Let_def queue_rep_def)
  qed
  moreover have "case queue_remove q n s of (q', s') \<Rightarrow> queue_rep s' q' (us @ vs)" if "xs = us @ n # vs"
    using that d zero dec list_del_dlist(2) [of s ?h us n vs] by (simp add: queue_remove_def queue_rep_def)
  ultimately show ?thesis
    using list_add_tail_dlist [OF d, of n] list_add_dlist [OF d, of n] inc
    by (simp add: queue_enqueue_def queue_push_front_def queue_rep_def)
qed

theorem queue_operations_witness:
  "fst (queue_dequeue \<lparr>q_head = 1, q_length = 3\<rparr> example_store) = 7"
  using queue_operations [of example_store "\<lparr>q_head = 1, q_length = 3\<rparr>" "[7, 4, 9]" 0 "[]" "[]"] example_dlist
  by (auto simp: queue_rep_def split: prod.splits)

end
