(* ===== verification/Map_Store.thy ===== *)
theory Map_Store
  imports Prelude
begin

text \<open>
  The contract of an index from 64-bit keys to values, which the chained hash table and the
  radix tree both fulfil and the caches of the file system rely on.  \<open>get\<close> is the lookup,
  \<open>put\<close> a successful insertion, \<open>del\<close> a removal; \<open>ok\<close> tells which keys the index accepts.
  The map an index stands for is its lookup function.  The locale derives the algebra of
  insertions and removals and that the stored counter is the number of keys.
\<close>

locale map_store =
  fixes get :: "'s \<Rightarrow> 'k \<Rightarrow> 'v option"
    and put :: "'s \<Rightarrow> 'k \<Rightarrow> 'v \<Rightarrow> 's"
    and del :: "'s \<Rightarrow> 'k \<Rightarrow> 's"
    and ok :: "'k \<Rightarrow> bool"
    and entries :: "'s \<Rightarrow> nat"
    and inv :: "'s \<Rightarrow> bool"
  assumes inv_put: "inv s \<Longrightarrow> ok k \<Longrightarrow> inv (put s k v)"
    and inv_del: "inv s \<Longrightarrow> inv (del s k)"
    and get_put: "inv s \<Longrightarrow> ok k \<Longrightarrow> get (put s k v) = (get s)(k \<mapsto> v)"
    and get_del: "inv s \<Longrightarrow> get (del s k) = (get s)(k := None)"
    and finite_dom: "inv s \<Longrightarrow> finite (dom (get s))"
    and entries_dom: "inv s \<Longrightarrow> entries s = card (dom (get s))"
begin

lemma entries_put:
  "inv s \<Longrightarrow> ok k \<Longrightarrow> entries (put s k v) = (if get s k = None then Suc (entries s) else entries s)"
  using finite_dom [of s] by (auto simp: entries_dom inv_put get_put card_insert_if domIff)

lemma entries_del:
  "inv s \<Longrightarrow> entries (del s k) = (if get s k = None then entries s else entries s - 1)"
  using finite_dom [of s] by (auto simp: entries_dom inv_del get_del domIff)

lemma put_overwrites: "inv s \<Longrightarrow> ok k \<Longrightarrow> get (put (put s k v) k w) = get (put s k w)"
  by (simp add: get_put inv_put)

lemma put_commutes:
  "inv s \<Longrightarrow> ok k \<Longrightarrow> ok l \<Longrightarrow> k \<noteq> l \<Longrightarrow> get (put (put s k v) l w) = get (put (put s l w) k v)"
  by (simp add: get_put inv_put fun_upd_twist)

lemma del_put_fresh: "inv s \<Longrightarrow> ok k \<Longrightarrow> get s k = None \<Longrightarrow> get (del (put s k v) k) = get s"
  by (simp add: get_put get_del inv_put fun_upd_idem_iff)

text \<open>An index filled from a list of entries looks up the last entry for each key.\<close>

lemma fill:
  assumes "inv s" "\<And>k v. (k, v) \<in> set kvs \<Longrightarrow> ok k"
  shows "inv (fold (\<lambda>(k, v) s. put s k v) kvs s) \<and> get (fold (\<lambda>(k, v) s. put s k v) kvs s) = get s ++ map_of (rev kvs)"
  using assms
proof (induction kvs arbitrary: s)
  case Nil
  then show ?case by simp
next
  case (Cons kv kvs)
  obtain k v where kv: "kv = (k, v)" by fastforce
  then have ok: "ok k" using Cons.prems(2) by auto
  have "inv (fold (\<lambda>(k, v) s. put s k v) kvs (put s k v)) \<and>
      get (fold (\<lambda>(k, v) s. put s k v) kvs (put s k v)) = get (put s k v) ++ map_of (rev kvs)"
    using Cons.prems ok by (intro Cons.IH) (auto simp: inv_put)
  then show ?case
    using ok Cons.prems(1) kv by (auto simp: get_put map_add_def fun_eq_iff split: option.splits)
qed

end

end
