(* ===== verification/Hashtable.thy ===== *)
theory Hashtable
  imports Map_Store
begin

text \<open>
  \<open>kernel/lib/hashtable.h\<close> and \<open>hashtable.c\<close>: the chained hash table.  A bucket is the list of
  its chain's nodes, each a key and a value; no buckets at all are the null pointer; the values are of any type.  Allocation is an
  argument: \<open>kcalloc_ok\<close> and \<open>kmalloc_ok\<close> say whether the call succeeds.  The table is a
  \<open>map_store\<close> whatever the hash function computes.
\<close>

definition hash_u64 :: "u64 \<Rightarrow> u64" where
  "hash_u64 x =
     (let x = x + 0x9E3779B97F4A7C15;
          x = (x XOR drop_bit 30 x) * 0xBF58476D1CE4E5B9;
          x = (x XOR drop_bit 27 x) * 0x94D049BB133111EB
      in x XOR drop_bit 31 x)"

definition hash_bytes :: "u8 list \<Rightarrow> u64" where
  "hash_bytes p = fold (\<lambda>b h. (h XOR ucast b) * 0x100000001B3) p 0xCBF29CE484222325"

record 'v hashtable =
  ht_buckets :: "(u64 \<times> 'v) list list"
  ht_nbuckets :: u64
  ht_mask :: u64
  ht_count :: u64

text \<open>
  For \<open>v > 2^63\<close> the doubling wraps to 0 and the loop does not end; hence a partial function.
\<close>

partial_function (option) round_pow2_loop :: "u64 \<Rightarrow> u64 \<Rightarrow> u64 option" where
  "round_pow2_loop p v = (if p < v then round_pow2_loop (push_bit 1 p) v else Some p)"

definition round_pow2 :: "u64 \<Rightarrow> u64 option" where
  "round_pow2 v = round_pow2_loop 8 v"

definition hashtable_init :: "bool \<Rightarrow> u64 \<Rightarrow> 'v hashtable option option" where
  "hashtable_init kcalloc_ok hint =
     map_option
       (\<lambda>n. if kcalloc_ok
            then Some \<lparr>ht_buckets = replicate (unat n) [], ht_nbuckets = n, ht_mask = n - 1, ht_count = 0\<rparr>
            else None)
       (round_pow2 (if hint \<noteq> 0 then hint else 8))"

definition hashtable_destroy :: "'v hashtable \<Rightarrow> 'v hashtable" where
  "hashtable_destroy ht =
     (if ht_buckets ht = [] then ht
      else ht\<lparr>ht_buckets := [], ht_nbuckets := 0, ht_mask := 0, ht_count := 0\<rparr>)"

definition ht_index :: "'v hashtable \<Rightarrow> u64 \<Rightarrow> nat" where
  "ht_index ht key = unat (hash_u64 key AND ht_mask ht)"

text \<open>The walk along a chain that \<open>find_node\<close> and \<open>hashtable_remove\<close> share.\<close>

fun chain_find :: "u64 \<Rightarrow> (u64 \<times> 'v) list \<Rightarrow> 'v option" where
  "chain_find key [] = None"
| "chain_find key ((k, v) # ns) = (if k = key then Some v else chain_find key ns)"

fun chain_set :: "u64 \<Rightarrow> 'v \<Rightarrow> (u64 \<times> 'v) list \<Rightarrow> (u64 \<times> 'v) list" where
  "chain_set key value [] = []"
| "chain_set key value ((k, v) # ns) = (if k = key then (k, value) # ns else (k, v) # chain_set key value ns)"

fun chain_unlink :: "u64 \<Rightarrow> (u64 \<times> 'v) list \<Rightarrow> (u64 \<times> 'v) list" where
  "chain_unlink key [] = []"
| "chain_unlink key ((k, v) # ns) = (if k = key then ns else (k, v) # chain_unlink key ns)"

definition find_node :: "'v hashtable \<Rightarrow> u64 \<Rightarrow> 'v option" where
  "find_node ht key = chain_find key (ht_buckets ht ! ht_index ht key)"

definition hashtable_put :: "bool \<Rightarrow> 'v hashtable \<Rightarrow> u64 \<Rightarrow> 'v \<Rightarrow> 'v hashtable option" where
  "hashtable_put kmalloc_ok ht key value =
     (let b = ht_index ht key in
      case find_node ht key of
        Some old \<Rightarrow> Some (ht\<lparr>ht_buckets := (ht_buckets ht)[b := chain_set key value (ht_buckets ht ! b)]\<rparr>)
      | None \<Rightarrow>
          if \<not> kmalloc_ok then None
          else Some (ht\<lparr>ht_buckets := (ht_buckets ht)[b := (key, value) # ht_buckets ht ! b],
                        ht_count := ht_count ht + 1\<rparr>))"

definition hashtable_get :: "'v hashtable \<Rightarrow> u64 \<Rightarrow> 'v option" where
  "hashtable_get ht key = find_node ht key"

definition hashtable_remove :: "'v hashtable \<Rightarrow> u64 \<Rightarrow> 'v option \<times> 'v hashtable" where
  "hashtable_remove ht key =
     (let b = ht_index ht key in
      case chain_find key (ht_buckets ht ! b) of
        Some val \<Rightarrow>
          (Some val, ht\<lparr>ht_buckets := (ht_buckets ht)[b := chain_unlink key (ht_buckets ht ! b)],
                        ht_count := ht_count ht - 1\<rparr>)
      | None \<Rightarrow> (None, ht))"

definition hashtable_contains :: "'v hashtable \<Rightarrow> u64 \<Rightarrow> bool" where
  "hashtable_contains ht key \<longleftrightarrow> find_node ht key \<noteq> None"

definition hashtable_count :: "'v hashtable \<Rightarrow> u64" where
  "hashtable_count ht = ht_count ht"

text \<open>The calls \<open>hashtable_foreach\<close> makes, in order.\<close>

definition hashtable_foreach :: "'v hashtable \<Rightarrow> (u64 \<times> 'v) list" where
  "hashtable_foreach ht = concat (map (\<lambda>i. ht_buckets ht ! i) [0..<unat (ht_nbuckets ht)])"


subsection \<open>Sizing\<close>

lemma round_pow2_loop_stop: "\<not> p < v \<Longrightarrow> round_pow2_loop p v = Some p"
  by (simp add: round_pow2_loop.simps [of p])

lemma round_pow2_loop_step: "p < v \<Longrightarrow> round_pow2_loop p v = round_pow2_loop (push_bit 1 p) v"
  by (simp add: round_pow2_loop.simps [of p])

lemma round_pow2_loop_ok:
  assumes "v \<le> 2 ^ 63" "k \<le> 63" "3 \<le> k"
  shows "\<exists>j. 3 \<le> j \<and> j \<le> 63 \<and> round_pow2_loop (2 ^ k) v = Some (2 ^ j) \<and> v \<le> 2 ^ j"
  using assms(2,3)
proof (induction "63 - k" arbitrary: k)
  case 0
  then have "k = 63" by simp
  then show ?case using assms(1) by (intro exI [of _ 63]) (simp add: round_pow2_loop_stop)
next
  case (Suc m)
  show ?case
  proof (cases "(2 :: u64) ^ k < v")
    case True
    have "push_bit 1 (2 ^ k :: u64) = 2 ^ Suc k" by simp
    then have "round_pow2_loop (2 ^ k) v = round_pow2_loop (2 ^ Suc k) v"
      using round_pow2_loop_step [OF True] by (simp only:)
    then show ?thesis using Suc.hyps(1) [of "Suc k"] Suc.hyps(2) Suc.prems by auto
  next
    case False
    then show ?thesis using Suc.prems by (intro exI [of _ k]) (auto simp: round_pow2_loop_stop)
  qed
qed

lemma round_pow2_loop_result:
  assumes "round_pow2_loop p v = Some r"
  shows "v \<le> r \<and> (\<exists>k. r = push_bit k p)"
proof (rule round_pow2_loop.raw_induct [OF _ assms])
  fix f :: "u64 \<Rightarrow> u64 \<Rightarrow> u64 option" and p v r :: u64
  assume IH: "\<And>p v r. f p v = Some r \<Longrightarrow> v \<le> r \<and> (\<exists>k. r = push_bit k p)"
    and eq: "(if p < v then f (push_bit 1 p) v else Some p) = Some r"
  show "v \<le> r \<and> (\<exists>k. r = push_bit k p)"
  proof (cases "p < v")
    case True
    then obtain k where "v \<le> r" "r = push_bit k (push_bit 1 p)" using IH eq by fastforce
    then show ?thesis by (metis push_bit_push_bit)
  next
    case False
    then have "r = push_bit 0 p" "v \<le> r" using eq by simp_all
    then show ?thesis by blast
  qed
qed

lemma push_bit_8_le: "push_bit k 8 \<le> (2 ^ 63 :: u64)"
proof -
  have "push_bit k 8 = (2 ^ (k + 3) :: u64)" by (simp add: push_bit_eq_mult power_add mult.commute)
  also have "\<dots> \<le> 2 ^ 63"
  proof (cases "k + 3 \<le> 63")
    case True
    then have "unat (2 ^ (k + 3) :: u64) = 2 ^ (k + 3)" by (intro unat_pow2) simp
    moreover have "(2 :: nat) ^ (k + 3) \<le> 2 ^ 63" using True by (intro power_increasing) simp_all
    ultimately have "unat (2 ^ (k + 3) :: u64) \<le> unat (2 ^ 63 :: u64)" by simp
    then show ?thesis by (simp only: word_le_unat)
  next
    case False
    then have zero: "(2 :: u64) ^ (k + 3) = 0" by (intro exp_eq_zero_iff [THEN iffD2]) simp
    show ?thesis unfolding zero by simp
  qed
  finally show ?thesis .
qed

lemma round_pow2_cases:
  "if v \<le> 2 ^ 63 then \<exists>j. 3 \<le> j \<and> j \<le> 63 \<and> round_pow2 v = Some (2 ^ j) \<and> v \<le> 2 ^ j
   else round_pow2 v = None"
proof (cases "v \<le> 2 ^ 63")
  case True
  then show ?thesis using round_pow2_loop_ok [of v 3] by (simp add: round_pow2_def)
next
  case False
  have "round_pow2 v \<noteq> Some r" for r
    using False round_pow2_loop_result [of 8 v r] push_bit_8_le order_trans by (auto simp: round_pow2_def)
  then show ?thesis using False by (cases "round_pow2 v") auto
qed


subsection \<open>Chains and buckets\<close>

lemma chain_find_eq: "chain_find key ns = map_of ns key"
  by (induction ns) auto

lemma chain_set_fst [simp]: "map fst (chain_set key v ns) = map fst ns"
  by (induction ns) auto

lemma length_chain_set [simp]: "length (chain_set key v ns) = length ns"
  by (metis chain_set_fst length_map)

lemma map_of_chain_set:
  "map_of ns key \<noteq> None \<Longrightarrow> map_of (chain_set key v ns) = (map_of ns)(key \<mapsto> v)"
  by (induction ns) (auto simp: fun_eq_iff split: if_splits)

lemma chain_unlink_fst: "map fst (chain_unlink key ns) = remove1 key (map fst ns)"
  by (induction ns) auto

lemma map_of_chain_unlink:
  "distinct (map fst ns) \<Longrightarrow> map_of (chain_unlink key ns) = (map_of ns)(key := None)"
proof (induction ns)
  case Nil
  then show ?case by simp
next
  case (Cons kv ns)
  have "fst kv \<notin> fst ` set ns" using Cons.prems by simp
  then have "map_of ns (fst kv) = None" by (simp add: map_of_eq_None_iff)
  then show ?case using Cons by (cases kv) (auto simp: fun_eq_iff)
qed

lemma set_chain_unlink: "set (chain_unlink key ns) \<subseteq> set ns"
  by (induction ns) (auto split: if_splits)

definition ht_inv :: "'v hashtable \<Rightarrow> bool" where
  "ht_inv ht \<longleftrightarrow>
     ht_nbuckets ht \<noteq> 0 \<and> ht_mask ht = ht_nbuckets ht - 1 \<and> length (ht_buckets ht) = unat (ht_nbuckets ht) \<and>
     (\<forall>i < length (ht_buckets ht). distinct (map fst (ht_buckets ht ! i)) \<and>
        (\<forall>p \<in> set (ht_buckets ht ! i). ht_index ht (fst p) = i)) \<and>
     ht_count ht = of_nat (length (concat (ht_buckets ht)))"

lemma ht_index_upd [simp]:
  "ht_index (ht\<lparr>ht_buckets := bs\<rparr>) k = ht_index ht k" "ht_index (ht\<lparr>ht_count := n\<rparr>) k = ht_index ht k"
  by (simp_all add: ht_index_def)

lemma ht_index_less: "ht_inv ht \<Longrightarrow> ht_index ht k < length (ht_buckets ht)"
proof -
  assume inv: "ht_inv ht"
  have "hash_u64 k AND ht_mask ht \<le> ht_mask ht" by (simp add: word_and_le1)
  moreover have "unat (ht_mask ht) < unat (ht_nbuckets ht)"
    using inv unat_dec [of "ht_nbuckets ht"] by (simp add: ht_inv_def unat_gt_0)
  ultimately show ?thesis using inv by (simp add: ht_index_def ht_inv_def word_le_unat)
qed

lemma length_concat_update:
  "i < length xss \<Longrightarrow> length (concat (xss[i := ys])) + length (xss ! i) = length (concat xss) + length ys"
  by (induction xss arbitrary: i) (auto split: nat.splits)

lemma distinct_concat_fst:
  "(\<And>i. i < length bs \<Longrightarrow> distinct (map fst (bs ! i)) \<and> (\<forall>p \<in> set (bs ! i). f (fst p) = i)) \<Longrightarrow> distinct (map fst (concat bs))"
proof (induction bs rule: rev_induct)
  case Nil
  then show ?case by simp
next
  case (snoc b bs)
  have IH: "distinct (map fst (concat bs))"
    using snoc.prems by (intro snoc.IH) (metis butlast_snoc length_append_singleton less_Suc_eq nth_append)
  have "f (fst p) = length bs" if "p \<in> set b" for p using snoc.prems [of "length bs"] that by simp
  moreover have "f (fst p) < length bs" if p: "p \<in> set (concat bs)" for p
  proof -
    obtain i where "i < length bs" "p \<in> set (bs ! i)" using p by (auto simp: in_set_conv_nth) (metis nth_mem)
    then show ?thesis using snoc.prems [of i] by (auto simp: nth_append)
  qed
  ultimately have "fst ` set (concat bs) \<inter> fst ` set b = {}" by fastforce
  then show ?case using IH snoc.prems [of "length bs"] by auto
qed

lemma ht_get_concat:
  assumes "ht_inv ht"
  shows "hashtable_get ht = map_of (concat (ht_buckets ht))" "distinct (map fst (concat (ht_buckets ht)))"
proof -
  show d: "distinct (map fst (concat (ht_buckets ht)))"
    using assms by (intro distinct_concat_fst [of _ "ht_index ht"]) (auto simp: ht_inv_def)
  have "hashtable_get ht k = Some v \<longleftrightarrow> map_of (concat (ht_buckets ht)) k = Some v" for k v
  proof -
    let ?i = "ht_index ht k"
    have "distinct (map fst (ht_buckets ht ! ?i))" using assms ht_index_less [OF assms] by (simp add: ht_inv_def)
    then have "hashtable_get ht k = Some v \<longleftrightarrow> (k, v) \<in> set (ht_buckets ht ! ?i)"
      by (simp add: hashtable_get_def find_node_def chain_find_eq map_of_eq_Some_iff)
    also have "\<dots> \<longleftrightarrow> (k, v) \<in> set (concat (ht_buckets ht))"
    proof
      assume "(k, v) \<in> set (ht_buckets ht ! ?i)"
      then show "(k, v) \<in> set (concat (ht_buckets ht))"
        using nth_mem [OF ht_index_less [OF assms, of k]] by auto
    next
      assume "(k, v) \<in> set (concat (ht_buckets ht))"
      then obtain j where j: "j < length (ht_buckets ht)" "(k, v) \<in> set (ht_buckets ht ! j)"
        by (auto simp: in_set_conv_nth [of _ "ht_buckets ht"])
      then have "?i = j" using assms by (auto simp: ht_inv_def dest!: spec [of _ j])
      then show "(k, v) \<in> set (ht_buckets ht ! ?i)" using j(2) by simp
    qed
    finally show ?thesis using d by (simp add: map_of_eq_Some_iff)
  qed
  then show "hashtable_get ht = map_of (concat (ht_buckets ht))" by (metis ext not_Some_eq)
qed

text \<open>Replacing the bucket of a key by a well-formed one changes the lookup of the bucket's keys only.\<close>

lemma ht_replace_bucket:
  assumes "ht_inv ht" "distinct (map fst ns)" "\<And>p. p \<in> set ns \<Longrightarrow> ht_index ht (fst p) = ht_index ht key"
    and "map_of ns = (map_of (ht_buckets ht ! ht_index ht key))(key := r)"
  defines "ht' \<equiv> ht\<lparr>ht_buckets := (ht_buckets ht)[ht_index ht key := ns],
       ht_count := of_nat (length (concat ((ht_buckets ht)[ht_index ht key := ns])))\<rparr>"
  shows "ht_inv ht'" "hashtable_get ht' = (hashtable_get ht)(key := r)"
proof -
  let ?i = "ht_index ht key"
  have i: "?i < length (ht_buckets ht)" by (rule ht_index_less [OF assms(1)])
  show "ht_inv ht'"
    using assms(1-3) by (auto simp: ht_inv_def ht'_def nth_update_iff)
  show "hashtable_get ht' = (hashtable_get ht)(key := r)"
  proof
    fix k
    show "hashtable_get ht' k = ((hashtable_get ht)(key := r)) k"
      using i assms(4)
      by (cases "ht_index ht k = ?i") (auto simp: hashtable_get_def find_node_def chain_find_eq ht'_def nth_list_update)
  qed
qed

definition ht_put :: "'v hashtable \<Rightarrow> u64 \<Rightarrow> 'v \<Rightarrow> 'v hashtable" where
  "ht_put ht key value = the (hashtable_put True ht key value)"

lemma hashtable_put_spec:
  assumes "ht_inv ht"
  shows "hashtable_put True ht key v = Some (ht_put ht key v)" "ht_inv (ht_put ht key v)"
    "hashtable_get (ht_put ht key v) = (hashtable_get ht)(key \<mapsto> v)"
proof -
  let ?i = "ht_index ht key" and ?bs = "ht_buckets ht"
  let ?b = "?bs ! ?i"
  have i: "?i < length ?bs" by (rule ht_index_less [OF assms])
  have b: "distinct (map fst ?b)" "\<And>p. p \<in> set ?b \<Longrightarrow> ht_index ht (fst p) = ?i"
    using assms i by (auto simp: ht_inv_def)
  have cnt: "ht_count ht = of_nat (length (concat ?bs))" using assms by (simp add: ht_inv_def)
  show "hashtable_put True ht key v = Some (ht_put ht key v)"
    by (auto simp: ht_put_def hashtable_put_def Let_def split: option.splits)
  have "ht_inv (ht_put ht key v) \<and> hashtable_get (ht_put ht key v) = (hashtable_get ht)(key \<mapsto> v)"
  proof (cases "find_node ht key")
    case None
    have len: "length (concat (?bs[?i := (key, v) # ?b])) = Suc (length (concat ?bs))"
      using length_concat_update [OF i, of "(key, v) # ?b"] by simp
    have "key \<notin> fst ` set ?b" using None by (simp add: find_node_def chain_find_eq map_of_eq_None_iff)
    then have d: "distinct (map fst ((key, v) # ?b))" using b(1) by auto
    have idx: "p \<in> set ((key, v) # ?b) \<Longrightarrow> ht_index ht (fst p) = ?i" for p using b(2) by (cases p) auto
    have "map_of ((key, v) # ?b) = (map_of ?b)(key := Some v)" by simp
    note r = ht_replace_bucket [OF assms d idx this]
    have eq: "ht_put ht key v = ht\<lparr>ht_buckets := ?bs[?i := (key, v) # ?b],
        ht_count := of_nat (length (concat (?bs[?i := (key, v) # ?b])))\<rparr>"
      using None cnt by (simp add: ht_put_def hashtable_put_def Let_def len)
    show ?thesis unfolding eq using r by (intro conjI)
  next
    case (Some old)
    have len: "length (concat (?bs[?i := chain_set key v ?b])) = length (concat ?bs)"
      using length_concat_update [OF i, of "chain_set key v ?b"] by simp
    have "p \<in> set (chain_set key v ?b) \<Longrightarrow> fst p \<in> fst ` set ?b" for p
      by (metis chain_set_fst image_eqI list.set_map)
    then have idx: "p \<in> set (chain_set key v ?b) \<Longrightarrow> ht_index ht (fst p) = ?i" for p using b(2) by fastforce
    have d: "distinct (map fst (chain_set key v ?b))" using b(1) by simp
    have "map_of (chain_set key v ?b) = (map_of ?b)(key := Some v)"
      using Some by (intro map_of_chain_set) (simp add: find_node_def chain_find_eq)
    note r = ht_replace_bucket [OF assms d idx this]
    have eq: "ht_put ht key v = ht\<lparr>ht_buckets := ?bs[?i := chain_set key v ?b],
        ht_count := of_nat (length (concat (?bs[?i := chain_set key v ?b])))\<rparr>"
      using Some cnt by (simp add: ht_put_def hashtable_put_def Let_def len)
    show ?thesis unfolding eq using r by (intro conjI)
  qed
  then show "ht_inv (ht_put ht key v)" "hashtable_get (ht_put ht key v) = (hashtable_get ht)(key \<mapsto> v)" by simp_all
qed

lemma hashtable_remove_spec:
  assumes "ht_inv ht"
  shows "ht_inv (snd (hashtable_remove ht key))" "fst (hashtable_remove ht key) = hashtable_get ht key"
    "hashtable_get (snd (hashtable_remove ht key)) = (hashtable_get ht)(key := None)"
proof -
  let ?i = "ht_index ht key" and ?bs = "ht_buckets ht"
  let ?b = "?bs ! ?i"
  have i: "?i < length ?bs" by (rule ht_index_less [OF assms])
  have b: "distinct (map fst ?b)" "\<And>p. p \<in> set ?b \<Longrightarrow> ht_index ht (fst p) = ?i"
    using assms i by (auto simp: ht_inv_def)
  have cnt: "ht_count ht = of_nat (length (concat ?bs))" using assms by (simp add: ht_inv_def)
  show "fst (hashtable_remove ht key) = hashtable_get ht key"
    by (simp add: hashtable_remove_def hashtable_get_def find_node_def Let_def split: option.splits)
  have "ht_inv (snd (hashtable_remove ht key)) \<and>
      hashtable_get (snd (hashtable_remove ht key)) = (hashtable_get ht)(key := None)"
  proof (cases "chain_find key ?b")
    case None
    then have "(hashtable_get ht)(key := None) = hashtable_get ht"
      by (auto simp: hashtable_get_def find_node_def fun_eq_iff)
    then show ?thesis using None assms by (simp add: hashtable_remove_def Let_def)
  next
    case (Some v)
    have "key \<in> fst ` set ?b" using Some by (simp add: chain_find_eq) (metis map_of_eq_None_iff option.distinct(1))
    then have "length (remove1 key (map fst ?b)) = length ?b - 1" "?b \<noteq> []" by (auto simp: length_remove1)
    then have "Suc (length (chain_unlink key ?b)) = length ?b"
      by (metis Suc_diff_1 chain_unlink_fst length_greater_0_conv length_map)
    then have len: "Suc (length (concat (?bs[?i := chain_unlink key ?b]))) = length (concat ?bs)"
      using length_concat_update [OF i, of "chain_unlink key ?b"] by simp
    have idx: "p \<in> set (chain_unlink key ?b) \<Longrightarrow> ht_index ht (fst p) = ?i" for p
      using b(2) [of p] set_chain_unlink [of key ?b] by blast
    have d: "distinct (map fst (chain_unlink key ?b))" using b(1) by (simp add: chain_unlink_fst distinct_remove1)
    note r = ht_replace_bucket [OF assms d idx map_of_chain_unlink [OF b(1)]]
    have eq: "snd (hashtable_remove ht key) = ht\<lparr>ht_buckets := ?bs[?i := chain_unlink key ?b],
        ht_count := of_nat (length (concat (?bs[?i := chain_unlink key ?b])))\<rparr>"
      using Some cnt by (simp add: hashtable_remove_def Let_def len [symmetric])
    show ?thesis unfolding eq using r by (intro conjI)
  qed
  then show "ht_inv (snd (hashtable_remove ht key))"
    "hashtable_get (snd (hashtable_remove ht key)) = (hashtable_get ht)(key := None)" by simp_all
qed

interpretation ht: map_store hashtable_get ht_put "\<lambda>ht k. snd (hashtable_remove ht k)" "\<lambda>_. True"
    "\<lambda>ht. length (hashtable_foreach ht)" ht_inv
proof
  fix ht :: "'v hashtable" and k v
  assume inv: "ht_inv ht"
  then show "ht_inv (ht_put ht k v)" "ht_inv (snd (hashtable_remove ht k))"
    "hashtable_get (ht_put ht k v) = (hashtable_get ht)(k \<mapsto> v)"
    "hashtable_get (snd (hashtable_remove ht k)) = (hashtable_get ht)(k := None)"
    by (simp_all add: hashtable_put_spec hashtable_remove_spec)
  show "finite (dom (hashtable_get ht))" using inv by (simp add: ht_get_concat finite_dom_map_of)
  have "hashtable_foreach ht = concat (ht_buckets ht)"
    using inv by (metis hashtable_foreach_def ht_inv_def map_nth)
  moreover have "card (dom (map_of (concat (ht_buckets ht)))) = length (concat (ht_buckets ht))"
    using ht_get_concat(2) [OF inv] by (metis dom_map_of_conv_image_fst distinct_card length_map list.set_map)
  ultimately show "length (hashtable_foreach ht) = card (dom (hashtable_get ht))"
    using inv by (simp add: ht_get_concat)
qed


subsection \<open>Properties\<close>

lemma hashtable_put_total:
  "hashtable_put ok ht key v = (if \<not> ok \<and> find_node ht key = None then None else hashtable_put True ht key v)"
  by (auto simp: hashtable_put_def Let_def split: option.splits)

text \<open>
  C5. The hash table is a finite map.  Insertion fails only for a new key when no memory is
  left, and otherwise maps the key to the value and nothing else; removal returns the old
  value and unmaps the key and nothing else; the containment test, the counter and the
  iteration agree with the map: every entry is visited exactly once.
\<close>

theorem hashtable_is_map:
  assumes "ht_inv ht"
  shows "(case hashtable_put ok ht key v of
       None \<Rightarrow> \<not> ok \<and> hashtable_get ht key = None
     | Some ht' \<Rightarrow> ht_inv ht' \<and> hashtable_get ht' = (hashtable_get ht)(key \<mapsto> v)) \<and>
     (case hashtable_remove ht key of
       (old, ht') \<Rightarrow> old = hashtable_get ht key \<and> ht_inv ht' \<and> hashtable_get ht' = (hashtable_get ht)(key := None)) \<and>
     hashtable_contains ht key = (key \<in> dom (hashtable_get ht)) \<and>
     hashtable_count ht = of_nat (card (dom (hashtable_get ht))) \<and>
     distinct (map fst (hashtable_foreach ht)) \<and> map_of (hashtable_foreach ht) = hashtable_get ht"
proof -
  have fe: "hashtable_foreach ht = concat (ht_buckets ht)"
    using assms by (metis hashtable_foreach_def ht_inv_def map_nth)
  have "hashtable_count ht = of_nat (length (hashtable_foreach ht))"
    using assms unfolding fe by (simp add: hashtable_count_def ht_inv_def)
  then have "hashtable_count ht = of_nat (card (dom (hashtable_get ht)))"
    by (simp only: ht.entries_dom [OF assms])
  moreover have "distinct (map fst (hashtable_foreach ht))" "map_of (hashtable_foreach ht) = hashtable_get ht"
    using ht_get_concat [OF assms] fe by simp_all
  ultimately show ?thesis
    using hashtable_put_spec [OF assms, of key v] hashtable_remove_spec [OF assms, of key]
    by (simp add: hashtable_put_total [of ok] hashtable_contains_def hashtable_get_def [symmetric] split_beta domIff)
qed

text \<open>
  C24. Creating a table returns exactly for a hint of at most \<open>2^63\<close>: then it fails only for
  lack of memory, and otherwise yields an empty well-formed table with a power of two of at
  least \<open>hint\<close> buckets.  For a larger hint the doubling loop of \<open>round_pow2\<close> never ends.
\<close>

theorem hashtable_init_terminates_iff:
  fixes hint :: u64
  shows "if hint \<le> 2 ^ 63
   then (case hashtable_init ok hint of
      None \<Rightarrow> False
    | Some None \<Rightarrow> \<not> ok
    | Some (Some ht) \<Rightarrow> ok \<and> ht_inv ht \<and> hashtable_get ht = Map.empty \<and> hint \<le> ht_nbuckets ht \<and>
        (\<exists>j. ht_nbuckets ht = 2 ^ j))
   else hashtable_init ok hint = None"
proof (cases "hint \<le> 2 ^ 63")
  case True
  let ?h = "if hint \<noteq> 0 then hint else 8"
  have "?h \<le> 2 ^ 63" using True by simp
  then obtain j where j: "3 \<le> j" "j \<le> 63" "round_pow2 ?h = Some (2 ^ j)" "?h \<le> 2 ^ j"
    using round_pow2_cases [of ?h] by (simp only: if_True) blast
  define ht :: "'a hashtable" where
    "ht = \<lparr>ht_buckets = replicate (unat (2 ^ j :: u64)) [], ht_nbuckets = 2 ^ j, ht_mask = 2 ^ j - 1, ht_count = 0\<rparr>"
  have u: "unat (2 ^ j :: u64) = 2 ^ j" using j(2) by (intro unat_pow2) simp
  have ne: "(2 :: u64) ^ j \<noteq> 0"
  proof
    assume "(2 :: u64) ^ j = 0"
    then have "unat (2 ^ j :: u64) = 0" by (simp only: unat_0)
    then show False using u by simp
  qed
  have inv: "ht_inv ht" using ne by (simp add: ht_inv_def ht_def)
  have "hashtable_get ht = Map.empty" using ht_get_concat(1) [OF inv] by (simp add: ht_def)
  moreover have "hint \<le> ht_nbuckets ht" using j(4) by (auto simp: ht_def split: if_splits)
  moreover have "hashtable_init ok hint = Some (if ok then Some ht else None)"
    using j(3) by (simp add: hashtable_init_def ht_def)
  ultimately show ?thesis using True inv by (auto simp: ht_def)
next
  case False
  then show ?thesis
    using round_pow2_cases [of hint] by (auto simp: hashtable_init_def)
qed

theorem hashtable_is_map_witness:
  "case hashtable_put True \<lparr>ht_buckets = [[], []], ht_nbuckets = 2, ht_mask = 1, ht_count = 0\<rparr> 5 ''x'' of
     None \<Rightarrow> False | Some ht' \<Rightarrow> hashtable_get ht' 5 = Some ''x''"
proof -
  let ?ht = "\<lparr>ht_buckets = [[], []], ht_nbuckets = 2, ht_mask = 1, ht_count = 0\<rparr> :: string hashtable"
  have "ht_inv ?ht" by (auto simp: ht_inv_def less_Suc_eq nth_Cons')
  then show ?thesis
    using hashtable_is_map [of ?ht True 5 "''x''"] by (auto split: option.splits)
qed

end
