(* ===== verification/Radix.thy ===== *)
theory Radix
  imports Map_Store
begin

text \<open>
  \<open>kernel/lib/radix.h\<close> and \<open>radix.c\<close>: the six-level radix tree.  The 64 slots of a node are
  a list of options (\<open>None\<close> is a null slot); at level 0 they hold values, above they hold
  nodes, as the code's casts assume.  \<open>alloc l\<close> says whether the allocation of a node for
  level \<open>l\<close> succeeds.  A call that runs out of memory half way leaves the nodes it has linked,
  as the code does.
\<close>

definition RADIX_BITS :: nat where "RADIX_BITS = 6"
definition RADIX_FANOUT :: nat where "RADIX_FANOUT = 64"
definition RADIX_MASK :: u64 where "RADIX_MASK = 63"
definition RADIX_LEVELS :: nat where "RADIX_LEVELS = 6"
definition RADIX_MAX_KEY :: u64 where "RADIX_MAX_KEY = push_bit (RADIX_BITS * RADIX_LEVELS) 1 - 1"

datatype 'v radix_node =
    RLeaf (leaf_slots: "'v option list") (rused: nat)
  | RNode (node_slots: "'v radix_node option list") (rused: nat)

record 'v radix_tree =
  rt_root :: "'v radix_node option"
  rt_count :: u64

definition radix_init :: "'v radix_tree" where
  "radix_init = \<lparr>rt_root = None, rt_count = 0\<rparr>"

definition node_new :: "nat \<Rightarrow> 'v radix_node" where
  "node_new level = (if level = 0 then RLeaf (replicate RADIX_FANOUT None) 0 else RNode (replicate RADIX_FANOUT None) 0)"

definition radix_destroy :: "'v radix_tree \<Rightarrow> 'v radix_tree" where
  "radix_destroy t = t\<lparr>rt_root := None, rt_count := 0\<rparr>"

definition slot_index :: "u64 \<Rightarrow> nat \<Rightarrow> nat" where
  "slot_index key level = unat (drop_bit (level * RADIX_BITS) key AND RADIX_MASK)"

text \<open>
  The descent of \<open>radix_insert\<close> from a node at a level.  The flag of a finished insertion
  says whether the leaf slot was empty; \<open>None\<close> is a failed allocation.
\<close>

fun insert_from :: "(nat \<Rightarrow> bool) \<Rightarrow> u64 \<Rightarrow> 'v \<Rightarrow> nat \<Rightarrow> 'v radix_node \<Rightarrow> 'v radix_node \<times> bool option" where
  "insert_from alloc key value 0 (RLeaf slots used) =
     (let i = slot_index key 0 in
      (RLeaf (slots[i := Some value]) (if slots ! i = None then Suc used else used), Some (slots ! i = None)))"
| "insert_from alloc key value (Suc l) (RNode slots used) =
     (let i = slot_index key (Suc l) in
      case slots ! i of
        Some child \<Rightarrow>
          (case insert_from alloc key value l child of (c, r) \<Rightarrow> (RNode (slots[i := Some c]) used, r))
      | None \<Rightarrow>
          if alloc l
          then (case insert_from alloc key value l (node_new l) of (c, r) \<Rightarrow> (RNode (slots[i := Some c]) (Suc used), r))
          else (RNode slots used, None))"
| "insert_from alloc key value _ n = (n, None)"

text \<open>\<open>radix_insert\<close> returns the tree and whether the call returned 0; the null value is excluded by the type.\<close>

definition radix_insert :: "(nat \<Rightarrow> bool) \<Rightarrow> 'v radix_tree \<Rightarrow> u64 \<Rightarrow> 'v \<Rightarrow> 'v radix_tree \<times> bool" where
  "radix_insert alloc t key value =
     (if key > RADIX_MAX_KEY then (t, False)
      else
        (case (case rt_root t of Some n \<Rightarrow> Some n
               | None \<Rightarrow> if alloc (RADIX_LEVELS - 1) then Some (node_new (RADIX_LEVELS - 1)) else None) of
           None \<Rightarrow> (t, False)
         | Some root \<Rightarrow>
             (case insert_from alloc key value (RADIX_LEVELS - 1) root of
                (n, None) \<Rightarrow> (t\<lparr>rt_root := Some n\<rparr>, False)
              | (n, Some fresh) \<Rightarrow>
                  (t\<lparr>rt_root := Some n, rt_count := if fresh then rt_count t + 1 else rt_count t\<rparr>, True))))"

fun lookup_from :: "u64 \<Rightarrow> nat \<Rightarrow> 'v radix_node \<Rightarrow> 'v option" where
  "lookup_from key 0 (RLeaf slots used) = slots ! slot_index key 0"
| "lookup_from key (Suc l) (RNode slots used) =
     (case slots ! slot_index key (Suc l) of None \<Rightarrow> None | Some n \<Rightarrow> lookup_from key l n)"
| "lookup_from key _ n = None"

definition radix_lookup :: "'v radix_tree \<Rightarrow> u64 \<Rightarrow> 'v option" where
  "radix_lookup t key =
     (case rt_root t of
        None \<Rightarrow> None
      | Some n \<Rightarrow> if key > RADIX_MAX_KEY then None else lookup_from key (RADIX_LEVELS - 1) n)"

text \<open>
  The descent of \<open>radix_remove\<close> and, on the way back, the pruning loop: the flag says whether
  the loop is still running, i.e.\ whether every node below was empty and has been unlinked.
\<close>

fun remove_from :: "u64 \<Rightarrow> nat \<Rightarrow> 'v radix_node \<Rightarrow> 'v radix_node \<times> 'v option \<times> bool" where
  "remove_from key 0 (RLeaf slots used) =
     (let leaf = slot_index key 0 in
      case slots ! leaf of
        None \<Rightarrow> (RLeaf slots used, None, False)
      | Some v \<Rightarrow> (RLeaf (slots[leaf := None]) (used - 1), Some v, True))"
| "remove_from key (Suc l) (RNode slots used) =
     (let i = slot_index key (Suc l) in
      case slots ! i of
        None \<Rightarrow> (RNode slots used, None, False)
      | Some child \<Rightarrow>
          (case remove_from key l child of
             (c, None, run) \<Rightarrow> (RNode slots used, None, False)
           | (c, Some v, run) \<Rightarrow>
               if run \<and> rused c = 0 then (RNode (slots[i := None]) (used - 1), Some v, True)
               else (RNode (slots[i := Some c]) used, Some v, False)))"
| "remove_from key _ n = (n, None, False)"

definition radix_remove :: "'v radix_tree \<Rightarrow> u64 \<Rightarrow> 'v option \<times> 'v radix_tree" where
  "radix_remove t key =
     (case rt_root t of
        None \<Rightarrow> (None, t)
      | Some root \<Rightarrow>
          if key > RADIX_MAX_KEY then (None, t)
          else
            (case remove_from key (RADIX_LEVELS - 1) root of
               (n, None, run) \<Rightarrow> (None, t)
             | (n, Some v, run) \<Rightarrow>
                 (Some v, t\<lparr>rt_root := if rused n = 0 then None else Some n, rt_count := rt_count t - 1\<rparr>)))"

definition radix_count :: "'v radix_tree \<Rightarrow> u64" where
  "radix_count t = rt_count t"

text \<open>The calls of \<open>foreach_rec\<close> and \<open>radix_foreach\<close> in order.\<close>

fun foreach_rec :: "nat \<Rightarrow> u64 \<Rightarrow> 'v radix_node \<Rightarrow> (u64 \<times> 'v) list" where
  "foreach_rec 0 prefix (RLeaf slots used) =
     concat (map (\<lambda>i. case slots ! i of None \<Rightarrow> [] | Some v \<Rightarrow> [(prefix OR push_bit 0 (of_nat i), v)]) [0..<RADIX_FANOUT])"
| "foreach_rec (Suc l) prefix (RNode slots used) =
     concat (map (\<lambda>i. case slots ! i of None \<Rightarrow> []
                   | Some n \<Rightarrow> foreach_rec l (prefix OR push_bit (Suc l * RADIX_BITS) (of_nat i)) n) [0..<RADIX_FANOUT])"
| "foreach_rec _ prefix n = []"

definition radix_foreach :: "'v radix_tree \<Rightarrow> (u64 \<times> 'v) list" where
  "radix_foreach t = (case rt_root t of None \<Rightarrow> [] | Some n \<Rightarrow> foreach_rec (RADIX_LEVELS - 1) 0 n)"

lemmas radix_const = RADIX_BITS_def RADIX_FANOUT_def RADIX_MASK_def RADIX_LEVELS_def


subsection \<open>Digits of a key\<close>

definition digit :: "nat \<Rightarrow> nat \<Rightarrow> nat" where
  "digit k l = k div 64 ^ l mod 64"

lemma slot_index_eq: "slot_index key l = digit (unat key) l"
proof -
  have "drop_bit (l * 6) key AND 63 = drop_bit (l * 6) key AND mask 6"
    by (simp add: mask_eq_exp_minus_1)
  then have "slot_index key l = unat key div 2 ^ (l * 6) mod 2 ^ 6"
    by (simp only: slot_index_def radix_const unat_and_mask unat_shift_right)
  also have "(2 :: nat) ^ (l * 6) = 64 ^ l" using power_mult [of "2 :: nat" 6 l] by (simp add: mult.commute)
  finally show ?thesis by (simp add: digit_def)
qed

lemma digit_less [simp]: "digit k l < 64" by (simp add: digit_def)

lemma mod_digits: "k mod 64 ^ Suc l = digit k l * 64 ^ l + k mod 64 ^ l"
proof -
  have "k mod (64 ^ l * 64) = 64 ^ l * (k div 64 ^ l mod 64) + k mod 64 ^ l" by (rule mod_mult2_eq)
  then show ?thesis by (simp add: digit_def mult.commute)
qed

lemma same_key_iff:
  "k mod 64 ^ Suc l = k' mod 64 ^ Suc l \<longleftrightarrow> digit k l = digit k' l \<and> k mod 64 ^ l = k' mod 64 ^ l"
proof -
  have r: "k mod 64 ^ l < 64 ^ l" "k' mod 64 ^ l < (64 :: nat) ^ l" by simp_all
  have "a * m + r = b * m + s \<longleftrightarrow> a = b \<and> r = s" if "r < m" "s < m" for a b r s m :: nat
    using that by (metis add.commute div_mult_self1_is_m div_mult_self3 div_less mod_mult_self2 mod_less add_cancel_right_left mult.commute not_less_zero)
  then show ?thesis unfolding mod_digits using r by blast
qed


subsection \<open>Well-formed nodes\<close>

definition nonnull :: "'a option list \<Rightarrow> nat" where
  "nonnull slots = length (filter (\<lambda>x. x \<noteq> None) slots)"

fun rinv :: "nat \<Rightarrow> 'v radix_node \<Rightarrow> bool" where
  "rinv 0 (RLeaf slots used) \<longleftrightarrow> length slots = 64 \<and> used = nonnull slots"
| "rinv (Suc l) (RNode slots used) \<longleftrightarrow> length slots = 64 \<and> used = nonnull slots \<and>
     (\<forall>n. Some n \<in> set slots \<longrightarrow> rinv l n)"
| "rinv _ _ \<longleftrightarrow> False"


lemma nonnull_update:
  "i < length xs \<Longrightarrow> nonnull (xs[i := v]) = nonnull xs - (if xs ! i = None then 0 else 1) + (if v = None then 0 else 1)"
  by (simp add: nonnull_def length_filter_update)

lemma nonnull_pos: "i < length xs \<Longrightarrow> xs ! i \<noteq> None \<Longrightarrow> 0 < nonnull xs"
  by (metis (mono_tags, lifting) filter_empty_conv length_greater_0_conv nonnull_def nth_mem)

lemma nonnull_0: "nonnull xs = 0 \<Longrightarrow> i < length xs \<Longrightarrow> xs ! i = None"
  using nonnull_pos [of i xs] by (cases "xs ! i") auto

lemma rinv_leafD: "rinv 0 n \<Longrightarrow> \<exists>slots used. n = RLeaf slots used \<and> length slots = 64 \<and> used = nonnull slots"
  by (cases n) auto

lemma rinv_nodeD:
  "rinv (Suc l) n \<Longrightarrow> \<exists>slots used. n = RNode slots used \<and> length slots = 64 \<and> used = nonnull slots \<and>
     (\<forall>c. Some c \<in> set slots \<longrightarrow> rinv l c)"
  by (cases n) auto

lemma rinv_new: "rinv l (node_new l)" and lookup_new: "lookup_from k l (node_new l) = None"
  by (cases l; simp add: node_new_def radix_const nonnull_def slot_index_eq)+

lemma rinv_child_update:
  assumes "rinv (Suc l) (RNode slots used)" "i < 64" "rinv l c"
  shows "rinv (Suc l) (RNode (slots[i := Some c]) (if slots ! i = None then Suc used else used))"
  using assms nonnull_pos [of i slots] by (auto simp: nonnull_update dest!: set_update_subset_insert [THEN subsetD])

text \<open>Keys that agree below a level follow the same path.\<close>

definition agree :: "nat \<Rightarrow> u64 \<Rightarrow> u64 \<Rightarrow> bool" where
  "agree l k k' \<longleftrightarrow> unat k mod 64 ^ Suc l = unat k' mod 64 ^ Suc l"

lemma agree_0: "agree 0 k k' \<longleftrightarrow> slot_index k 0 = slot_index k' 0"
  by (simp add: agree_def slot_index_eq digit_def)

lemma agree_Suc: "agree (Suc l) k k' \<longleftrightarrow> slot_index k (Suc l) = slot_index k' (Suc l) \<and> agree l k k'"
  unfolding agree_def slot_index_eq by (rule same_key_iff)

lemma slot_index_less [simp]: "slot_index k l < 64"
  by (simp add: slot_index_eq)

lemma lookup_agree: "agree l k k' \<Longrightarrow> lookup_from k l n = lookup_from k' l n"
proof (induction l arbitrary: n)
  case 0
  then show ?case by (cases n) (simp_all add: agree_0)
next
  case (Suc l)
  then show ?case by (cases n) (simp_all add: agree_Suc split: option.splits)
qed

lemma insert_from_spec:
  assumes "rinv l n" "insert_from alloc k v l n = (n', r)"
  shows "rinv l n' \<and> (\<forall>k'. lookup_from k' l n' = (if r \<noteq> None \<and> agree l k' k then Some v else lookup_from k' l n)) \<and>
     (\<forall>fresh. r = Some fresh \<longrightarrow> fresh = (lookup_from k l n = None)) \<and> ((\<forall>l. alloc l) \<longrightarrow> r \<noteq> None)"
  using assms
proof (induction l arbitrary: n n' r)
  case 0
  then obtain slots used where n: "n = RLeaf slots used" "length slots = 64" "used = nonnull slots"
    using rinv_leafD by blast
  then show ?case
    using "0.prems" nonnull_pos [of "slot_index k 0" slots]
    by (auto simp: Let_def nonnull_update nth_list_update agree_0)
next
  case (Suc l)
  obtain slots used where n: "n = RNode slots used" "length slots = 64" "used = nonnull slots"
    and ch: "\<And>c. Some c \<in> set slots \<Longrightarrow> rinv l c"
    using rinv_nodeD [OF Suc.prems(1)] by blast
  let ?i = "slot_index k (Suc l)"
  have chi: "rinv l c" if "slots ! ?i = Some c" for c
    using ch n(2) nth_mem [of ?i slots] that by (metis slot_index_less)
  define child where "child = (case slots ! ?i of Some c \<Rightarrow> c | None \<Rightarrow> node_new l)"
  have child: "rinv l child" "\<And>k'. slot_index k' (Suc l) = ?i \<Longrightarrow> lookup_from k' (Suc l) n = lookup_from k' l child"
    using chi n by (auto simp: child_def rinv_new lookup_new split: option.splits)
  show ?case
  proof (cases "slots ! ?i = None \<and> \<not> alloc l")
    case True
    then have "n' = n" "r = None" using Suc.prems(2) n by (auto simp: Let_def)
    then show ?thesis using Suc.prems(1) True by auto
  next
    case False
    obtain c where c: "insert_from alloc k v l child = (c, r)"
      and n': "n' = RNode (slots[?i := Some c]) (if slots ! ?i = None then Suc used else used)"
      using Suc.prems(2) n False by (auto simp: Let_def child_def split: option.splits prod.splits)
    note IH = Suc.IH [OF child(1) c]
    have inv: "rinv (Suc l) n'"
      unfolding n' using Suc.prems(1) IH n by (intro rinv_child_update) simp_all
    have look: "lookup_from k' (Suc l) n' = (if r \<noteq> None \<and> agree (Suc l) k' k then Some v else lookup_from k' (Suc l) n)" for k'
    proof (cases "slot_index k' (Suc l) = ?i")
      case True
      then have "lookup_from k' (Suc l) n' = lookup_from k' l c" using n' n by simp
      then show ?thesis using IH child(2) [OF True] True by (auto simp: agree_Suc)
    next
      case False
      then show ?thesis using n n' by (auto simp: agree_Suc nth_list_update)
    qed
    have fresh: "\<forall>fresh. r = Some fresh \<longrightarrow> fresh = (lookup_from k (Suc l) n = None)"
      using IH child(2) [OF refl] by simp
    have mem: "(\<forall>l. alloc l) \<longrightarrow> r \<noteq> None" using IH by simp
    show ?thesis by (intro conjI inv allI look fresh mem)
  qed
qed

lemma empty_lookup: "rinv l n \<Longrightarrow> rused n = 0 \<Longrightarrow> lookup_from k l n = None"
  by (cases l; cases n) (auto simp: nonnull_0)

lemma remove_from_spec:
  assumes "rinv l n" "remove_from k l n = (n', r, run)"
  shows "rinv l n' \<and> r = lookup_from k l n \<and>
     (\<forall>k'. lookup_from k' l n' = (if agree l k' k then None else lookup_from k' l n))"
  using assms
proof (induction l arbitrary: n n' r run)
  case 0
  then obtain slots used where n: "n = RLeaf slots used" "length slots = 64" "used = nonnull slots"
    using rinv_leafD by blast
  then show ?case
    using "0.prems" by (auto simp: Let_def nonnull_update nth_list_update agree_0 split: option.splits)
next
  case (Suc l)
  obtain slots used where n: "n = RNode slots used" "length slots = 64" "used = nonnull slots"
    and ch: "\<And>c. Some c \<in> set slots \<Longrightarrow> rinv l c"
    using rinv_nodeD [OF Suc.prems(1)] by blast
  let ?i = "slot_index k (Suc l)"
  show ?case
  proof (cases "slots ! ?i")
    case None
    then show ?thesis using Suc.prems n by (auto simp: Let_def agree_Suc)
  next
    case (Some child)
    have child: "rinv l child" using ch Some n(2) nth_mem [of ?i slots] by (metis slot_index_less)
    obtain c v run' where c: "remove_from k l child = (c, v, run')" by (metis prod_cases3)
    note IH = Suc.IH [OF child c]
    have look: "lookup_from k' (Suc l) n = (if slot_index k' (Suc l) = ?i then lookup_from k' l child
        else lookup_from k' (Suc l) n)" for k'
      using n Some by simp
    show ?thesis
    proof (cases v)
      case None
      then have "n' = n" "r = None" using Suc.prems(2) n Some c by (auto simp: Let_def)
      moreover have "lookup_from k' (Suc l) n = None" if "agree (Suc l) k' k" for k'
        using that IH None look [of k'] lookup_agree [of l k' k child] by (simp add: agree_Suc)
      ultimately show ?thesis using Suc.prems(1) IH None look [of k] by auto
    next
      case v: (Some w)
      let ?new = "if run' \<and> rused c = 0 then None else Some c"
      have n': "n' = RNode (slots[?i := ?new]) (if ?new = None then used - 1 else used)" "r = Some w"
        using Suc.prems(2) n Some c v by (auto simp: Let_def split: if_splits)
      have "rinv (Suc l) n'"
        using n n' ch IH Some nonnull_pos [of ?i slots]
        by (auto simp: nonnull_update dest!: set_update_subset_insert [THEN subsetD])
      moreover have "lookup_from k' (Suc l) n' = (if agree (Suc l) k' k then None else lookup_from k' (Suc l) n)" for k'
      proof (cases "slot_index k' (Suc l) = ?i")
        case True
        then have "lookup_from k' (Suc l) n' = lookup_from k' l c"
          using n' n empty_lookup [of l c k'] IH by auto
        then show ?thesis using True IH look [of k'] by (simp add: agree_Suc)
      next
        case False
        then show ?thesis using n n' by (simp add: agree_Suc nth_list_update)
      qed
      ultimately show ?thesis using n'(2) IH v look [of k] by simp
    qed
  qed
qed


subsection \<open>Iteration in key order\<close>

lemma bit_below:
  fixes w :: u64
  assumes "unat w < 2 ^ m" "bit w n" shows "n < m"
proof -
  have "take_bit m (unat w) = unat w" using assms(1) by (rule take_bit_nat_eq_self)
  moreover have "bit (unat w) n" using assms(2) by (simp add: bit_unsigned_iff)
  ultimately have "bit (take_bit m (unat w)) n" by simp
  then show ?thesis by (simp add: bit_take_bit_iff)
qed

lemma bit_above:
  fixes w :: u64
  assumes "unat w mod 2 ^ m = 0" "bit w n" shows "m \<le> n"
proof (rule ccontr)
  assume "\<not> m \<le> n"
  moreover have "bit (unat w) n" using assms(2) by (simp add: bit_unsigned_iff)
  ultimately have "bit (take_bit m (unat w)) n" by (simp add: bit_take_bit_iff)
  then show False using assms(1) by (simp add: take_bit_eq_mod)
qed

lemma pow64: "(2 :: nat) ^ (l * 6) = 64 ^ l"
  using power_mult [of "2 :: nat" 6 l] by (simp add: mult.commute)

lemma unat_or_digit:
  fixes p :: u64
  assumes "unat p mod 64 ^ Suc l = 0" "i < 64" "unat p + 64 ^ Suc l \<le> 2 ^ 36"
  shows "unat (p OR push_bit (l * 6) (of_nat i)) = unat p + i * 64 ^ l"
proof -
  let ?q = "push_bit (l * 6) (of_nat i) :: u64"
  have less: "i * 64 ^ l < 64 ^ Suc l" using assms(2) by simp
  have bound: "64 ^ Suc l \<le> (2 :: nat) ^ 36" using assms(3) by simp
  have "?q = of_nat (i * 64 ^ l)" by (simp add: push_bit_eq_mult pow64 [symmetric])
  moreover have "unat (of_nat (i * 64 ^ l) :: u64) = i * 64 ^ l"
    using less_le_trans [OF less bound] by (intro unat_of_nat_no_wrap) simp
  ultimately have q: "unat ?q = i * 64 ^ l" by (simp only:)
  have "(64 :: nat) ^ Suc l = 2 ^ (Suc l * 6)" by (rule pow64 [symmetric])
  then have "\<not> (bit p n \<and> bit ?q n)" for n
    using bit_above [of p "Suc l * 6" n] bit_below [of ?q "Suc l * 6" n] assms(1) less q by auto
  then have "p OR ?q = p + ?q" by (intro disjunctive_add [symmetric]) blast
  moreover have "unat (p + ?q) = unat p + unat ?q"
    using less_le_trans [OF add_strict_left_mono [OF less, of "unat p"] assms(3)] q by (intro unat_plus_no_wrap) simp
  ultimately show ?thesis using q by simp
qed

lemma concat_segments:
  assumes "\<And>i. i < n \<Longrightarrow> sorted_wrt (<) (map fst (f i)) \<and>
      set (f i) = {(k, v). a + i * m \<le> unat k \<and> unat k < a + Suc i * m \<and> look k = Some v}"
  shows "sorted_wrt (<) (map fst (concat (map f [0..<n]))) \<and>
      set (concat (map f [0..<n])) = {(k :: u64, v). a \<le> unat k \<and> unat k < a + n * m \<and> look k = Some v}"
  using assms
proof (induction n)
  case 0
  then show ?case by simp
next
  case (Suc n)
  have IH: "sorted_wrt (<) (map fst (concat (map f [0..<n])))"
    "set (concat (map f [0..<n])) = {(k, v). a \<le> unat k \<and> unat k < a + n * m \<and> look k = Some v}"
    using Suc by simp_all
  have seg: "sorted_wrt (<) (map fst (f n))"
    "set (f n) = {(k, v). a + n * m \<le> unat k \<and> unat k < a + Suc n * m \<and> look k = Some v}"
    using Suc.prems [of n] by simp_all
  have "set (concat (map f [0..<Suc n])) = set (concat (map f [0..<n])) \<union> set (f n)" by simp
  also have "\<dots> = {(k, v). a \<le> unat k \<and> unat k < a + Suc n * m \<and> look k = Some v}"
    unfolding IH(2) seg(2) by auto
  finally have set: "set (concat (map f [0..<Suc n])) = {(k, v). a \<le> unat k \<and> unat k < a + Suc n * m \<and> look k = Some v}" .
  have "x < y" if "x \<in> fst ` set (concat (map f [0..<n]))" "y \<in> fst ` set (f n)" for x y
    using that unfolding IH(2) seg(2) by (auto simp: word_less_unat)
  then have "sorted_wrt (<) (map fst (concat (map f [0..<Suc n])))"
    using IH(1) seg(1) by (auto simp: sorted_wrt_append)
  then show ?case using set by blast
qed

lemma digit_range:
  assumes "a mod 64 ^ Suc l = 0" "a + i * 64 ^ l \<le> k" "k < a + Suc i * 64 ^ l" "i < 64"
  shows "digit k l = i"
proof -
  obtain b where a: "a = 64 ^ Suc l * b" using assms(1) by (auto simp: mod_eq_0_iff_dvd dvd_def)
  have "k div 64 ^ l = 64 * b + i"
  proof (rule div_nat_eqI)
    show "64 ^ l * (64 * b + i) \<le> k" "k < 64 ^ l * Suc (64 * b + i)"
      using assms(2,3) a by (simp_all add: algebra_simps)
  qed
  then show ?thesis using assms(4) by (simp add: digit_def)
qed

lemma seg_bound:
  fixes a i m b :: nat
  assumes "i < 64" "a + 64 * m \<le> b" shows "a + i * m + m \<le> b"
proof -
  have "Suc i * m \<le> 64 * m" using assms(1) by (intro mult_le_mono1) simp
  then show ?thesis using assms(2) unfolding mult_Suc by linarith
qed

lemma foreach_rec_spec:
  assumes "rinv l n" "unat p mod 64 ^ Suc l = 0" "unat p + 64 ^ Suc l \<le> 2 ^ 36"
  shows "sorted_wrt (<) (map fst (foreach_rec l p n)) \<and>
     set (foreach_rec l p n) = {(k, v). unat p \<le> unat k \<and> unat k < unat p + 64 ^ Suc l \<and> lookup_from k l n = Some v}"
  using assms
proof (induction l arbitrary: p n)
  case 0
  then obtain slots used where n: "n = RLeaf slots used" "length slots = 64" using rinv_leafD by blast
  let ?f = "\<lambda>i. case slots ! i of None \<Rightarrow> [] | Some v \<Rightarrow> [(p OR push_bit 0 (of_nat i), v)]"
  have "sorted_wrt (<) (map fst (?f i)) \<and>
      set (?f i) = {(k, v). unat p + i * 1 \<le> unat k \<and> unat k < unat p + Suc i * 1 \<and> lookup_from k 0 n = Some v}"
    if i: "i < 64" for i
  proof -
    have or: "unat (p OR push_bit 0 (of_nat i)) = unat p + i" using unat_or_digit [of p 0 i] i "0.prems" by simp
    let ?k = "p OR push_bit 0 (of_nat i)"
    have "unat p + i * 1 \<le> unat k \<and> unat k < unat p + Suc i * 1 \<longleftrightarrow> unat k = unat ?k" for k :: u64
      unfolding or by auto
    then have key: "unat p + i * 1 \<le> unat k \<and> unat k < unat p + Suc i * 1 \<and> P \<longleftrightarrow> k = ?k \<and> P" for k P
      using unat_eq_iff [of k ?k] by blast
    have "slot_index ?k 0 = i"
      using digit_range [of "unat p" 0 i "unat ?k"] i or "0.prems" by (simp add: slot_index_eq)
    then have look: "lookup_from ?k 0 n = slots ! i" using n by simp
    show ?thesis unfolding key using look by (cases "slots ! i") auto
  qed
  then show ?case using concat_segments [of 64 ?f "unat p" 1 "\<lambda>k. lookup_from k 0 n"] n by (simp add: radix_const)
next
  case (Suc l)
  obtain slots used where n: "n = RNode slots used" "length slots = 64"
    and ch: "\<And>c. Some c \<in> set slots \<Longrightarrow> rinv l c"
    using rinv_nodeD [OF Suc.prems(1)] by blast
  let ?m = "64 ^ Suc l :: nat"
  let ?p = "\<lambda>i. p OR push_bit (Suc l * RADIX_BITS) (of_nat i)"
  let ?f = "\<lambda>i. case slots ! i of None \<Rightarrow> [] | Some c \<Rightarrow> foreach_rec l (?p i) c"
  have "sorted_wrt (<) (map fst (?f i)) \<and>
      set (?f i) = {(k, v). unat p + i * ?m \<le> unat k \<and> unat k < unat p + Suc i * ?m \<and> lookup_from k (Suc l) n = Some v}"
    if i: "i < 64" for i
  proof -
    have or: "unat (?p i) = unat p + i * ?m"
      using unat_or_digit [of p "Suc l" i] i Suc.prems by (simp only: RADIX_BITS_def)
    have idx: "slot_index k (Suc l) = i" if "unat p + i * ?m \<le> unat k" "unat k < unat p + Suc i * ?m" for k
      using digit_range [of "unat p" "Suc l" i "unat k"] i that Suc.prems by (simp add: slot_index_eq)
    show ?thesis
    proof (cases "slots ! i")
      case None
      then show ?thesis using idx n by auto
    next
      case (Some c)
      have "?m dvd unat p" using Suc.prems(2) by (metis dvd_trans dvd_triv_right mod_0_imp_dvd power_Suc)
      then have "unat (?p i) mod ?m = 0" unfolding or by (simp add: mod_eq_0_iff_dvd)
      moreover have "unat (?p i) + ?m \<le> 2 ^ 36"
        unfolding or using Suc.prems(3) by (intro seg_bound [OF i]) simp
      moreover have "rinv l c" using ch Some n(2) i by (metis nth_mem)
      ultimately have "sorted_wrt (<) (map fst (foreach_rec l (?p i) c)) \<and> set (foreach_rec l (?p i) c) =
          {(k, v). unat (?p i) \<le> unat k \<and> unat k < unat (?p i) + ?m \<and> lookup_from k l c = Some v}"
        by (rule Suc.IH [rotated])
      then show ?thesis unfolding or using idx n Some by (auto simp: algebra_simps)
    qed
  qed
  then show ?case
    using concat_segments [of 64 ?f "unat p" ?m "\<lambda>k. lookup_from k (Suc l) n"] n by (simp add: RADIX_FANOUT_def)
qed


subsection \<open>The tree as a map\<close>

definition rt_inv :: "'v radix_tree \<Rightarrow> bool" where
  "rt_inv t \<longleftrightarrow> (\<forall>n. rt_root t = Some n \<longrightarrow> rinv (RADIX_LEVELS - 1) n) \<and>
     rt_count t = of_nat (card (dom (radix_lookup t)))"

lemma levels: "RADIX_LEVELS - 1 = 5" "RADIX_LEVELS - Suc 0 = 5"
  by (simp_all add: RADIX_LEVELS_def)

lemma max_key: "key > RADIX_MAX_KEY \<longleftrightarrow> \<not> unat key < 2 ^ 36"
proof -
  have "unat RADIX_MAX_KEY = 2 ^ 36 - 1" by (simp add: RADIX_MAX_KEY_def radix_const)
  then show ?thesis by (simp only: word_less_unat) auto
qed

lemma agree_key: "unat k < 2 ^ 36 \<Longrightarrow> unat k' < 2 ^ 36 \<Longrightarrow> agree 5 k k' \<longleftrightarrow> k = k'"
  by (simp add: agree_def)

lemma radix_lookup_eq:
  "radix_lookup t k = (if unat k < 2 ^ 36 then (case rt_root t of None \<Rightarrow> None | Some n \<Rightarrow> lookup_from k 5 n) else None)"
  by (simp add: radix_lookup_def max_key levels split: option.splits)

lemma radix_foreach_spec:
  assumes "rt_inv t"
  shows "sorted_wrt (<) (map fst (radix_foreach t))" "set (radix_foreach t) = {(k, v). radix_lookup t k = Some v}"
proof -
  have "sorted_wrt (<) (map fst (radix_foreach t)) \<and> set (radix_foreach t) = {(k, v). radix_lookup t k = Some v}"
  proof (cases "rt_root t")
    case None
    then show ?thesis by (simp add: radix_foreach_def radix_lookup_def)
  next
    case (Some n)
    then have "rinv 5 n" using assms by (simp add: rt_inv_def levels)
    then have "sorted_wrt (<) (map fst (foreach_rec 5 0 n)) \<and>
        set (foreach_rec 5 0 n) = {(k, v). unat k < 64 ^ Suc 5 \<and> lookup_from k 5 n = Some v}"
      using foreach_rec_spec [of 5 n 0] by simp
    then show ?thesis using Some by (auto simp: radix_foreach_def radix_lookup_eq levels split: if_splits)
  qed
  then show "sorted_wrt (<) (map fst (radix_foreach t))" "set (radix_foreach t) = {(k, v). radix_lookup t k = Some v}"
    by simp_all
qed

lemma radix_dom:
  assumes "rt_inv t"
  shows "dom (radix_lookup t) = fst ` set (radix_foreach t)" "finite (dom (radix_lookup t))"
    "length (radix_foreach t) = card (dom (radix_lookup t))" "map_of (radix_foreach t) = radix_lookup t"
proof -
  note f = radix_foreach_spec [OF assms]
  show d: "dom (radix_lookup t) = fst ` set (radix_foreach t)" unfolding f(2) by force
  then show "finite (dom (radix_lookup t))" by simp
  have dist: "distinct (map fst (radix_foreach t))"
    using f(1) by (metis strict_sorted_iff sorted_wrt_map strict_sorted_equal sorted_list_of_set.idem_if_sorted_distinct)
  then show "length (radix_foreach t) = card (dom (radix_lookup t))"
    unfolding d by (metis distinct_card length_map list.set_map)
  have "map_of (radix_foreach t) k = Some v \<longleftrightarrow> radix_lookup t k = Some v" for k v
    using map_of_eq_Some_iff [OF dist] f(2) by simp
  then show "map_of (radix_foreach t) = radix_lookup t" by (metis ext not_Some_eq)
qed

lemma card_dom_upd:
  assumes "finite (dom m)"
  shows "card (dom (m(k \<mapsto> v))) = (if m k = None then Suc (card (dom m)) else card (dom m))"
    and "m k \<noteq> None \<Longrightarrow> Suc (card (dom (m(k := None)))) = card (dom m)"
proof -
  show "card (dom (m(k \<mapsto> v))) = (if m k = None then Suc (card (dom m)) else card (dom m))"
    using assms by (auto simp: card_insert_if domIff)
  assume "m k \<noteq> None"
  then have "Suc (card (dom m - {k})) = card (dom m)" using assms by (intro card_Suc_Diff1) auto
  moreover have "dom (m(k := None)) = dom m - {k}" by simp
  ultimately show "Suc (card (dom (m(k := None)))) = card (dom m)" by (simp only:)
qed

lemma radix_insert_spec:
  assumes "rt_inv t" "radix_insert alloc t k v = (t', ok)"
  shows "rt_inv t'" "radix_lookup t' = (if ok then (radix_lookup t)(k \<mapsto> v) else radix_lookup t)"
    "ok \<Longrightarrow> unat k < 2 ^ 36" "(\<forall>l. alloc l) \<Longrightarrow> unat k < 2 ^ 36 \<Longrightarrow> ok"
proof -
  define root where "root = (case rt_root t of Some n \<Rightarrow> Some n
               | None \<Rightarrow> if alloc 5 then Some (node_new 5) else None)"
  have ins: "radix_insert alloc t k v = (if \<not> unat k < 2 ^ 36 then (t, False) else (case root of
           None \<Rightarrow> (t, False)
         | Some root \<Rightarrow>
             (case insert_from alloc k v 5 root of
                (n, None) \<Rightarrow> (t\<lparr>rt_root := Some n\<rparr>, False)
              | (n, Some fresh) \<Rightarrow>
                  (t\<lparr>rt_root := Some n, rt_count := if fresh then rt_count t + 1 else rt_count t\<rparr>, True))))"
    by (simp only: radix_insert_def root_def max_key levels)
  have "rt_inv t' \<and> radix_lookup t' = (if ok then (radix_lookup t)(k \<mapsto> v) else radix_lookup t) \<and>
      (ok \<longrightarrow> unat k < 2 ^ 36) \<and> ((\<forall>l. alloc l) \<and> unat k < 2 ^ 36 \<longrightarrow> ok)"
  proof (cases "unat k < 2 ^ 36 \<and> root \<noteq> None")
    case False
    then show ?thesis using assms by (auto simp: ins root_def split: option.splits if_splits)
  next
    case True
    then obtain r where r: "root = Some r" by auto
    have inv: "rinv 5 r" using assms(1) r by (auto simp: root_def rt_inv_def levels rinv_new split: option.splits if_splits)
    have look: "radix_lookup t k' = (if unat k' < 2 ^ 36 then lookup_from k' 5 r else None)" for k'
      using r by (auto simp: root_def radix_lookup_eq lookup_new split: option.splits if_splits)
    obtain n res where n: "insert_from alloc k v 5 r = (n, res)" by fastforce
    note sp = insert_from_spec [OF inv n]
    have root': "rt_root t' = Some n" and ok: "ok = (res \<noteq> None)"
      and cnt: "rt_count t' = rt_count t + (if res = Some True then 1 else 0)"
      using assms(2) True r n by (auto simp: ins split: option.splits if_splits)
    have look': "radix_lookup t' = (if ok then (radix_lookup t)(k \<mapsto> v) else radix_lookup t)"
      using sp True ok agree_key [of _ k] by (auto simp: fun_eq_iff radix_lookup_eq [of t'] root' look)
    have fresh: "res = Some f \<Longrightarrow> f = (radix_lookup t k = None)" for f using sp True by (simp add: look)
    have "rt_count t' = of_nat (card (dom (radix_lookup t')))"
    proof (cases res)
      case None
      then show ?thesis using cnt look' ok assms(1) by (simp add: rt_inv_def)
    next
      case (Some f)
      then show ?thesis
        using cnt look' ok fresh [OF Some] assms(1) card_dom_upd(1) [OF radix_dom(2) [OF assms(1)], of k v]
        by (auto simp: rt_inv_def)
    qed
    then have "rt_inv t'" using sp root' by (simp add: rt_inv_def levels)
    then show ?thesis using look' ok True sp by blast
  qed
  then show "rt_inv t'" "radix_lookup t' = (if ok then (radix_lookup t)(k \<mapsto> v) else radix_lookup t)"
    "ok \<Longrightarrow> unat k < 2 ^ 36" "(\<forall>l. alloc l) \<Longrightarrow> unat k < 2 ^ 36 \<Longrightarrow> ok"
    by blast+
qed

lemma radix_remove_spec:
  assumes "rt_inv t" "radix_remove t k = (r, t')"
  shows "rt_inv t'" "r = radix_lookup t k" "radix_lookup t' = (radix_lookup t)(k := None)"
proof -
  have "rt_inv t' \<and> r = radix_lookup t k \<and> radix_lookup t' = (radix_lookup t)(k := None)"
  proof (cases "rt_root t = None \<or> \<not> unat k < 2 ^ 36")
    case True
    then show ?thesis
      using assms by (auto simp: radix_remove_def radix_lookup_eq max_key fun_eq_iff split: option.splits)
  next
    case False
    then obtain n where root: "rt_root t = Some n" and k: "unat k < 2 ^ 36" by auto
    have inv: "rinv 5 n" using assms(1) root by (simp add: rt_inv_def levels)
    obtain m v run where m: "remove_from k 5 n = (m, v, run)" by (metis prod_cases3)
    note sp = remove_from_spec [OF inv m]
    have v: "v = radix_lookup t k" using sp k root by (simp add: radix_lookup_eq)
    show ?thesis
    proof (cases v)
      case None
      then have "(r, t') = (None, t)" using assms(2) root k m by (simp add: radix_remove_def max_key levels)
      then show ?thesis using assms(1) v None by (auto simp: fun_eq_iff)
    next
      case (Some w)
      then have t': "r = Some w" "t' = t\<lparr>rt_root := if rused m = 0 then None else Some m, rt_count := rt_count t - 1\<rparr>"
        using assms(2) root k m by (simp_all add: radix_remove_def max_key levels)
      have look: "radix_lookup t' = (radix_lookup t)(k := None)"
      proof
        fix k'
        have "radix_lookup t' k' = (if unat k' < 2 ^ 36 then lookup_from k' 5 m else None)"
          using t'(2) empty_lookup [OF conjunct1 [OF sp], of k'] by (simp add: radix_lookup_eq)
        then show "radix_lookup t' k' = ((radix_lookup t)(k := None)) k'"
          using sp k root agree_key [of k' k] by (cases "k' = k") (simp_all add: radix_lookup_eq)
      qed
      have "Suc (card (dom ((radix_lookup t)(k := None)))) = card (dom (radix_lookup t))"
        using v [symmetric] Some by (intro card_dom_upd(2) [OF radix_dom(2) [OF assms(1)]]) simp
      then have "rt_count t = of_nat (Suc (card (dom ((radix_lookup t)(k := None)))))"
        using assms(1) by (simp only: rt_inv_def)
      then have "rt_inv t'" using look t' sp by (simp add: rt_inv_def levels)
      then show ?thesis using look t' v Some by simp
    qed
  qed
  then show "rt_inv t'" "r = radix_lookup t k" "radix_lookup t' = (radix_lookup t)(k := None)" by simp_all
qed

definition radix_put :: "'v radix_tree \<Rightarrow> u64 \<Rightarrow> 'v \<Rightarrow> 'v radix_tree" where
  "radix_put t k v = fst (radix_insert (\<lambda>_. True) t k v)"

interpretation rt: map_store radix_lookup radix_put "\<lambda>t k. snd (radix_remove t k)" "\<lambda>k. unat k < 2 ^ 36"
    "\<lambda>t. length (radix_foreach t)" rt_inv
proof
  fix t :: "'v radix_tree" and k v
  assume inv: "rt_inv t"
  obtain r t' where rem: "radix_remove t k = (r, t')" by fastforce
  show "rt_inv (snd (radix_remove t k))" "radix_lookup (snd (radix_remove t k)) = (radix_lookup t)(k := None)"
    using radix_remove_spec [OF inv rem] rem by simp_all
  show "finite (dom (radix_lookup t))" "length (radix_foreach t) = card (dom (radix_lookup t))"
    using radix_dom [OF inv] by simp_all
  assume k: "unat k < 2 ^ 36"
  obtain t' ok where ins: "radix_insert (\<lambda>_. True) t k v = (t', ok)" by fastforce
  show "rt_inv (radix_put t k v)" "radix_lookup (radix_put t k v) = (radix_lookup t)(k \<mapsto> v)"
    using radix_insert_spec [OF inv ins] ins k by (simp_all add: radix_put_def)
qed


subsection \<open>Properties\<close>

text \<open>
  C14. The radix tree is a finite map on the keys below \<open>2^36\<close>.  An insertion either succeeds
  and maps the key to the value and nothing else, or fails and leaves every lookup as it was;
  it fails only for a key out of range or when a node cannot be allocated.  A removal returns
  the old value and unmaps the key and nothing else, although it prunes emptied nodes.  The
  counter is the number of keys.
\<close>

theorem radix_is_map:
  assumes "rt_inv t"
  shows "(case radix_insert alloc t k v of (t', ok) \<Rightarrow> rt_inv t' \<and>
       radix_lookup t' = (if ok then (radix_lookup t)(k \<mapsto> v) else radix_lookup t) \<and>
       (k > RADIX_MAX_KEY \<longrightarrow> \<not> ok) \<and> ((\<forall>l. alloc l) \<and> k \<le> RADIX_MAX_KEY \<longrightarrow> ok)) \<and>
     (case radix_remove t k of (old, t') \<Rightarrow> rt_inv t' \<and> old = radix_lookup t k \<and>
       radix_lookup t' = (radix_lookup t)(k := None)) \<and>
     radix_count t = of_nat (card (dom (radix_lookup t)))"
proof -
  obtain t1 ok where ins: "radix_insert alloc t k v = (t1, ok)" by fastforce
  obtain old t2 where rem: "radix_remove t k = (old, t2)" by fastforce
  have "k \<le> RADIX_MAX_KEY \<longleftrightarrow> unat k < 2 ^ 36" using max_key [of k] by (metis not_less)
  then show ?thesis
    using radix_insert_spec [OF assms ins] radix_remove_spec [OF assms rem] ins rem assms max_key [of k]
    by (auto simp: radix_count_def rt_inv_def)
qed

lemma radix_lookup_init [simp]: "radix_lookup radix_init = Map.empty"
  by (simp add: fun_eq_iff radix_lookup_def radix_init_def)

lemma rt_inv_init: "rt_inv radix_init"
  unfolding rt_inv_def radix_lookup_init by (simp add: radix_init_def)

theorem radix_is_map_witness:
  "radix_lookup (fst (radix_insert (\<lambda>_. True) radix_init 70000 ''page'')) 70000 = Some ''page''"
proof -
  have "(70000 :: u64) \<le> RADIX_MAX_KEY" using max_key [of 70000] by (simp add: not_less [symmetric])
  then show ?thesis
    using radix_is_map [OF rt_inv_init, where alloc = "\<lambda>_. True" and k = 70000 and v = "''page''"] by (auto simp: split_beta)
qed

text \<open>
  C25. The iteration visits the entries in strictly ascending key order and visits exactly the
  entries of the map.
\<close>

theorem radix_foreach_ascending:
  assumes "rt_inv t"
  shows "sorted_wrt (<) (map fst (radix_foreach t)) \<and> map_of (radix_foreach t) = radix_lookup t \<and>
     set (radix_foreach t) = {(k, v). radix_lookup t k = Some v}"
  using radix_foreach_spec [OF assms] radix_dom(4) [OF assms] by simp

theorem radix_foreach_ascending_witness:
  "set (radix_foreach (radix_put (radix_put radix_init 9 ''b'') 4 ''a'')) = {(4, ''a''), (9, ''b'')}"
proof -
  have inv: "rt_inv (radix_put radix_init 9 ''b'')" by (rule rt.inv_put [OF rt_inv_init]) simp
  have "radix_lookup (radix_put (radix_put radix_init 9 ''b'') 4 ''a'') = [9 \<mapsto> ''b'', 4 \<mapsto> ''a'']"
    by (simp add: rt.get_put inv rt_inv_init)
  then show ?thesis
    using radix_foreach_ascending [OF rt.inv_put [OF inv, of 4 "''a''"]] by (auto split: if_splits)
qed

end
