(* ===== verification/Pmm.thy ===== *)
theory Pmm
  imports Kmath Bit_Store
begin

text \<open>
  \<open>kernel/memory/pmm.c\<close> with the constants of \<open>memory_layout.h\<close>: the physical page allocator.
  The statics are one record.  The memory map is the list of its descriptors (the code reads
  \<open>map_size / descriptor_size\<close> of them from \<open>map_base\<close>).  A kernel panic is the result
  \<open>Inl msg\<close>.  A set bit of the byte bitmap means that the page is in use.
\<close>

type_synonym 'a or_panic = "string + 'a"

definition PAGE_SIZE :: u64 where "PAGE_SIZE = 4096"
definition PAGE_MASK :: u64 where "PAGE_MASK = PAGE_SIZE - 1"
definition PAGE_SHIFT :: nat where "PAGE_SHIFT = 12"
definition LOW_MEMORY_RESERVED_END :: u64 where "LOW_MEMORY_RESERVED_END = 0x100000"

definition PAGE_ALIGN_DOWN :: "u64 \<Rightarrow> u64" where
  "PAGE_ALIGN_DOWN x = x AND NOT PAGE_MASK"

definition PAGE_ALIGN_UP :: "u64 \<Rightarrow> u64" where
  "PAGE_ALIGN_UP x = (x + PAGE_MASK) AND NOT PAGE_MASK"

definition EFI_CONVENTIONAL_MEMORY :: u32 where "EFI_CONVENTIONAL_MEMORY = 7"

definition efi_type_is_ram :: "u32 \<Rightarrow> bool" where
  "efi_type_is_ram type \<longleftrightarrow> type \<in> {1, 2, 3, 4, 5, 6, EFI_CONVENTIONAL_MEMORY, 9, 10}"

definition PMM_INVALID_PAGE :: u64 where "PMM_INVALID_PAGE = 0"

record efi_desc =
  d_type :: u32
  d_physical_start :: u64
  d_number_of_pages :: u64

record boot_info =
  bi_address :: u64
  bi_sizeof :: u64
  bi_descs :: "efi_desc list"
  bi_map_base :: u64
  bi_map_size :: u64
  bi_kernel_base :: u64
  bi_kernel_size :: u64
  bi_fb_base :: u64
  bi_fb_size :: u64

record pmm =
  pm_bitmap :: "u8 list"
  pm_bitmap_bytes :: u64
  pm_total_pages :: u64
  pm_free_pages :: u64
  pm_reserved_pages :: u64
  pm_bitmap_phys :: u64
  pm_bitmap_pages :: u64
  pm_lowest_page :: u64
  pm_highest_addr :: u64

definition bit_set :: "u64 \<Rightarrow> pmm \<Rightarrow> pmm" where
  "bit_set page pm = pm\<lparr>pm_bitmap := (pm_bitmap pm)
     [unat (drop_bit 3 page) := pm_bitmap pm ! unat (drop_bit 3 page) OR push_bit (unat (page AND 7)) 1]\<rparr>"

definition bit_clear :: "u64 \<Rightarrow> pmm \<Rightarrow> pmm" where
  "bit_clear page pm = pm\<lparr>pm_bitmap := (pm_bitmap pm)
     [unat (drop_bit 3 page) := pm_bitmap pm ! unat (drop_bit 3 page) AND NOT (push_bit (unat (page AND 7)) 1)]\<rparr>"

definition bit_test :: "pmm \<Rightarrow> u64 \<Rightarrow> bool" where
  "bit_test pm page \<longleftrightarrow> drop_bit (unat (page AND 7)) (pm_bitmap pm ! unat (drop_bit 3 page)) AND 1 = 1"

definition reserve_page :: "nat \<Rightarrow> pmm \<Rightarrow> pmm" where
  "reserve_page p pm =
     (if \<not> bit_test pm (of_nat p)
      then (let pm = bit_set (of_nat p) pm in
            if pm_free_pages pm \<noteq> 0 then pm\<lparr>pm_free_pages := pm_free_pages pm - 1\<rparr> else pm)
      else pm)"

definition reserve_range :: "u64 \<Rightarrow> u64 \<Rightarrow> pmm \<Rightarrow> pmm" where
  "reserve_range start size1 pm =
     (if size1 = 0 then pm
      else
        (let first = drop_bit PAGE_SHIFT (PAGE_ALIGN_DOWN start);
             last1 = drop_bit PAGE_SHIFT (PAGE_ALIGN_UP (start + size1))
         in fold reserve_page [unat first..<min (unat last1) (unat (pm_total_pages pm))] pm))"

definition highest_ram :: "efi_desc list \<Rightarrow> u64" where
  "highest_ram ds =
     fold (\<lambda>d highest.
        if \<not> efi_type_is_ram (d_type d) then highest
        else (let end1 = d_physical_start d + d_number_of_pages d * PAGE_SIZE in
              if end1 > highest then end1 else highest)) ds 0"

fun bitmap_region :: "u64 \<Rightarrow> efi_desc list \<Rightarrow> u64" where
  "bitmap_region pages [] = 0"
| "bitmap_region pages (d # ds) =
     (if d_type d \<noteq> EFI_CONVENTIONAL_MEMORY then bitmap_region pages ds
      else if d_number_of_pages d \<ge> pages \<and> d_physical_start d \<ge> LOW_MEMORY_RESERVED_END
      then d_physical_start d
      else bitmap_region pages ds)"

definition free_page_init :: "nat \<Rightarrow> pmm \<Rightarrow> pmm" where
  "free_page_init p pm =
     (if bit_test pm (of_nat p)
      then (bit_clear (of_nat p) pm)\<lparr>pm_free_pages := pm_free_pages pm + 1\<rparr>
      else pm)"

definition free_desc :: "efi_desc \<Rightarrow> pmm \<Rightarrow> pmm" where
  "free_desc d pm =
     (if d_type d \<noteq> EFI_CONVENTIONAL_MEMORY then pm
      else
        (let first = drop_bit PAGE_SHIFT (d_physical_start d);
             last1 = first + d_number_of_pages d
         in fold free_page_init [unat first..<min (unat last1) (unat (pm_total_pages pm))] pm))"

definition low_page :: nat where
  "low_page = unat (drop_bit PAGE_SHIFT LOW_MEMORY_RESERVED_END)"

definition pmm_init :: "boot_info \<Rightarrow> pmm or_panic" where
  "pmm_init bi =
     (let highest = highest_ram (bi_descs bi);
          total = drop_bit PAGE_SHIFT highest;
          bytes = (total + 7) div 8;
          pages = drop_bit PAGE_SHIFT (PAGE_ALIGN_UP bytes);
          phys = bitmap_region pages (bi_descs bi)
      in if phys = 0 then Inl ''pmm: no region for bitmap''
         else
           (let pm = \<lparr>pm_bitmap = map (\<lambda>b. 0xFF) [0..<unat bytes], pm_bitmap_bytes = bytes,
                      pm_total_pages = total, pm_free_pages = 0, pm_reserved_pages = 0, pm_bitmap_phys = phys,
                      pm_bitmap_pages = pages, pm_lowest_page = 0, pm_highest_addr = highest\<rparr>;
                pm = fold free_desc (bi_descs bi) pm;
                pm = reserve_range 0 LOW_MEMORY_RESERVED_END pm;
                pm = reserve_range (bi_kernel_base bi) (bi_kernel_size bi) pm;
                pm = reserve_range (bi_address bi) (bi_sizeof bi) pm;
                pm = reserve_range (bi_map_base bi) (bi_map_size bi) pm;
                pm = reserve_range (bi_fb_base bi) (bi_fb_size bi) pm;
                pm = reserve_range phys (pages * PAGE_SIZE) pm;
                pm = pm\<lparr>pm_reserved_pages := pm_total_pages pm - pm_free_pages pm\<rparr>
            in Inr (case scan_from (\<lambda>p. \<not> bit_test pm (of_nat p)) low_page (unat (pm_total_pages pm)) of
                      Some p \<Rightarrow> pm\<lparr>pm_lowest_page := push_bit PAGE_SHIFT (of_nat p)\<rparr>
                    | None \<Rightarrow> pm\<lparr>pm_lowest_page := 0\<rparr>)))"

definition pmm_alloc_page :: "pmm \<Rightarrow> u64 \<times> pmm" where
  "pmm_alloc_page pm =
     (case scan_from (\<lambda>p. \<not> bit_test pm (of_nat p)) low_page (unat (pm_total_pages pm)) of
        Some p \<Rightarrow> (push_bit PAGE_SHIFT (of_nat p),
                   (bit_set (of_nat p) pm)\<lparr>pm_free_pages := pm_free_pages pm - 1\<rparr>)
      | None \<Rightarrow> (PMM_INVALID_PAGE, pm))"

function contig_run :: "pmm \<Rightarrow> u64 \<Rightarrow> u64 \<Rightarrow> nat \<Rightarrow> nat" where
  "contig_run pm p n run =
     (if run < unat n \<and> \<not> bit_test pm (p + of_nat run) then contig_run pm p n (Suc run) else run)"
  by pat_completeness auto
termination by (relation "measure (\<lambda>(pm, p, n, run). unat n - run)") auto

declare contig_run.simps [simp del]

text \<open>
  The search loop of \<open>pmm_alloc_contig\<close>.  Its variable is the word \<open>p\<close>; \<open>p + count\<close> and the
  two increments wrap.  \<open>None\<close> is a search that never returns.
\<close>

partial_function (option) contig_search :: "pmm \<Rightarrow> u64 \<Rightarrow> u64 \<Rightarrow> u64 option option" where
  "contig_search pm n p =
     (if p + n \<le> pm_total_pages pm
      then (let run = contig_run pm p n 0 in
            if run = unat n then Some (Some p) else contig_search pm n (p + of_nat run + 1))
      else Some None)"

definition pmm_alloc_contig :: "u64 \<Rightarrow> pmm \<Rightarrow> (u64 \<times> pmm) option" where
  "pmm_alloc_contig n pm =
     (if n = 0 then Some (PMM_INVALID_PAGE, pm)
      else if n = 1 then Some (pmm_alloc_page pm)
      else
        map_option
          (\<lambda>r. case r of
             None \<Rightarrow> (PMM_INVALID_PAGE, pm)
           | Some p \<Rightarrow> (push_bit PAGE_SHIFT p,
               (fold (\<lambda>i. bit_set (p + of_nat i)) [0..<unat n] pm)\<lparr>pm_free_pages := pm_free_pages pm - n\<rparr>))
          (contig_search pm n (of_nat low_page)))"

definition pmm_free_page :: "u64 \<Rightarrow> pmm \<Rightarrow> pmm or_panic" where
  "pmm_free_page pa pm =
     (if pa = 0 \<or> pa AND PAGE_MASK \<noteq> 0 then Inl ''pmm: invalid free''
      else if pa < LOW_MEMORY_RESERVED_END then Inl ''pmm: free of reserved low memory''
      else
        (let page = drop_bit PAGE_SHIFT pa in
         if page \<ge> pm_total_pages pm then Inl ''pmm: free out of range''
         else if \<not> bit_test pm page then Inl ''pmm: double free''
         else Inr ((bit_clear page pm)\<lparr>pm_free_pages := pm_free_pages pm + 1\<rparr>)))"

definition pmm_free_contig :: "u64 \<Rightarrow> u64 \<Rightarrow> pmm \<Rightarrow> pmm or_panic" where
  "pmm_free_contig pa n pm =
     fold (\<lambda>i r. case r of Inl e \<Rightarrow> Inl e | Inr pm \<Rightarrow> pmm_free_page (pa + of_nat i * PAGE_SIZE) pm) [0..<unat n] (Inr pm)"

definition pmm_used_pages :: "pmm \<Rightarrow> u64" where
  "pmm_used_pages pm = pm_total_pages pm - pm_free_pages pm"


subsection \<open>The page bits as a bit store\<close>

definition pmm_shape :: "pmm \<Rightarrow> bool" where
  "pmm_shape pm \<longleftrightarrow> unat (pm_total_pages pm) < 2 ^ 52 \<and> unat (pm_total_pages pm) \<le> 8 * length (pm_bitmap pm)"

definition page_used :: "pmm \<Rightarrow> nat \<Rightarrow> bool" where
  "page_used pm p \<longleftrightarrow> bit_test pm (of_nat p)"

abbreviation set_page :: "pmm \<Rightarrow> nat \<Rightarrow> pmm" where
  "set_page pm p \<equiv> bit_set (of_nat p) pm"

abbreviation clear_page :: "pmm \<Rightarrow> nat \<Rightarrow> pmm" where
  "clear_page pm p \<equiv> bit_clear (of_nat p) pm"

abbreviation page_count :: "pmm \<Rightarrow> nat" where
  "page_count pm \<equiv> unat (pm_total_pages pm)"

abbreviation used_pages :: "pmm \<Rightarrow> nat set" where
  "used_pages \<equiv> used_bits page_used page_count"

text \<open>The invariant: the bitmap covers every page and the free counter counts the clear bits.\<close>

definition pmm_inv :: "pmm \<Rightarrow> bool" where
  "pmm_inv pm \<longleftrightarrow> pmm_shape pm \<and> unat (pm_free_pages pm) + card (used_pages pm) = page_count pm"

lemma page_lt: "p < (2 :: nat) ^ 52 \<Longrightarrow> p < 2 ^ LENGTH(64)"
  by simp

lemma page_byte: "p < 2 ^ 52 \<Longrightarrow> unat (drop_bit 3 (of_nat p :: u64)) = p div 8"
  by (simp add: unat_shift_right)

lemma page_bit: "p < 2 ^ 52 \<Longrightarrow> unat ((of_nat p :: u64) AND 7) = p mod 8"
  using unat_and_mask [of "of_nat p :: u64" 3] by (simp add: mask_eq_exp_minus_1)

lemma page_used_iff: "p < 2 ^ 52 \<Longrightarrow> page_used pm p = bit (pm_bitmap pm ! (p div 8)) (p mod 8)"
  by (simp only: page_used_def bit_test_def page_byte page_bit and_one_eq_bit bit_drop_bit_eq) simp

lemma bit_set_bitmap:
  "p < 2 ^ 52 \<Longrightarrow> pm_bitmap (set_page pm p) = (pm_bitmap pm)[p div 8 := pm_bitmap pm ! (p div 8) OR 2 ^ (p mod 8)]"
  by (simp add: bit_set_def page_byte page_bit push_bit_of_1)

lemma bit_clear_bitmap:
  "p < 2 ^ 52 \<Longrightarrow> pm_bitmap (clear_page pm p) = (pm_bitmap pm)[p div 8 := pm_bitmap pm ! (p div 8) AND NOT (2 ^ (p mod 8))]"
  by (simp add: bit_clear_def page_byte page_bit push_bit_of_1)

lemma bit_set_fields [simp]:
  "pm_total_pages (bit_set p pm) = pm_total_pages pm" "pm_free_pages (bit_set p pm) = pm_free_pages pm"
  "length (pm_bitmap (bit_set p pm)) = length (pm_bitmap pm)"
  by (simp_all add: bit_set_def)

lemma bit_clear_fields [simp]:
  "pm_total_pages (bit_clear p pm) = pm_total_pages pm" "pm_free_pages (bit_clear p pm) = pm_free_pages pm"
  "length (pm_bitmap (bit_clear p pm)) = length (pm_bitmap pm)"
  by (simp_all add: bit_clear_def)

lemma same_page: "(p :: nat) div 8 = q div 8 \<Longrightarrow> (p mod 8 = q mod 8) = (p = q)"
  by (metis div_mult_mod_eq)

lemma pmm_shape_byte: "pmm_shape pm \<Longrightarrow> p < page_count pm \<Longrightarrow> p div 8 < length (pm_bitmap pm) \<and> p < 2 ^ 52"
  by (simp add: pmm_shape_def div_less_iff_less_mult)

lemma page_used_set:
  assumes "pmm_shape pm" and "p < page_count pm" and "q < page_count pm"
  shows "page_used (set_page pm p) q = (q = p \<or> page_used pm q)"
proof (cases "q div 8 = p div 8")
  case True
  then show ?thesis using assms pmm_shape_byte [OF assms(1)] same_page [OF True]
    by (simp add: page_used_iff bit_set_bitmap bit_or_pow2 disj_commute)
next
  case False
  then have "q \<noteq> p" by auto
  then show ?thesis using assms pmm_shape_byte [OF assms(1)] False
    by (simp add: page_used_iff bit_set_bitmap)
qed

lemma page_used_clear:
  assumes "pmm_shape pm" and "p < page_count pm" and "q < page_count pm"
  shows "page_used (clear_page pm p) q = (q \<noteq> p \<and> page_used pm q)"
proof (cases "q div 8 = p div 8")
  case True
  then show ?thesis using assms pmm_shape_byte [OF assms(1)] same_page [OF True]
    by (simp add: page_used_iff bit_clear_bitmap bit_and_not_pow2 conj_commute)
next
  case False
  then have "q \<noteq> p" by auto
  then show ?thesis using assms pmm_shape_byte [OF assms(1)] False
    by (simp add: page_used_iff bit_clear_bitmap)
qed

interpretation pg: bit_store page_used set_page clear_page page_count pmm_shape
  by unfold_locales (simp_all add: page_used_set page_used_clear pmm_shape_def)

lemma used_pages_free [simp]:
  "used_pages (pm\<lparr>pm_free_pages := n\<rparr>) = used_pages pm"
  "used_pages (pm\<lparr>pm_reserved_pages := n\<rparr>) = used_pages pm"
  "used_pages (pm\<lparr>pm_lowest_page := n\<rparr>) = used_pages pm"
  by (simp_all add: used_bits_def page_used_def bit_test_def)

lemma pmm_shape_free [simp]:
  "pmm_shape (pm\<lparr>pm_free_pages := n\<rparr>) = pmm_shape pm"
  "pmm_shape (pm\<lparr>pm_reserved_pages := n\<rparr>) = pmm_shape pm"
  "pmm_shape (pm\<lparr>pm_lowest_page := n\<rparr>) = pmm_shape pm"
  by (simp_all add: pmm_shape_def)

lemma pmm_inv_upd [simp]:
  "pmm_inv (pm\<lparr>pm_reserved_pages := n\<rparr>) = pmm_inv pm" "pmm_inv (pm\<lparr>pm_lowest_page := n\<rparr>) = pmm_inv pm"
  by (simp_all add: pmm_inv_def)

lemma pmm_inv_shape: "pmm_inv pm \<Longrightarrow> pmm_shape pm"
  by (simp add: pmm_inv_def)

text \<open>Taking and releasing one page, with the counter.\<close>

lemma take_page:
  assumes "pmm_inv pm" and "p < page_count pm" and "\<not> page_used pm p"
  defines "pm1 \<equiv> (set_page pm p)\<lparr>pm_free_pages := pm_free_pages pm - 1\<rparr>"
  shows "pmm_inv pm1" "used_pages pm1 = insert p (used_pages pm)" "pm_free_pages pm \<noteq> 0"
proof -
  note sh = pmm_inv_shape [OF assms(1)]
  have c: "card (used_pages (set_page pm p)) = Suc (card (used_pages pm))"
    by (rule pg.card_used_set1 [OF sh assms(2,3)])
  have "card (used_pages (set_page pm p)) \<le> page_count pm"
    using card_used_bits_le [of page_used page_count "set_page pm p"] by simp
  then have n0: "unat (pm_free_pages pm) \<noteq> 0" using c assms(1) unfolding pmm_inv_def by linarith
  then show nz: "pm_free_pages pm \<noteq> 0" by auto
  show "pmm_inv pm1"
    using assms(1) c n0 pg.inv_set1 [OF sh assms(2)] unat_dec [OF nz] by (simp add: pm1_def pmm_inv_def)
  show "used_pages pm1 = insert p (used_pages pm)"
    using pg.used_set1 [OF sh assms(2)] by (simp add: pm1_def)
qed

lemma release_page:
  assumes "pmm_inv pm" and "p < page_count pm" and "page_used pm p"
  defines "pm1 \<equiv> (clear_page pm p)\<lparr>pm_free_pages := pm_free_pages pm + 1\<rparr>"
  shows "pmm_inv pm1" "used_pages pm1 = used_pages pm - {p}"
proof -
  note sh = pmm_inv_shape [OF assms(1)]
  have c: "Suc (card (used_pages (clear_page pm p))) = card (used_pages pm)"
    by (rule pg.card_used_clear1 [OF sh assms(2,3)])
  have "unat (pm_free_pages pm) + unat (1 :: u64) < 2 ^ LENGTH(64)"
    using assms(1) by (simp add: pmm_inv_def pmm_shape_def)
  then have "unat (pm_free_pages pm + 1) = Suc (unat (pm_free_pages pm))"
    by (simp add: unat_plus_no_wrap)
  then show "pmm_inv pm1"
    using assms(1) c pg.inv_clear1 [OF sh assms(2)] by (simp add: pm1_def pmm_inv_def)
  show "used_pages pm1 = used_pages pm - {p}"
    using pg.used_clear1 [OF sh assms(2)] by (simp add: pm1_def)
qed

lemma used_pages_iff: "p < page_count pm \<Longrightarrow> (p \<in> used_pages pm) = page_used pm p"
  by (simp add: used_bits_def)


subsection \<open>The loops of the initialisation\<close>

lemma reserve_page_inv:
  assumes "pmm_inv pm" and "p < page_count pm"
  shows "pmm_inv (reserve_page p pm) \<and> used_pages (reserve_page p pm) = insert p (used_pages pm)
     \<and> pm_total_pages (reserve_page p pm) = pm_total_pages pm"
proof (cases "page_used pm p")
  case True
  then have "reserve_page p pm = pm" by (simp add: reserve_page_def page_used_def)
  moreover have "p \<in> used_pages pm" using True assms(2) by (simp add: used_bits_def)
  ultimately show ?thesis using assms(1) by (simp add: insert_absorb)
next
  case False
  note t = take_page [OF assms False]
  have "reserve_page p pm = (set_page pm p)\<lparr>pm_free_pages := pm_free_pages pm - 1\<rparr>"
    using False t(3) by (simp add: reserve_page_def page_used_def Let_def)
  then show ?thesis using t(1,2) by simp
qed

lemma fold_reserve_inv:
  "pmm_inv pm \<Longrightarrow> set ps \<subseteq> {..<page_count pm} \<Longrightarrow>
     pmm_inv (fold reserve_page ps pm) \<and> used_pages (fold reserve_page ps pm) = used_pages pm \<union> set ps
     \<and> pm_total_pages (fold reserve_page ps pm) = pm_total_pages pm"
proof (induction ps arbitrary: pm)
  case Nil
  then show ?case by simp
next
  case (Cons p ps)
  then have "p < page_count pm" by simp
  note r = reserve_page_inv [OF Cons.prems(1) this]
  have "set ps \<subseteq> {..<page_count (reserve_page p pm)}" using Cons.prems r by simp
  from Cons.IH [OF _ this] r show ?case by simp
qed

text \<open>The pages that \<open>reserve_range start size\<close> and a descriptor cover, as the code computes them.\<close>

definition reserved_pages :: "u64 \<Rightarrow> u64 \<Rightarrow> nat set" where
  "reserved_pages start size1 =
     (if size1 = 0 then {}
      else {unat (drop_bit PAGE_SHIFT (PAGE_ALIGN_DOWN start))..<unat (drop_bit PAGE_SHIFT (PAGE_ALIGN_UP (start + size1)))})"

definition conventional_pages :: "efi_desc \<Rightarrow> nat set" where
  "conventional_pages d =
     (if d_type d \<noteq> EFI_CONVENTIONAL_MEMORY then {}
      else {unat (drop_bit PAGE_SHIFT (d_physical_start d))..<
            unat (drop_bit PAGE_SHIFT (d_physical_start d) + d_number_of_pages d)})"

lemma reserve_range_inv:
  assumes "pmm_inv pm"
  shows "pmm_inv (reserve_range s n pm)
     \<and> used_pages (reserve_range s n pm) = used_pages pm \<union> (reserved_pages s n \<inter> {..<page_count pm})
     \<and> pm_total_pages (reserve_range s n pm) = pm_total_pages pm"
proof (cases "n = 0")
  case True
  then show ?thesis using assms by (simp add: reserve_range_def reserved_pages_def)
next
  case False
  define a where "a = unat (drop_bit PAGE_SHIFT (PAGE_ALIGN_DOWN s))"
  define b where "b = unat (drop_bit PAGE_SHIFT (PAGE_ALIGN_UP (s + n)))"
  have eq: "reserve_range s n pm = fold reserve_page [a..<min b (page_count pm)] pm"
    using False by (simp add: reserve_range_def a_def b_def)
  have "{a..<min b (page_count pm)} = reserved_pages s n \<inter> {..<page_count pm}"
    using False by (auto simp: reserved_pages_def a_def b_def)
  moreover have "set [a..<min b (page_count pm)] \<subseteq> {..<page_count pm}" by auto
  ultimately show ?thesis using fold_reserve_inv [OF assms] unfolding eq by (simp only: set_upt)
qed

lemma free_page_init_inv:
  assumes "pmm_inv pm" and "p < page_count pm"
  shows "pmm_inv (free_page_init p pm) \<and> used_pages (free_page_init p pm) = used_pages pm - {p}
     \<and> pm_total_pages (free_page_init p pm) = pm_total_pages pm"
proof (cases "page_used pm p")
  case True
  then have "free_page_init p pm = (clear_page pm p)\<lparr>pm_free_pages := pm_free_pages pm + 1\<rparr>"
    by (simp add: free_page_init_def page_used_def)
  then show ?thesis using release_page [OF assms True] by simp
next
  case False
  then have "free_page_init p pm = pm" by (simp add: free_page_init_def page_used_def)
  moreover have "p \<notin> used_pages pm" using False by (simp add: used_bits_def)
  ultimately show ?thesis using assms(1) by simp
qed

lemma fold_free_inv:
  "pmm_inv pm \<Longrightarrow> set ps \<subseteq> {..<page_count pm} \<Longrightarrow>
     pmm_inv (fold free_page_init ps pm) \<and> used_pages (fold free_page_init ps pm) = used_pages pm - set ps
     \<and> pm_total_pages (fold free_page_init ps pm) = pm_total_pages pm"
proof (induction ps arbitrary: pm)
  case Nil
  then show ?case by simp
next
  case (Cons p ps)
  then have "p < page_count pm" by simp
  note r = free_page_init_inv [OF Cons.prems(1) this]
  have "set ps \<subseteq> {..<page_count (free_page_init p pm)}" using Cons.prems r by simp
  from Cons.IH [OF _ this] r show ?case by auto
qed

lemma free_desc_inv:
  assumes "pmm_inv pm"
  shows "pmm_inv (free_desc d pm) \<and> used_pages (free_desc d pm) = used_pages pm - conventional_pages d
     \<and> pm_total_pages (free_desc d pm) = pm_total_pages pm"
proof (cases "d_type d = EFI_CONVENTIONAL_MEMORY")
  case False
  then show ?thesis using assms by (simp add: free_desc_def conventional_pages_def)
next
  case True
  define a where "a = unat (drop_bit PAGE_SHIFT (d_physical_start d))"
  define b where "b = unat (drop_bit PAGE_SHIFT (d_physical_start d) + d_number_of_pages d)"
  have eq: "free_desc d pm = fold free_page_init [a..<min b (page_count pm)] pm"
    using True by (simp add: free_desc_def a_def b_def Let_def)
  have c: "conventional_pages d = {a..<b}" using True by (simp add: conventional_pages_def a_def b_def)
  have "used_pages pm - {a..<min b (page_count pm)} = used_pages pm - conventional_pages d"
    unfolding c by (auto simp: used_bits_def)
  moreover have "set [a..<min b (page_count pm)] \<subseteq> {..<page_count pm}" by auto
  ultimately show ?thesis using fold_free_inv [OF assms] unfolding eq by (simp only: set_upt)
qed

lemma fold_free_desc_inv:
  "pmm_inv pm \<Longrightarrow>
     pmm_inv (fold free_desc ds pm)
     \<and> used_pages (fold free_desc ds pm) = used_pages pm - (\<Union>d\<in>set ds. conventional_pages d)
     \<and> pm_total_pages (fold free_desc ds pm) = pm_total_pages pm"
proof (induction ds arbitrary: pm)
  case Nil
  then show ?case by simp
next
  case (Cons d ds)
  note r = free_desc_inv [OF Cons.prems, of d]
  from Cons.IH [of "free_desc d pm"] r show ?case by auto
qed

text \<open>Without wrap-around the reserved pages are those that meet the byte range.\<close>

definition range_pages :: "u64 \<Rightarrow> u64 \<Rightarrow> nat set" where
  "range_pages start size1 = (\<lambda>a. a div 4096) ` {unat start..<unat start + unat size1}"

lemma page_align_down: "unat (PAGE_ALIGN_DOWN x) div 4096 = unat x div 4096"
proof -
  have "unat (PAGE_ALIGN_DOWN x) = unat x - unat x mod 4096"
    using unat_and_not_mask [of x 12] by (simp add: PAGE_ALIGN_DOWN_def PAGE_MASK_def PAGE_SIZE_def mask_eq_exp_minus_1)
  also have "\<dots> = unat x div 4096 * 4096" by (rule minus_mod_eq_div_mult)
  finally show ?thesis by simp
qed

lemma page_align_up:
  assumes "unat x + 4095 < 2 ^ 64"
  shows "unat (PAGE_ALIGN_UP x) = (unat x + 4095) div 4096 * 4096"
proof -
  have m: "unat (x + 4095) = unat x + 4095"
    using assms unat_plus_no_wrap [of x 4095] by simp
  have "unat (PAGE_ALIGN_UP x) = unat (x + 4095) - unat (x + 4095) mod 4096"
    using unat_and_not_mask [of "x + 4095" 12] by (simp add: PAGE_ALIGN_UP_def PAGE_MASK_def PAGE_SIZE_def mask_eq_exp_minus_1)
  also have "\<dots> = unat (x + 4095) div 4096 * 4096" by (rule minus_mod_eq_div_mult)
  finally show ?thesis by (simp only: m)
qed

lemma div_image_ivl:
  assumes "0 < n"
  shows "(\<lambda>a. a div 4096) ` {s..<s + n} = {s div 4096..<(s + n + 4095) div (4096 :: nat)}"
proof (intro set_eqI iffI)
  fix p assume "p \<in> (\<lambda>a. a div 4096) ` {s..<s + n}"
  then obtain a where a: "s \<le> a" "a < s + n" "p = a div 4096" by auto
  have "p < (s + n + 4095) div 4096"
    using a(2) div_le_mono [of "a + 4096" "s + n + 4095" 4096] unfolding a(3) by simp
  then show "p \<in> {s div 4096..<(s + n + 4095) div 4096}" using a by (simp add: div_le_mono)
next
  fix p assume p: "p \<in> {s div 4096..<(s + n + 4095) div 4096}"
  then have lt: "p * 4096 < s + n"
    using p by (simp add: less_eq_div_iff_mult_less_eq Suc_le_eq [symmetric])
  show "p \<in> (\<lambda>a. a div 4096) ` {s..<s + n}"
  proof (cases "s \<le> p * 4096")
    case True
    then show ?thesis using lt by (intro image_eqI [of _ _ "p * 4096"]) auto
  next
    case False
    then have "s div 4096 = p" using p by (intro antisym) (auto simp: less_eq_div_iff_mult_less_eq div_le_mono)
    then show ?thesis using assms by (intro image_eqI [of _ _ s]) auto
  qed
qed

lemma reserved_pages_eq:
  assumes "unat s + unat n + 4095 < 2 ^ 64"
  shows "reserved_pages s n = range_pages s n"
proof (cases "n = 0")
  case True
  then show ?thesis by (simp add: reserved_pages_def range_pages_def)
next
  case False
  have sn: "unat (s + n) = unat s + unat n" using assms by (intro unat_plus_no_wrap) simp
  have "unat (drop_bit PAGE_SHIFT (PAGE_ALIGN_UP (s + n))) = (unat s + unat n + 4095) div 4096"
    using assms by (simp add: unat_shift_right PAGE_SHIFT_def page_align_up sn)
  moreover have "unat (drop_bit PAGE_SHIFT (PAGE_ALIGN_DOWN s)) = unat s div 4096"
    by (simp add: unat_shift_right PAGE_SHIFT_def page_align_down)
  ultimately show ?thesis
    using False div_image_ivl [of "unat n" "unat s"] by (simp add: reserved_pages_def range_pages_def unat_gt_0)
qed


lemma page_total_bound: "unat (drop_bit PAGE_SHIFT (x :: u64)) < 2 ^ 52"
  using unat_lt_pow [of x] by (simp add: unat_shift_right PAGE_SHIFT_def div_less_iff_less_mult)

lemma bitmap_bytes_cover:
  assumes "unat (t :: u64) < 2 ^ 52"
  shows "unat t \<le> 8 * unat ((t + 7) div 8)"
proof -
  have "unat (t + 7) = unat t + 7" using assms unat_plus_no_wrap [of t 7] by simp
  then have "unat ((t + 7) div 8) = (unat t + 7) div 8" by (simp add: unat_div)
  then show ?thesis by simp
qed

lemma all_used_inv:
  assumes "unat t < 2 ^ 52" and "pm_bitmap pm = map (\<lambda>b. 0xFF) [0..<unat ((t + 7) div 8)]"
    and "pm_total_pages pm = t" and "pm_free_pages pm = 0"
  shows "pmm_inv pm" "used_pages pm = {..<page_count pm}"
proof -
  have sh: "pmm_shape pm" using assms bitmap_bytes_cover [OF assms(1)] by (simp add: pmm_shape_def)
  have ff: "bit (0xFF :: u8) k" if "k < 8" for k
  proof -
    have "(0xFF :: u8) = mask 8" by (simp add: mask_eq_exp_minus_1)
    then show ?thesis using that by (simp only: bit_mask_iff) simp
  qed
  have "page_used pm p" if p: "p < page_count pm" for p
    using pmm_shape_byte [OF sh p] assms(2) ff [of "p mod 8"] by (simp add: page_used_iff)
  then show u: "used_pages pm = {..<page_count pm}" by (auto simp: used_bits_def)
  show "pmm_inv pm" using sh u assms(4) by (simp add: pmm_inv_def)
qed

lemma reserve_range_chain:
  "pmm_inv pm \<Longrightarrow>
     pmm_inv (fold (\<lambda>(s, n). reserve_range s n) rs pm)
     \<and> used_pages (fold (\<lambda>(s, n). reserve_range s n) rs pm)
        = used_pages pm \<union> ((\<Union>(s, n)\<in>set rs. reserved_pages s n) \<inter> {..<page_count pm})
     \<and> pm_total_pages (fold (\<lambda>(s, n). reserve_range s n) rs pm) = pm_total_pages pm"
proof (induction rs arbitrary: pm)
  case Nil
  then show ?case by simp
next
  case (Cons r rs)
  obtain a n where r: "r = (a, n)" by (cases r)
  note s = reserve_range_inv [OF Cons.prems, of a n]
  have st: "fold (\<lambda>(s, n). reserve_range s n) (r # rs) pm = fold (\<lambda>(s, n). reserve_range s n) rs (reserve_range a n pm)"
    by (simp add: r)
  show ?case
    unfolding st using Cons.IH [of "reserve_range a n pm"] s by (simp add: r) blast
qed

text \<open>What the code reserves after it has freed the conventional memory.\<close>

definition never_handed_out :: "boot_info \<Rightarrow> pmm \<Rightarrow> (u64 \<times> u64) list" where
  "never_handed_out bi pm =
     [(0, LOW_MEMORY_RESERVED_END), (bi_kernel_base bi, bi_kernel_size bi), (bi_address bi, bi_sizeof bi),
      (bi_map_base bi, bi_map_size bi), (bi_fb_base bi, bi_fb_size bi),
      (pm_bitmap_phys pm, pm_bitmap_pages pm * PAGE_SIZE)]"

lemma reserve_page_phys [simp]:
  "pm_bitmap_phys (reserve_page p pm) = pm_bitmap_phys pm" "pm_bitmap_pages (reserve_page p pm) = pm_bitmap_pages pm"
  by (simp_all add: reserve_page_def bit_set_def Let_def)

lemma fold_keeps: "(\<And>x s. f (g x s) = f s) \<Longrightarrow> f (fold g xs s) = f s"
  by (induction xs arbitrary: s) simp_all

lemma reserve_range_phys [simp]:
  "pm_bitmap_phys (reserve_range s n pm) = pm_bitmap_phys pm"
  "pm_bitmap_pages (reserve_range s n pm) = pm_bitmap_pages pm"
  by (simp_all add: reserve_range_def fold_keeps Let_def)

lemma free_desc_phys [simp]:
  "pm_bitmap_phys (free_desc d pm) = pm_bitmap_phys pm" "pm_bitmap_pages (free_desc d pm) = pm_bitmap_pages pm"
  by (simp_all add: free_desc_def fold_keeps free_page_init_def bit_clear_def Let_def)

lemma pmm_init_used:
  assumes "pmm_init bi = Inr pm"
  shows "pmm_inv pm"
    and "used_pages pm = ({..<page_count pm} - (\<Union>d\<in>set (bi_descs bi). conventional_pages d))
       \<union> ((\<Union>(s, n)\<in>set (never_handed_out bi pm). reserved_pages s n) \<inter> {..<page_count pm})"
    and "pm_reserved_pages pm = pm_total_pages pm - pm_free_pages pm"
    and "pm_total_pages pm = drop_bit PAGE_SHIFT (highest_ram (bi_descs bi))"
    and "pm_bitmap_pages pm = drop_bit PAGE_SHIFT (PAGE_ALIGN_UP ((pm_total_pages pm + 7) div 8))"
    and "pm_bitmap_phys pm = bitmap_region (pm_bitmap_pages pm) (bi_descs bi)"
proof -
  define total where "total = drop_bit PAGE_SHIFT (highest_ram (bi_descs bi))"
  define pages where "pages = drop_bit PAGE_SHIFT (PAGE_ALIGN_UP ((total + 7) div 8))"
  define phys where "phys = bitmap_region pages (bi_descs bi)"
  define pm0 where "pm0 = \<lparr>pm_bitmap = map (\<lambda>b. 0xFF) [0..<unat ((total + 7) div 8)], pm_bitmap_bytes = (total + 7) div 8,
      pm_total_pages = total, pm_free_pages = 0, pm_reserved_pages = 0, pm_bitmap_phys = phys,
      pm_bitmap_pages = pages, pm_lowest_page = 0, pm_highest_addr = highest_ram (bi_descs bi)\<rparr>"
  define pm1 where "pm1 = fold free_desc (bi_descs bi) pm0"
  define pm2 where "pm2 = fold (\<lambda>(s, n). reserve_range s n) (never_handed_out bi pm0) pm1"
  define pm3 where "pm3 = pm2\<lparr>pm_reserved_pages := pm_total_pages pm2 - pm_free_pages pm2\<rparr>"
  note fold1 = total_def [symmetric] pages_def [symmetric] phys_def [symmetric] pm0_def [symmetric] pm1_def [symmetric]
  have p2: "reserve_range phys (pages * PAGE_SIZE) (reserve_range (bi_fb_base bi) (bi_fb_size bi)
      (reserve_range (bi_map_base bi) (bi_map_size bi) (reserve_range (bi_address bi) (bi_sizeof bi)
      (reserve_range (bi_kernel_base bi) (bi_kernel_size bi) (reserve_range 0 LOW_MEMORY_RESERVED_END pm1))))) = pm2"
    by (simp add: pm2_def never_handed_out_def pm0_def)
  have "phys \<noteq> 0"
  proof
    assume z: "phys = 0"
    then show False using assms unfolding pmm_init_def Let_def fold1 by simp
  qed
  then have "pmm_init bi = Inr (case scan_from (\<lambda>p. \<not> bit_test pm3 (of_nat p)) low_page (page_count pm3) of
        Some p \<Rightarrow> pm3\<lparr>pm_lowest_page := push_bit PAGE_SHIFT (of_nat p)\<rparr> | None \<Rightarrow> pm3\<lparr>pm_lowest_page := 0\<rparr>)"
    unfolding pmm_init_def Let_def fold1 p2 pm3_def [symmetric] by (simp only: if_False)
  then obtain l where pm: "pm = pm3\<lparr>pm_lowest_page := l\<rparr>"
    using assms by (auto split: option.splits)
  have "unat total < 2 ^ 52" by (simp only: total_def page_total_bound)
  note i0 = all_used_inv [OF this, of pm0]
  have i1: "pmm_inv pm1 \<and> pm_total_pages pm1 = total \<and> used_pages pm1 = {..<page_count pm1} - (\<Union>d\<in>set (bi_descs bi). conventional_pages d)"
    using fold_free_desc_inv [of pm0 "bi_descs bi"] i0 by (simp add: pm1_def pm0_def)
  have nh: "never_handed_out bi pm = never_handed_out bi pm0"
    unfolding pm pm3_def pm2_def pm1_def never_handed_out_def by (simp add: fold_keeps)
  have pg1: "pm_bitmap_pages pm = pages" "pm_bitmap_phys pm = phys"
    unfolding pm pm3_def pm2_def pm1_def by (simp_all add: fold_keeps pm0_def split_beta)
  have i2: "pmm_inv pm2 \<and> pm_total_pages pm2 = pm_total_pages pm1 \<and> used_pages pm2 = used_pages pm1
       \<union> ((\<Union>(s, n)\<in>set (never_handed_out bi pm0). reserved_pages s n) \<inter> {..<page_count pm1})"
    unfolding pm2_def using reserve_range_chain i1 by blast
  show "pmm_inv pm" using i2 by (simp add: pm pm3_def)
  show "used_pages pm = ({..<page_count pm} - (\<Union>d\<in>set (bi_descs bi). conventional_pages d))
       \<union> ((\<Union>(s, n)\<in>set (never_handed_out bi pm). reserved_pages s n) \<inter> {..<page_count pm})"
    unfolding nh using i1 i2 by (simp add: pm pm3_def)
  show "pm_reserved_pages pm = pm_total_pages pm - pm_free_pages pm" by (simp add: pm pm3_def)
  show t: "pm_total_pages pm = drop_bit PAGE_SHIFT (highest_ram (bi_descs bi))"
    using i1 i2 by (simp add: pm pm3_def total_def)
  show "pm_bitmap_pages pm = drop_bit PAGE_SHIFT (PAGE_ALIGN_UP ((pm_total_pages pm + 7) div 8))"
    using pg1 t by (simp add: pages_def total_def)
  then show "pm_bitmap_phys pm = bitmap_region (pm_bitmap_pages pm) (bi_descs bi)"
    using pg1 by (simp add: phys_def)
qed

subsection \<open>Allocation and release\<close>

lemma low_page_256: "low_page = 256"
  by (simp add: low_page_def unat_shift_right PAGE_SHIFT_def LOW_MEMORY_RESERVED_END_def)

lemma page_address: "p < 2 ^ 52 \<Longrightarrow> unat (push_bit PAGE_SHIFT (of_nat p :: u64)) = p * 4096"
  by (simp add: PAGE_SHIFT_def push_bit_eq_mult unat_word_ariths)

lemma address_page: "p < 2 ^ 52 \<Longrightarrow> drop_bit PAGE_SHIFT (push_bit PAGE_SHIFT (of_nat p :: u64)) = of_nat p"
proof -
  assume p: "p < 2 ^ 52"
  have "unat (drop_bit PAGE_SHIFT (push_bit PAGE_SHIFT (of_nat p :: u64))) = unat (of_nat p :: u64)"
    using page_address [OF p] p by (simp only: unat_shift_right) (simp add: PAGE_SHIFT_def)
  then show ?thesis by simp
qed

lemma pmm_alloc_page_cases:
  assumes "pmm_inv pm"
  obtains p where "256 \<le> p" "p < page_count pm" "p < 2 ^ 52" "p \<notin> used_pages pm" "{256..<p} \<subseteq> used_pages pm"
      "pmm_alloc_page pm = (push_bit PAGE_SHIFT (of_nat p), (set_page pm p)\<lparr>pm_free_pages := pm_free_pages pm - 1\<rparr>)"
  | "{256..<page_count pm} \<subseteq> used_pages pm" "pmm_alloc_page pm = (0, pm)"
proof (cases "scan_from (\<lambda>p. \<not> page_used pm p) 256 (page_count pm)")
  case None
  show ?thesis
    using that(2) pg.no_free [OF None] None
    by (simp add: pmm_alloc_page_def low_page_256 page_used_def PMM_INVALID_PAGE_def)
next
  case (Some p)
  note f = pg.first_free [OF Some order_refl]
  have "p < 2 ^ 52" using f(2) assms by (simp add: pmm_inv_def pmm_shape_def)
  then show ?thesis
    using that(1) [OF f(1,2) _ f(4,5)] Some by (simp add: pmm_alloc_page_def low_page_256 page_used_def)
qed


lemma pmm_free_page_ok:
  assumes "pmm_inv pm" and "256 \<le> p" and "p < page_count pm" and "page_used pm p"
  shows "\<exists>pm1. pmm_free_page (push_bit PAGE_SHIFT (of_nat p)) pm = Inr pm1 \<and> pmm_inv pm1
     \<and> used_pages pm1 = used_pages pm - {p} \<and> pm_total_pages pm1 = pm_total_pages pm"
proof -
  have p: "p < 2 ^ 52" using assms(1,3) by (simp add: pmm_inv_def pmm_shape_def)
  define a where "a = push_bit PAGE_SHIFT (of_nat p :: u64)"
  have ua: "unat a = p * 4096" using page_address [OF p] by (simp add: a_def)
  have z: "a \<noteq> 0" using ua assms(2) by auto
  have "unat (a AND PAGE_MASK) = 0"
    using unat_and_mask [of a 12] ua by (simp add: PAGE_MASK_def PAGE_SIZE_def mask_eq_exp_minus_1)
  then have m: "a AND PAGE_MASK = 0" by (simp add: unat_eq_zero)
  have l: "\<not> a < LOW_MEMORY_RESERVED_END"
    using ua assms(2) by (simp add: word_less_unat LOW_MEMORY_RESERVED_END_def)
  have d: "drop_bit PAGE_SHIFT a = of_nat p" using address_page [OF p] by (simp add: a_def)
  have t: "\<not> pm_total_pages pm \<le> of_nat p" using assms(3) p by (simp add: word_le_unat not_le)
  have "pmm_free_page a pm = Inr ((clear_page pm p)\<lparr>pm_free_pages := pm_free_pages pm + 1\<rparr>)"
    using z m l t assms(4) by (simp add: pmm_free_page_def d page_used_def Let_def)
  then show ?thesis using release_page [OF assms(1,3,4)] by (simp add: a_def)
qed

text \<open>The addresses that may be freed.\<close>

definition freeable :: "pmm \<Rightarrow> u64 \<Rightarrow> bool" where
  "freeable pm a \<longleftrightarrow> 4096 dvd unat a \<and> 256 \<le> unat a div 4096 \<and> unat a div 4096 \<in> used_pages pm"

lemma pmm_free_page_freeable:
  assumes "pmm_inv pm" and "freeable pm a"
  shows "\<exists>pm1. pmm_free_page a pm = Inr pm1 \<and> pmm_inv pm1 \<and> used_pages pm1 = used_pages pm - {unat a div 4096}"
proof -
  define p where "p = unat a div 4096"
  have p: "256 \<le> p" "p \<in> used_pages pm" "unat a = p * 4096" using assms(2) by (auto simp: freeable_def p_def)
  then have u: "p < page_count pm" "page_used pm p" by (simp_all add: used_bits_def)
  have "p < 2 ^ 52" using u(1) assms(1) by (simp add: pmm_inv_def pmm_shape_def)
  then have "unat (push_bit PAGE_SHIFT (of_nat p :: u64)) = unat a" using page_address p(3) by simp
  then have "push_bit PAGE_SHIFT (of_nat p) = a" by simp
  then show ?thesis using pmm_free_page_ok [OF assms(1) p(1) u] unfolding p_def by auto
qed

lemma pmm_free_page_refuse:
  assumes "\<not> freeable pm a"
  shows "\<exists>msg. pmm_free_page a pm = Inl msg"
proof (rule ccontr)
  assume no: "\<not> ?thesis"
  have m: "unat (a AND PAGE_MASK) = unat a mod 4096"
    using unat_and_mask [of a 12] by (simp add: PAGE_MASK_def PAGE_SIZE_def mask_eq_exp_minus_1)
  have d: "unat (drop_bit PAGE_SHIFT a) = unat a div 4096" by (simp add: unat_shift_right PAGE_SHIFT_def)
  have "a AND PAGE_MASK = 0" using no by (simp add: pmm_free_page_def split: if_splits)
  then have z: "unat a mod 4096 = 0" using m by simp
  have "\<not> a < LOW_MEMORY_RESERVED_END" using no by (simp add: pmm_free_page_def split: if_splits)
  then have l: "256 \<le> unat a div 4096"
    by (simp add: word_less_unat LOW_MEMORY_RESERVED_END_def less_eq_div_iff_mult_less_eq)
  have "\<not> pm_total_pages pm \<le> drop_bit PAGE_SHIFT a" "bit_test pm (drop_bit PAGE_SHIFT a)"
    using no by (simp_all add: pmm_free_page_def Let_def split: if_splits)
  then have "unat a div 4096 < page_count pm" "page_used pm (unat a div 4096)"
    by (simp_all add: word_le_unat page_used_def d [symmetric])
  then show False using assms z l by (simp add: freeable_def used_bits_def mod_eq_0_iff_dvd)
qed

lemma contig_run_spec:
  fixes n :: u64 and pm :: pmm and q :: nat
  assumes "k \<le> unat n"
  defines "r \<equiv> contig_run pm (of_nat q) n k"
  shows "k \<le> r \<and> r \<le> unat n \<and> (\<forall>i. k \<le> i \<and> i < r \<longrightarrow> \<not> page_used pm (q + i)) \<and> (r < unat n \<longrightarrow> page_used pm (q + r))"
  unfolding r_def using assms(1)
proof (induction "unat n - k" arbitrary: k rule: less_induct)
  case less
  have pu: "bit_test pm (of_nat q + of_nat k) = page_used pm (q + k)" by (simp add: page_used_def)
  show ?case
  proof (cases "k < unat n \<and> \<not> page_used pm (q + k)")
    case True
    then have eq: "contig_run pm (of_nat q) n k = contig_run pm (of_nat q) n (Suc k)"
      unfolding contig_run.simps [of pm _ n k] pu by (rule if_P)
    have ih: "Suc k \<le> contig_run pm (of_nat q) n (Suc k) \<and> contig_run pm (of_nat q) n (Suc k) \<le> unat n
       \<and> (\<forall>i. Suc k \<le> i \<and> i < contig_run pm (of_nat q) n (Suc k) \<longrightarrow> \<not> page_used pm (q + i))
       \<and> (contig_run pm (of_nat q) n (Suc k) < unat n \<longrightarrow> page_used pm (q + contig_run pm (of_nat q) n (Suc k)))"
      using True by (intro less.hyps) auto
    then show ?thesis
      unfolding eq using True ivl_step [of k _ "\<lambda>i. \<not> page_used pm (q + i)"] by auto
  next
    case False
    then have "contig_run pm (of_nat q) n k = k" unfolding contig_run.simps [of pm _ n k] pu by (rule if_not_P)
    then show ?thesis using False less.prems by auto
  qed
qed

text \<open>The reference of the search: the first run of \<open>n\<close> unused pages.\<close>

definition free_run :: "pmm \<Rightarrow> nat \<Rightarrow> nat \<Rightarrow> bool" where
  "free_run pm n p \<longleftrightarrow> {p..<p + n} \<inter> used_pages pm = {}"

lemma contig_search_first_fit:
  assumes "pmm_shape pm" and "0 < unat n" and "unat n + 2 ^ 52 < 2 ^ 64"
  shows "q \<le> 2 ^ 52 \<Longrightarrow> contig_search pm n (of_nat q)
     = Some (map_option of_nat (scan_from (free_run pm (unat n)) q (Suc (page_count pm) - unat n)))"
proof (induction "2 ^ 52 - q" arbitrary: q rule: less_induct)
  case less
  have q: "unat (of_nat q :: u64) = q" using less.prems by (intro unat_of_nat_no_wrap) simp
  have "unat (of_nat q + n) = q + unat n"
    using less.prems assms(3) unat_plus_no_wrap [of "of_nat q" n] by (simp add: q)
  then have g: "(of_nat q + n \<le> pm_total_pages pm) = (q + unat n \<le> page_count pm)"
    by (simp only: word_le_unat)
  define r where "r = contig_run pm (of_nat q) n 0"
  have r: "r \<le> unat n" "\<forall>i < r. \<not> page_used pm (q + i)" "r < unat n \<longrightarrow> page_used pm (q + r)"
    using contig_run_spec [of 0 n pm q] by (simp_all add: r_def)
  have st: "contig_search pm n (of_nat q) = (if q + unat n \<le> page_count pm
      then if r = unat n then Some (Some (of_nat q)) else contig_search pm n (of_nat q + of_nat r + 1) else Some None)"
    unfolding contig_search.simps [of pm n "of_nat q"] g r_def [symmetric] Let_def ..
  consider "page_count pm < q + unat n" | "q + unat n \<le> page_count pm" "r = unat n" | "q + unat n \<le> page_count pm" "r < unat n"
    using r(1) by linarith
  then show ?case
  proof cases
    case 1
    then have "\<not> q < Suc (page_count pm) - unat n" by linarith
    then have "scan_from (free_run pm (unat n)) q (Suc (page_count pm) - unat n) = None"
      unfolding scan_from.simps [of _ q] by (rule if_not_P)
    then show ?thesis using 1 by (simp add: st)
  next
    case 2
    have "free_run pm (unat n) q"
    proof -
      have "\<not> page_used pm i" if "q \<le> i" "i < q + unat n" for i
        using r(2) 2(2) that by (metis le_iff_add nat_add_left_cancel_less)
      then show ?thesis by (auto simp: free_run_def used_bits_def)
    qed
    then have "scan_from (free_run pm (unat n)) q (Suc (page_count pm) - unat n) = Some q"
      using 2 by (intro scan_from_eqI) auto
    then show ?thesis using 2 by (simp add: st)
  next
    case 3
    have used: "q + r \<in> used_pages pm" using r(3) 3 by (simp add: used_bits_def)
    have nf: "\<not> free_run pm (unat n) j" if "q \<le> j" "j < Suc (q + r)" for j
    proof -
      have "q + r \<in> {j..<j + unat n}" using that 3 by auto
      then show ?thesis using used by (auto simp: free_run_def)
    qed
    have "q + unat n \<le> 2 ^ 52" using 3(1) assms(1) by (simp add: pmm_shape_def)
    then have lt: "Suc (q + r) \<le> 2 ^ 52" using 3(2) by linarith
    have "contig_search pm n (of_nat q) = contig_search pm n (of_nat (Suc (q + r)))"
      using 3 by (simp add: st add.commute)
    also have "\<dots> = Some (map_option of_nat (scan_from (free_run pm (unat n)) (Suc (q + r)) (Suc (page_count pm) - unat n)))"
      using lt by (intro less.hyps) auto
    also have "scan_from (free_run pm (unat n)) (Suc (q + r)) (Suc (page_count pm) - unat n)
        = scan_from (free_run pm (unat n)) q (Suc (page_count pm) - unat n)"
      using nf by (intro scan_from_skip [symmetric]) auto
    finally show ?thesis .
  qed
qed


lemma fold_bit_set_run:
  assumes "pmm_shape pm" and "p + m \<le> page_count pm"
  defines "pm1 \<equiv> fold (\<lambda>i. bit_set (of_nat p + of_nat i)) [0..<m] pm"
  shows "pmm_shape pm1 \<and> pm_total_pages pm1 = pm_total_pages pm \<and> pm_free_pages pm1 = pm_free_pages pm
     \<and> used_pages pm1 = used_pages pm \<union> {p..<p + m}"
  unfolding pm1_def using assms(2)
proof (induction m)
  case 0
  then show ?case using assms(1) by simp
next
  case (Suc m)
  define pm2 where "pm2 = fold (\<lambda>i. bit_set (of_nat p + of_nat i)) [0..<m] pm"
  have ih: "pmm_shape pm2 \<and> pm_total_pages pm2 = pm_total_pages pm \<and> pm_free_pages pm2 = pm_free_pages pm
      \<and> used_pages pm2 = used_pages pm \<union> {p..<p + m}"
    using Suc by (simp add: pm2_def)
  have eq: "fold (\<lambda>i. bit_set (of_nat p + of_nat i)) [0..<Suc m] pm = set_page pm2 (p + m)"
    by (simp add: pm2_def)
  have lt: "p + m < page_count pm2" using Suc.prems ih by simp
  have "used_pages (set_page pm2 (p + m)) = insert (p + m) (used_pages pm \<union> {p..<p + m})"
    using pg.used_set1 [of pm2 "p + m"] lt ih by simp
  also have "\<dots> = used_pages pm \<union> {p..<p + Suc m}" by auto
  finally show ?case unfolding eq using ih pg.inv_set1 [of pm2 "p + m"] lt by simp
qed

lemma take_run_inv:
  assumes "pmm_inv pm" and "p + unat n \<le> page_count pm" and "free_run pm (unat n) p"
  defines "pm1 \<equiv> (fold (\<lambda>i. bit_set (of_nat p + of_nat i)) [0..<unat n] pm)\<lparr>pm_free_pages := pm_free_pages pm - n\<rparr>"
  shows "pmm_inv pm1 \<and> used_pages pm1 = used_pages pm \<union> {p..<p + unat n} \<and> pm_total_pages pm1 = pm_total_pages pm
     \<and> unat (pm_free_pages pm1) = unat (pm_free_pages pm) - unat n"
proof -
  note f = fold_bit_set_run [OF pmm_inv_shape [OF assms(1)] assms(2)]
  have u: "used_pages pm1 = used_pages pm \<union> {p..<p + unat n}" using f by (simp add: pm1_def)
  have c: "card (used_pages pm1) = card (used_pages pm) + unat n"
    using assms(3) by (simp add: u card_Un_disjoint free_run_def Int_commute)
  have "card (used_pages pm1) \<le> page_count pm"
    using card_used_bits_le [of page_used page_count pm1] f by (simp add: pm1_def)
  then have le: "unat n \<le> unat (pm_free_pages pm)" using c assms(1) unfolding pmm_inv_def by linarith
  then have s: "unat (pm_free_pages pm - n) = unat (pm_free_pages pm) - unat n"
    by (intro unat_minus_no_wrap) (simp add: word_le_unat)
  have "pmm_shape pm1" "pm_total_pages pm1 = pm_total_pages pm" "pm_free_pages pm1 = pm_free_pages pm - n"
    using f by (simp_all add: pm1_def)
  then show ?thesis using u c s le assms(1) by (simp add: pmm_inv_def)
qed

lemma pmm_free_contig_ok:
  assumes "pmm_inv pm" and "256 \<le> p" and "p + m \<le> page_count pm" and "{p..<p + m} \<subseteq> used_pages pm"
  defines "r \<equiv> fold (\<lambda>i r. case r of Inl e \<Rightarrow> Inl e | Inr pm \<Rightarrow> pmm_free_page (push_bit PAGE_SHIFT (of_nat p) + of_nat i * PAGE_SIZE) pm)
       [0..<m] (Inr pm)"
  shows "\<exists>pm1. r = Inr pm1 \<and> pmm_inv pm1 \<and> used_pages pm1 = used_pages pm - {p..<p + m} \<and> pm_total_pages pm1 = pm_total_pages pm"
  unfolding r_def using assms(3,4)
proof (induction m)
  case 0
  then show ?case using assms(1) by simp
next
  case (Suc m)
  define f where "f = (\<lambda>i r. case r of Inl e \<Rightarrow> Inl e
      | Inr pm \<Rightarrow> pmm_free_page (push_bit PAGE_SHIFT (of_nat p) + of_nat i * PAGE_SIZE) pm)"
  have "{p..<p + m} \<subseteq> {p..<p + Suc m}" by auto
  then have sub: "{p..<p + m} \<subseteq> used_pages pm" using Suc.prems(2) by (rule subset_trans)
  obtain pm1 where pm1: "fold f [0..<m] (Inr pm) = Inr pm1" "pmm_inv pm1"
      "used_pages pm1 = used_pages pm - {p..<p + m}" "pm_total_pages pm1 = pm_total_pages pm"
    using Suc.IH [OF _ sub] Suc.prems(1) unfolding f_def [symmetric] by auto
  have lt: "p + m < page_count pm1" using Suc.prems pm1(4) by simp
  have "p + m \<in> used_pages pm1" using Suc.prems pm1(3) by auto
  then have u: "page_used pm1 (p + m)" using used_pages_iff [OF lt] by simp
  have ad: "push_bit PAGE_SHIFT (of_nat p) + of_nat m * PAGE_SIZE = (push_bit PAGE_SHIFT (of_nat (p + m)) :: u64)"
    by (simp add: PAGE_SHIFT_def PAGE_SIZE_def push_bit_eq_mult distrib_right)
  have st: "fold f [0..<Suc m] (Inr pm) = pmm_free_page (push_bit PAGE_SHIFT (of_nat (p + m))) pm1"
    using pm1(1) by (simp add: f_def ad del: of_nat_add)
  have us: "used_pages pm1 - {p + m} = used_pages pm - {p..<p + Suc m}"
    unfolding pm1(3) by (auto simp: less_Suc_eq)
  have "256 \<le> p + m" using assms(2) by simp
  from pmm_free_page_ok [OF pm1(2) this lt u]
  show ?case unfolding f_def [symmetric] st us pm1(4) .
qed

lemma pmm_alloc_contig_cases:
  assumes "pmm_inv pm" and "n \<noteq> 0" and "unat n + 2 ^ 52 < 2 ^ 64"
  obtains p pm1 where "256 \<le> p" "p + unat n \<le> page_count pm" "free_run pm (unat n) p" "\<forall>q. 256 \<le> q \<and> q < p \<longrightarrow> \<not> free_run pm (unat n) q"
      "pmm_alloc_contig n pm = Some (push_bit PAGE_SHIFT (of_nat p), pm1)" "pmm_inv pm1"
      "used_pages pm1 = used_pages pm \<union> {p..<p + unat n}" "pm_total_pages pm1 = pm_total_pages pm"
      "unat (pm_free_pages pm1) = unat (pm_free_pages pm) - unat n"
  | "\<forall>p. 256 \<le> p \<and> p + unat n \<le> page_count pm \<longrightarrow> \<not> free_run pm (unat n) p" "pmm_alloc_contig n pm = Some (0, pm)"
proof (cases "n = 1")
  case True
  have fr: "free_run pm 1 q = (q \<notin> used_pages pm)" for q by (auto simp: free_run_def)
  show ?thesis
    using assms(1)
  proof (cases rule: pmm_alloc_page_cases)
    case (1 p)
    have nu: "\<not> page_used pm p" using 1 by (simp add: used_bits_def)
    note t = take_page [OF assms(1) 1(2) nu]
    define pm1 where "pm1 = (set_page pm p)\<lparr>pm_free_pages := pm_free_pages pm - 1\<rparr>"
    have ivl: "{p..<p + 1} = {p}" by auto
    show ?thesis
    proof (rule that(1) [of p pm1])
      show "pmm_alloc_contig n pm = Some (push_bit PAGE_SHIFT (of_nat p), pm1)"
        using 1 True by (simp add: pmm_alloc_contig_def pm1_def)
      show "used_pages pm1 = used_pages pm \<union> {p..<p + unat n}" using t(2) True by (simp add: pm1_def ivl)
      show "unat (pm_free_pages pm1) = unat (pm_free_pages pm) - unat n"
        using True unat_dec [OF t(3)] by (simp add: pm1_def)
      show "\<forall>q. 256 \<le> q \<and> q < p \<longrightarrow> \<not> free_run pm (unat n) q" using 1(5) True fr by auto
      show "free_run pm (unat n) p" using 1(4) True fr by simp
    qed (use 1 t True in \<open>simp_all add: pm1_def\<close>)
  next
    case 2
    then show ?thesis using True by (intro that(2)) (auto simp: fr pmm_alloc_contig_def simp del: One_nat_def)
  qed
next
  case False
  have "0 < unat n" using assms(2) by (simp add: unat_gt_0)
  then have s: "contig_search pm n (of_nat low_page)
      = Some (map_option of_nat (scan_from (free_run pm (unat n)) 256 (Suc (page_count pm) - unat n)))"
    using contig_search_first_fit [OF pmm_inv_shape [OF assms(1)] _ assms(3), of 256] by (simp add: low_page_256)
  show ?thesis
  proof (cases "scan_from (free_run pm (unat n)) 256 (Suc (page_count pm) - unat n)")
    case None
    then have "pmm_alloc_contig n pm = Some (0, pm)"
      using s False assms(2) by (simp add: pmm_alloc_contig_def PMM_INVALID_PAGE_def)
    moreover have "\<forall>p. 256 \<le> p \<and> p + unat n \<le> page_count pm \<longrightarrow> \<not> free_run pm (unat n) p"
      using None by (auto simp: scan_from_None_iff)
    ultimately show ?thesis by (intro that(2))
  next
    case (Some p)
    note f = scan_from_SomeD [OF Some]
    then have le: "p + unat n \<le> page_count pm" by auto
    define pm1 where "pm1 = (fold (\<lambda>i. bit_set (of_nat p + of_nat i)) [0..<unat n] pm)\<lparr>pm_free_pages := pm_free_pages pm - n\<rparr>"
    have r: "pmm_alloc_contig n pm = Some (push_bit PAGE_SHIFT (of_nat p), pm1)"
      using s Some False assms(2) by (simp add: pmm_alloc_contig_def pm1_def)
    have fr: "free_run pm (unat n) p" and nf: "\<forall>q. 256 \<le> q \<and> q < p \<longrightarrow> \<not> free_run pm (unat n) q"
      using f by blast+
    show ?thesis
      using that(1) [OF _ le fr nf r] f take_run_inv [OF assms(1) le fr] unfolding pm1_def by blast
  qed
qed


subsection \<open>Properties\<close>


text \<open>
  C7. \<open>pmm_alloc_contig\<close> always returns.  It finds the first run of \<open>count\<close> free pages at or above
  1 MiB whenever there is one, its answer is the page aligned address of that run, and it marks
  exactly that run used; it answers 0 and changes nothing exactly when there is no such run.  Freeing
  the run with \<open>pmm_free_contig\<close> succeeds and restores the set of used pages.
\<close>

theorem pmm_alloc_contig_correct:
  assumes "pmm_inv pm" and "n \<noteq> 0" and "unat n + 2 ^ 52 < 2 ^ 64"
  shows "\<exists>a pm1. pmm_alloc_contig n pm = Some (a, pm1) \<and> pmm_inv pm1 \<and>
     (if a = 0 then pm1 = pm \<and> (\<forall>p. 256 \<le> p \<and> p + unat n \<le> page_count pm \<longrightarrow> \<not> free_run pm (unat n) p)
      else \<exists>p pm2. unat a = 4096 * p \<and> 256 \<le> p \<and> p + unat n \<le> page_count pm \<and> free_run pm (unat n) p
        \<and> (\<forall>q. 256 \<le> q \<and> q < p \<longrightarrow> \<not> free_run pm (unat n) q)
        \<and> used_pages pm1 = used_pages pm \<union> {p..<p + unat n}
        \<and> unat (pm_free_pages pm1) = unat (pm_free_pages pm) - unat n
        \<and> pmm_free_contig a n pm1 = Inr pm2 \<and> pmm_inv pm2 \<and> used_pages pm2 = used_pages pm)"
  using assms
proof (cases rule: pmm_alloc_contig_cases)
  case (1 p pm1)
  have p: "p < 2 ^ 52" using 1(2) assms(1,2) by (simp add: pmm_inv_def pmm_shape_def unat_gt_0)
  have a: "unat (push_bit PAGE_SHIFT (of_nat p :: u64)) = 4096 * p" using page_address [OF p] by simp
  then have nz: "push_bit PAGE_SHIFT (of_nat p :: u64) \<noteq> 0" using 1(1) by (auto simp del: unat_eq_iff)
  have le: "p + unat n \<le> page_count pm1" using 1(2,8) by simp
  have sub: "{p..<p + unat n} \<subseteq> used_pages pm1" using 1(7) by simp
  obtain pm2 where pm2: "pmm_free_contig (push_bit PAGE_SHIFT (of_nat p)) n pm1 = Inr pm2" "pmm_inv pm2"
      "used_pages pm2 = used_pages pm1 - {p..<p + unat n}"
    using pmm_free_contig_ok [OF 1(6,1) le sub] unfolding pmm_free_contig_def by blast
  have "used_pages pm2 = used_pages pm" unfolding pm2(3) 1(7) using 1(3) unfolding free_run_def by blast
  then show ?thesis using 1 a nz pm2 by auto
next
  case 2
  then show ?thesis using assms(1) by simp
qed

text \<open>
  C27. \<open>pmm_alloc_page\<close> hands out the lowest free page at or above 1 MiB, and \<open>pmm_free_page\<close>
  takes back exactly the page aligned addresses of used pages at or above 1 MiB: every other
  argument is a panic.
\<close>

theorem pmm_page_alloc_free:
  assumes "pmm_inv pm"
  shows "(case pmm_alloc_page pm of (a, pm1) \<Rightarrow> pmm_inv pm1 \<and>
       (if a = 0 then pm1 = pm \<and> {256..<page_count pm} \<subseteq> used_pages pm
        else \<exists>p. unat a = 4096 * p \<and> 256 \<le> p \<and> p < page_count pm \<and> p \<notin> used_pages pm \<and> {256..<p} \<subseteq> used_pages pm
          \<and> used_pages pm1 = insert p (used_pages pm)))
     \<and> (case pmm_free_page b pm of
          Inr pm1 \<Rightarrow> freeable pm b \<and> pmm_inv pm1 \<and> used_pages pm1 = used_pages pm - {unat b div 4096}
        | Inl msg \<Rightarrow> \<not> freeable pm b)"
proof
  show "case pmm_alloc_page pm of (a, pm1) \<Rightarrow> pmm_inv pm1 \<and>
       (if a = 0 then pm1 = pm \<and> {256..<page_count pm} \<subseteq> used_pages pm
        else \<exists>p. unat a = 4096 * p \<and> 256 \<le> p \<and> p < page_count pm \<and> p \<notin> used_pages pm \<and> {256..<p} \<subseteq> used_pages pm
          \<and> used_pages pm1 = insert p (used_pages pm))"
    using assms
  proof (cases rule: pmm_alloc_page_cases)
    case (1 p)
    have a: "unat (push_bit PAGE_SHIFT (of_nat p :: u64)) = 4096 * p" using page_address [OF 1(3)] by simp
    then have nz: "push_bit PAGE_SHIFT (of_nat p :: u64) \<noteq> 0" using 1(1) by (auto simp del: unat_eq_iff)
    have nu: "\<not> page_used pm p" using 1 by (simp add: used_bits_def)
    show ?thesis
      unfolding 1(6) prod.case if_not_P [OF nz]
      using 1(1,2,4,5) a take_page(1,2) [OF assms 1(2) nu] by blast
  next
    case 2
    then show ?thesis using assms by simp
  qed
  show "case pmm_free_page b pm of
          Inr pm1 \<Rightarrow> freeable pm b \<and> pmm_inv pm1 \<and> used_pages pm1 = used_pages pm - {unat b div 4096}
        | Inl msg \<Rightarrow> \<not> freeable pm b"
  proof (cases "freeable pm b")
    case True
    from pmm_free_page_freeable [OF assms True] obtain pm1 where
      "pmm_free_page b pm = Inr pm1" "pmm_inv pm1" "used_pages pm1 = used_pages pm - {unat b div 4096}" by blast
    then show ?thesis using True by (simp only: sum.case)
  next
    case False
    from pmm_free_page_refuse [OF False] obtain msg where "pmm_free_page b pm = Inl msg" by blast
    then show ?thesis using False by (simp only: sum.case not_False_eq_True)
  qed
qed


subsection \<open>Examples\<close>

text \<open>A machine with two RAM descriptors, and an allocator of 512 pages with two free ones.\<close>

definition example_boot :: boot_info where
  "example_boot = \<lparr>bi_address = 0x5000, bi_sizeof = 160,
     bi_descs = [\<lparr>d_type = 7, d_physical_start = 0, d_number_of_pages = 160\<rparr>,
                 \<lparr>d_type = 7, d_physical_start = 0x200000, d_number_of_pages = 16\<rparr>],
     bi_map_base = 0x6000, bi_map_size = 96, bi_kernel_base = 0x100000, bi_kernel_size = 0x80000,
     bi_fb_base = 0x80000000, bi_fb_size = 0x300000\<rparr>"

definition example_pmm :: pmm where
  "example_pmm = fold free_page_init [300, 301]
     \<lparr>pm_bitmap = map (\<lambda>b. 0xFF) [0..<64], pm_bitmap_bytes = 64, pm_total_pages = 512, pm_free_pages = 0,
      pm_reserved_pages = 512, pm_bitmap_phys = 0x100000, pm_bitmap_pages = 1, pm_lowest_page = 0,
      pm_highest_addr = 0x200000\<rparr>"

lemma example_pmm_inv: "pmm_inv example_pmm" "used_pages example_pmm = {..<512} - {300, 301}" "page_count example_pmm = 512"
proof -
  define pm :: pmm where "pm =
     \<lparr>pm_bitmap = map (\<lambda>b. 0xFF) [0..<64], pm_bitmap_bytes = 64, pm_total_pages = 512, pm_free_pages = 0,
      pm_reserved_pages = 512, pm_bitmap_phys = 0x100000, pm_bitmap_pages = 1, pm_lowest_page = 0,
      pm_highest_addr = 0x200000\<rparr>"
  have d: "unat ((512 + 7) div 8 :: u64) = 64" by (simp add: unat_div)
  have a: "pmm_inv pm" "used_pages pm = {..<page_count pm}"
    using all_used_inv [of 512 pm] by (simp_all add: pm_def d del: upt_rec_numeral)
  have "page_count pm = 512" by (simp add: pm_def)
  then show "pmm_inv example_pmm" "used_pages example_pmm = {..<512} - {300, 301}" "page_count example_pmm = 512"
    using fold_free_inv [OF a(1), of "[300, 301]"] a(2) unfolding example_pmm_def pm_def [symmetric] by simp_all
qed

lemma example_boot_init:
  "\<exists>pm. pmm_init example_boot = Inr pm \<and> pm_total_pages pm = 528
     \<and> (\<forall>(s, n) \<in> set (never_handed_out example_boot pm). unat s + unat n + 4095 < 2 ^ 64)"
proof -
  have t: "drop_bit PAGE_SHIFT (highest_ram (bi_descs example_boot)) = 528"
    by (simp add: highest_ram_def example_boot_def efi_type_is_ram_def EFI_CONVENTIONAL_MEMORY_def PAGE_SIZE_def PAGE_SHIFT_def Let_def)
  have p: "drop_bit PAGE_SHIFT (PAGE_ALIGN_UP ((528 + 7) div 8)) = 1"
    by (simp add: PAGE_ALIGN_UP_def PAGE_MASK_def PAGE_SIZE_def PAGE_SHIFT_def)
  have r: "bitmap_region 1 (bi_descs example_boot) = 0x200000"
    by (simp add: example_boot_def EFI_CONVENTIONAL_MEMORY_def LOW_MEMORY_RESERVED_END_def)
  obtain pm where pm: "pmm_init example_boot = Inr pm"
    unfolding pmm_init_def Let_def t p r by (simp split: option.splits)
  note u = pmm_init_used(4,5,6) [OF pm, unfolded t]
  have "pm_bitmap_pages pm = 1" using u p by simp
  then have "pm_bitmap_phys pm = 0x200000" "pm_bitmap_pages pm = 1" using u(3) r by simp_all
  then have "\<forall>(s, n) \<in> set (never_handed_out example_boot pm). unat s + unat n + 4095 < 2 ^ 64"
    by (simp add: never_handed_out_def example_boot_def LOW_MEMORY_RESERVED_END_def PAGE_SIZE_def)
  then show ?thesis using pm u(1) by blast
qed


theorem pmm_alloc_contig_correct_witness:
  "\<exists>a pm1. pmm_alloc_contig 2 example_pmm = Some (a, pm1) \<and> pmm_inv pm1 \<and> unat a = 4096 * 300
     \<and> (\<exists>pm2. pmm_free_contig a 2 pm1 = Inr pm2 \<and> used_pages pm2 = used_pages example_pmm)"
proof -
  have fr: "free_run example_pmm 2 p = (p = 300)" if "p + 2 \<le> 512" for p
  proof -
    have "{p..<p + 2} = {p, Suc p}" by auto
    then show ?thesis using that by (auto simp: free_run_def example_pmm_inv)
  qed
  have h: "(2 :: u64) \<noteq> 0" "unat (2 :: u64) + 2 ^ 52 < 2 ^ 64" and u2: "unat (2 :: u64) = 2" by simp_all
  from pmm_alloc_contig_correct [OF example_pmm_inv(1) h, unfolded u2 example_pmm_inv(3)]
  obtain a pm1 where r: "pmm_alloc_contig 2 example_pmm = Some (a, pm1)" "pmm_inv pm1"
    and c: "if a = 0 then pm1 = example_pmm \<and> (\<forall>p. 256 \<le> p \<and> p + 2 \<le> 512 \<longrightarrow> \<not> free_run example_pmm 2 p)
      else \<exists>p pm2. unat a = 4096 * p \<and> 256 \<le> p \<and> p + 2 \<le> 512 \<and> free_run example_pmm 2 p
        \<and> (\<forall>q. 256 \<le> q \<and> q < p \<longrightarrow> \<not> free_run example_pmm 2 q)
        \<and> used_pages pm1 = used_pages example_pmm \<union> {p..<p + 2}
        \<and> unat (pm_free_pages pm1) = unat (pm_free_pages example_pmm) - 2
        \<and> pmm_free_contig a 2 pm1 = Inr pm2 \<and> pmm_inv pm2 \<and> used_pages pm2 = used_pages example_pmm"
    by blast
  have "a \<noteq> 0" using c fr [of 300] by auto
  then show ?thesis using r c fr by auto
qed

theorem pmm_page_alloc_free_witness:
  "\<exists>pm1. pmm_free_page 0x100000 example_pmm = Inr pm1 \<and> pmm_inv pm1 \<and> (\<exists>msg. pmm_free_page 0x12C000 example_pmm = Inl msg)"
proof -
  have "unat (0x100000 :: u64) = 0x100000" "unat (0x12C000 :: u64) = 0x12C000" by simp_all
  then have f: "freeable example_pmm 0x100000" "\<not> freeable example_pmm 0x12C000"
    by (simp_all only: freeable_def example_pmm_inv(2)) simp_all
  show ?thesis
    using pmm_page_alloc_free [OF example_pmm_inv(1), of "0x100000"] pmm_page_alloc_free [OF example_pmm_inv(1), of "0x12C000"] f
    by (cases "pmm_free_page 0x100000 example_pmm"; cases "pmm_free_page 0x12C000 example_pmm") simp_all
qed

end
