(* ===== verification/Heap.thy ===== *)
theory Heap
  imports Kmath "HOL-Library.Monad_Syntax"
begin

text \<open>
  \<open>kernel/memory/heap.c\<close>: the first-fit kernel heap.  A pointer is an address; the block headers
  are a store from addresses to headers, so splitting, absorbing a neighbour and the stale header
  it leaves behind are those of the code.  The payload bytes are not part of the store: writes
  inside a payload do not touch a header.  The arena starts at the address \<open>g_arena\<close> of the
  state.  A walk over the arena is a \<open>partial_function\<close>: \<open>None\<close> is a walk that never ends.
\<close>

definition HEAP_ARENA_SIZE :: nat where "HEAP_ARENA_SIZE = 2 * 1024 * 1024"
definition HEAP_ALIGN :: u32 where "HEAP_ALIGN = 16"
definition HEAP_MAGIC :: u32 where "HEAP_MAGIC = 0x484E5848"

record block_header =
  bh_size :: u32
  bh_free :: u32
  bh_magic :: u32
  bh_pad :: u32

text \<open>\<open>sizeof(struct block_header)\<close>.\<close>

definition BH :: nat where "BH = 16"

record heap =
  g_arena :: nat
  hdr :: "nat \<Rightarrow> block_header"
  g_alloc_count :: u64
  g_free_count :: u64
  g_bytes_in_use :: u64
  g_high_water :: u64

definition heap_align_up :: "u64 \<Rightarrow> u64 \<Rightarrow> u64" where
  "heap_align_up x a = (x + (a - 1)) AND NOT (a - 1)"

definition heap_init :: "heap \<Rightarrow> heap" where
  "heap_init hp = hp\<lparr>g_alloc_count := 0, g_free_count := 0, g_bytes_in_use := 0, g_high_water := 0,
     hdr := (hdr hp)(g_arena hp :=
       \<lparr>bh_size = of_nat HEAP_ARENA_SIZE, bh_free = 1, bh_magic = 0, bh_pad = 0\<rparr>)\<rparr>"

definition next_block :: "nat \<Rightarrow> (nat \<Rightarrow> block_header) \<Rightarrow> nat \<Rightarrow> nat option" where
  "next_block arena h b =
     (let p = b + unat (bh_size (h b)) in
      if p \<ge> arena + HEAP_ARENA_SIZE then None else Some p)"

partial_function (option) absorb :: "nat \<Rightarrow> nat \<Rightarrow> (nat \<Rightarrow> block_header) \<Rightarrow> (nat \<Rightarrow> block_header) option" where
  "absorb arena b h =
     (case next_block arena h b of
        None \<Rightarrow> Some h
      | Some n \<Rightarrow>
          if bh_free (h n) \<noteq> 0
          then absorb arena b (h(b := (h b)\<lparr>bh_size := bh_size (h b) + bh_size (h n)\<rparr>))
          else Some h)"

partial_function (option) coalesce_from :: "nat \<Rightarrow> nat \<Rightarrow> (nat \<Rightarrow> block_header) \<Rightarrow> (nat \<Rightarrow> block_header) option" where
  "coalesce_from arena b h =
     do {
       h \<leftarrow> (if bh_free (h b) \<noteq> 0 then absorb arena b h else Some h);
       case next_block arena h b of
         None \<Rightarrow> Some h
       | Some n \<Rightarrow> coalesce_from arena n h
     }"

definition coalesce :: "heap \<Rightarrow> heap option" where
  "coalesce hp = map_option (\<lambda>h. hp\<lparr>hdr := h\<rparr>) (coalesce_from (g_arena hp) (g_arena hp) (hdr hp))"

partial_function (option) find_fit :: "nat \<Rightarrow> (nat \<Rightarrow> block_header) \<Rightarrow> u64 \<Rightarrow> nat \<Rightarrow> nat option option" where
  "find_fit arena h need b =
     (if bh_free (h b) \<noteq> 0 \<and> ucast (bh_size (h b)) \<ge> need then Some (Some b)
      else (case next_block arena h b of None \<Rightarrow> Some None | Some n \<Rightarrow> find_fit arena h need n))"

text \<open>Splitting and marking the block found.\<close>

definition split_block :: "(nat \<Rightarrow> block_header) \<Rightarrow> nat \<Rightarrow> u64 \<Rightarrow> nat \<Rightarrow> block_header" where
  "split_block h b need =
     (let leftover = ucast (bh_size (h b)) - need in
      if leftover \<ge> of_nat BH + ucast HEAP_ALIGN
      then h(b + unat need := \<lparr>bh_size = ucast leftover, bh_free = 1, bh_magic = 0, bh_pad = 0\<rparr>,
             b := (h b)\<lparr>bh_size := ucast need\<rparr>)
      else h)"

definition take_block :: "nat \<Rightarrow> u64 \<Rightarrow> heap \<Rightarrow> heap" where
  "take_block b need hp =
     (let h = split_block (hdr hp) b need;
          h = h(b := (h b)\<lparr>bh_free := 0, bh_magic := HEAP_MAGIC\<rparr>);
          in_use = g_bytes_in_use hp + ucast (bh_size (h b))
      in hp\<lparr>hdr := h, g_alloc_count := g_alloc_count hp + 1, g_bytes_in_use := in_use,
            g_high_water := (if in_use > g_high_water hp then in_use else g_high_water hp)\<rparr>)"

text \<open>
  \<open>kmalloc\<close>: the outer option is the termination of the search, \<open>Inl\<close> the panic, the pointer
  \<open>0\<close> is \<open>NULL\<close>.
\<close>

definition kmalloc :: "u64 \<Rightarrow> heap \<Rightarrow> (string + nat \<times> heap) option" where
  "kmalloc size1 hp =
     (if size1 = 0 then Some (Inr (0, hp))
      else
        (let need = heap_align_up (of_nat BH + size1) (ucast HEAP_ALIGN)
         in do {
              r \<leftarrow> find_fit (g_arena hp) (hdr hp) need (g_arena hp);
              Some (case r of
                  None \<Rightarrow> Inl ''heap: out of memory, requested''
                | Some b \<Rightarrow> Inr (b + BH, take_block b need hp))
            }))"

text \<open>\<open>kcalloc\<close> returns the pointer and the number of bytes it clears there.\<close>

definition kcalloc :: "u64 \<Rightarrow> u64 \<Rightarrow> heap \<Rightarrow> (string + (nat \<times> u64) \<times> heap) option" where
  "kcalloc n size1 hp =
     (let total = n * size1 in
      if n \<noteq> 0 \<and> total div n \<noteq> size1 then Some (Inr ((0, 0), hp))
      else map_option (map_sum id (\<lambda>(p, hp). ((p, if p \<noteq> 0 then total else 0), hp))) (kmalloc total hp))"

definition kfree :: "nat \<Rightarrow> heap \<Rightarrow> heap option" where
  "kfree ptr hp =
     (if ptr = 0 then Some hp
      else if ptr < g_arena hp + BH \<or> ptr \<ge> g_arena hp + HEAP_ARENA_SIZE then Some hp
      else
        (let b = ptr - BH in
         if bh_magic (hdr hp b) \<noteq> HEAP_MAGIC then Some hp
         else
           (let h = (hdr hp)(b := (hdr hp b)\<lparr>bh_free := 1, bh_magic := 0\<rparr>);
                n = ucast (bh_size (h b))
            in coalesce (hp\<lparr>hdr := h,
                 g_bytes_in_use := (if g_bytes_in_use hp \<ge> n then g_bytes_in_use hp - n else g_bytes_in_use hp),
                 g_free_count := g_free_count hp + 1\<rparr>))))"

partial_function (option) free_stats :: "nat \<Rightarrow> (nat \<Rightarrow> block_header) \<Rightarrow> nat \<Rightarrow> u64 \<times> u64 \<Rightarrow> (u64 \<times> u64) option" where
  "free_stats arena h b acc =
     (let acc = (if bh_free (h b) \<noteq> 0
                 then (fst acc + ucast (bh_size (h b)),
                       if ucast (bh_size (h b)) > snd acc then ucast (bh_size (h b)) else snd acc)
                 else acc)
      in case next_block arena h b of None \<Rightarrow> Some acc | Some n \<Rightarrow> free_stats arena h n acc)"

text \<open>The values that \<open>heap_dump_stats\<close> prints, in its order.\<close>

definition heap_dump_stats :: "heap \<Rightarrow> u64 list option" where
  "heap_dump_stats hp =
     map_option (\<lambda>(free_bytes, largest_free).
       [of_nat HEAP_ARENA_SIZE, g_bytes_in_use hp, free_bytes, largest_free,
        g_alloc_count hp, g_free_count hp, g_high_water hp])
       (free_stats (g_arena hp) (hdr hp) (g_arena hp) (0, 0))"

subsection \<open>Tilings of the arena\<close>

definition block_ok :: "block_header \<Rightarrow> bool" where
  "block_ok b \<longleftrightarrow> 32 \<le> unat (bh_size b) \<and> 16 dvd unat (bh_size b) \<and>
     (bh_free b = 1 \<and> bh_magic b = 0 \<or> bh_free b = 0 \<and> bh_magic b = HEAP_MAGIC)"

text \<open>The blocks \<open>bs\<close> lie one after the other from the address \<open>a\<close> up to \<open>e\<close>.\<close>

fun tiled :: "(nat \<Rightarrow> block_header) \<Rightarrow> nat \<Rightarrow> block_header list \<Rightarrow> nat \<Rightarrow> bool" where
  "tiled h a [] e = (a = e)"
| "tiled h a (b # bs) e = (h a = b \<and> block_ok b \<and> tiled h (a + unat (bh_size b)) bs e)"

text \<open>The allocated blocks: the address and the size of each.\<close>

fun allocated :: "nat \<Rightarrow> block_header list \<Rightarrow> (nat \<times> nat) list" where
  "allocated a [] = []"
| "allocated a (b # bs) =
     (if bh_free b = 0 then [(a, unat (bh_size b))] else []) @ allocated (a + unat (bh_size b)) bs"

definition blocks_free :: "block_header list \<Rightarrow> nat" where
  "blocks_free bs = sum_list (map (\<lambda>b. if bh_free b = 0 then 0 else unat (bh_size b)) bs)"

lemma tiled_le: "tiled h a bs e \<Longrightarrow> a \<le> e"
  by (induction bs arbitrary: a) fastforce+

lemma tiled_append: "tiled h a (xs @ ys) e \<longleftrightarrow> (\<exists>m. tiled h a xs m \<and> tiled h m ys e)"
  by (induction xs arbitrary: a) auto

lemma allocated_append:
  "tiled h a xs m \<Longrightarrow> allocated a (xs @ ys) = allocated a xs @ allocated m ys"
  by (induction xs arbitrary: a) auto

lemma tiled_cong:
  "tiled h a bs e \<Longrightarrow> (\<And>x. a \<le> x \<Longrightarrow> x < e \<Longrightarrow> h' x = h x) \<Longrightarrow> tiled h' a bs e"
proof (induction bs arbitrary: a)
  case Nil
  then show ?case by simp
next
  case (Cons b bs)
  have t: "tiled h (a + unat (bh_size b)) bs e" "block_ok b" using Cons.prems by simp_all
  have lt: "a < e" using tiled_le [OF t(1)] t(2) by (simp add: block_ok_def)
  have "tiled h' (a + unat (bh_size b)) bs e" by (rule Cons.IH [OF t(1)]) (simp add: Cons.prems)
  then show ?case using Cons.prems lt by simp
qed

lemma tiled_next:
  assumes "tiled h a (b # bs) (arena + HEAP_ARENA_SIZE)"
  shows "next_block arena h a = (if bs = [] then None else Some (a + unat (bh_size b)))"
proof (cases bs)
  case Nil
  then show ?thesis using assms by (auto simp: next_block_def)
next
  case (Cons c cs)
  then have "block_ok c" "a + unat (bh_size b) + unat (bh_size c) \<le> arena + HEAP_ARENA_SIZE"
    using assms tiled_le [of h "a + unat (bh_size b) + unat (bh_size c)" cs] by auto
  then have "a + unat (bh_size b) < arena + HEAP_ARENA_SIZE" by (simp add: block_ok_def)
  then show ?thesis using assms Cons by (auto simp: next_block_def)
qed


subsection \<open>Coalescing\<close>

text \<open>Two neighbours that are both free do not remain after a coalescing pass.\<close>

abbreviation no_free_neighbours :: "block_header list \<Rightarrow> bool" where
  "no_free_neighbours bs \<equiv> successively (\<lambda>x y. bh_free x = 0 \<or> bh_free y = 0) bs"

lemma block_ok_free: "block_ok b \<Longrightarrow> bh_free b \<noteq> 0 \<longleftrightarrow> bh_free b = 1 \<and> bh_magic b = 0"
  by (auto simp: block_ok_def)

lemma absorb_tiled:
  assumes "tiled h a (b # bs) (arena + HEAP_ARENA_SIZE)" and "bh_free b \<noteq> 0" and "arena \<le> a"
  shows "\<exists>h1 b1 cs. absorb arena a h = Some h1 \<and> tiled h1 a (b1 # cs) (arena + HEAP_ARENA_SIZE) \<and> bh_free b1 \<noteq> 0
     \<and> (cs = [] \<or> bh_free (hd cs) = 0) \<and> allocated a (b1 # cs) = allocated a (b # bs)
     \<and> blocks_free (b1 # cs) = blocks_free (b # bs) \<and> length cs \<le> length bs \<and> (\<forall>x. x \<noteq> a \<longrightarrow> h1 x = h x)"
  using assms(1,2)
proof (induction bs arbitrary: h b)
  case Nil
  then have "absorb arena a h = Some h" using tiled_next [OF Nil.prems(1)] by (simp add: absorb.simps [of arena a h])
  then show ?case using Nil.prems by (intro exI [of _ h] exI [of _ b] exI [of _ "[]"]) auto
next
  case (Cons c cs)
  note nb = tiled_next [OF Cons.prems(1)]
  have hc: "h (a + unat (bh_size b)) = c" "h a = b" "block_ok b" "block_ok c"
    and tl: "tiled h (a + unat (bh_size b) + unat (bh_size c)) cs (arena + HEAP_ARENA_SIZE)" using Cons.prems by simp_all
  show ?case
  proof (cases "bh_free c = 0")
    case True
    then have "absorb arena a h = Some h" using nb hc(1) by (simp add: absorb.simps [of arena a h])
    then show ?thesis using Cons.prems True by (intro exI [of _ h] exI [of _ b] exI [of _ "c # cs"]) auto
  next
    case False
    define b1 where "b1 = b\<lparr>bh_size := bh_size b + bh_size c\<rparr>"
    define h1 where "h1 = h(a := b1)"
    have "unat (bh_size b) + unat (bh_size c) \<le> HEAP_ARENA_SIZE"
      using tiled_le [OF tl] assms(3) by linarith
    then have sz: "unat (bh_size b1) = unat (bh_size b) + unat (bh_size c)"
      by (simp add: b1_def unat_plus_no_wrap HEAP_ARENA_SIZE_def)
    have f: "bh_free b1 = bh_free b" "bh_magic b1 = bh_magic b" by (simp_all add: b1_def)
    have ok: "block_ok b1" using hc(3,4) sz f by (simp add: block_ok_def)
    have "tiled h1 (a + unat (bh_size b1)) cs (arena + HEAP_ARENA_SIZE)"
      using hc(3) sz by (intro tiled_cong [OF tl [unfolded add.assoc, folded sz]]) (auto simp: h1_def block_ok_def)
    then have t1: "tiled h1 a (b1 # cs) (arena + HEAP_ARENA_SIZE)" using ok by (simp add: h1_def)
    have st: "absorb arena a h = absorb arena a h1"
      using nb hc False by (simp add: absorb.simps [of arena a h] h1_def b1_def)
    have al: "allocated a (b1 # cs) = allocated a (b # c # cs)" "blocks_free (b1 # cs) = blocks_free (b # c # cs)"
      using False Cons.prems(2) f sz by (simp_all add: add.assoc blocks_free_def)
    have "bh_free b1 \<noteq> 0" using Cons.prems(2) f by simp
    from Cons.IH [OF t1 this] show ?thesis unfolding st al
      by (elim exE conjE) (rule exI, rule exI, rule exI, intro conjI, assumption+, simp_all add: h1_def)
  qed
qed

lemma coalesce_tiled:
  assumes "tiled h a bs (arena + HEAP_ARENA_SIZE)" and "bs \<noteq> []" and "arena \<le> a"
  shows "\<exists>h1 cs. coalesce_from arena a h = Some h1 \<and> tiled h1 a cs (arena + HEAP_ARENA_SIZE) \<and> no_free_neighbours cs
     \<and> allocated a cs = allocated a bs \<and> blocks_free cs = blocks_free bs \<and> cs \<noteq> []
     \<and> bh_free (hd cs) = bh_free (hd bs) \<and> (\<forall>x < a. h1 x = h x)"
  using assms
proof (induction "length bs" arbitrary: a h bs rule: less_induct)
  case less
  obtain b bs1 where bs: "bs = b # bs1" using less.prems(2) by (cases bs) auto
  have "\<exists>h1 b1 cs. (if bh_free (h a) \<noteq> 0 then absorb arena a h else Some h) = Some h1
      \<and> tiled h1 a (b1 # cs) (arena + HEAP_ARENA_SIZE) \<and> (bh_free b1 = bh_free b)
      \<and> (bh_free b1 = 0 \<or> cs = [] \<or> bh_free (hd cs) = 0) \<and> allocated a (b1 # cs) = allocated a bs
      \<and> blocks_free (b1 # cs) = blocks_free bs \<and> length cs \<le> length bs1 \<and> (\<forall>x. x \<noteq> a \<longrightarrow> h1 x = h x)"
  proof (cases "bh_free b = 0")
    case True
    then show ?thesis using less.prems bs by (intro exI [of _ h] exI [of _ b] exI [of _ bs1]) auto
  next
    case False
    have ha: "h a = b" and ok: "block_ok b" using less.prems(1) bs by simp_all
    from absorb_tiled [OF less.prems(1) [unfolded bs] False less.prems(3)]
    obtain h1 b1 cs where r: "absorb arena a h = Some h1" "tiled h1 a (b1 # cs) (arena + HEAP_ARENA_SIZE)" "bh_free b1 \<noteq> 0"
      "cs = [] \<or> bh_free (hd cs) = 0" "allocated a (b1 # cs) = allocated a (b # bs1)"
      "blocks_free (b1 # cs) = blocks_free (b # bs1)" "length cs \<le> length bs1" "\<forall>x. x \<noteq> a \<longrightarrow> h1 x = h x" by blast
    have "block_ok b1" using r(2) by simp
    then have "bh_free b1 = bh_free b" using r(3) False ok block_ok_free by metis
    then show ?thesis unfolding ha bs if_P [OF False] using r by blast
  qed
  then obtain h1 b1 cs where r: "(if bh_free (h a) \<noteq> 0 then absorb arena a h else Some h) = Some h1"
      "tiled h1 a (b1 # cs) (arena + HEAP_ARENA_SIZE)" "bh_free b1 = bh_free b"
      "bh_free b1 = 0 \<or> cs = [] \<or> bh_free (hd cs) = 0" "allocated a (b1 # cs) = allocated a bs"
      "blocks_free (b1 # cs) = blocks_free bs" "length cs \<le> length bs1" "\<forall>x. x \<noteq> a \<longrightarrow> h1 x = h x" by blast
  note nb = tiled_next [OF r(2)]
  have st: "coalesce_from arena a h = (case next_block arena h1 a of None \<Rightarrow> Some h1 | Some n \<Rightarrow> coalesce_from arena n h1)"
    unfolding coalesce_from.simps [of arena a h] r(1) by simp
  show ?case
  proof (cases "cs = []")
    case True
    then show ?thesis
      using st nb r bs by (intro exI [of _ h1] exI [of _ "[b1]"]) auto
  next
    case False
    define m where "m = a + unat (bh_size b1)"
    have t1: "tiled h1 m cs (arena + HEAP_ARENA_SIZE)" and b1: "h1 a = b1" "block_ok b1" using r(2) by (simp_all add: m_def)
    then have am: "a < m" by (simp add: m_def block_ok_def)
    have "length cs < length bs" using r(7) bs by simp
    from less.hyps [OF this t1 False] less.prems(3) am
    obtain h2 ds where d: "coalesce_from arena m h1 = Some h2" "tiled h2 m ds (arena + HEAP_ARENA_SIZE)" "no_free_neighbours ds"
      "allocated m ds = allocated m cs" "blocks_free ds = blocks_free cs" "ds \<noteq> []" "bh_free (hd ds) = bh_free (hd cs)"
      "\<forall>x < m. h2 x = h1 x" by auto
    have eq: "coalesce_from arena a h = Some h2" using st nb False d(1) by (simp add: m_def)
    have t2: "tiled h2 a (b1 # ds) (arena + HEAP_ARENA_SIZE)" using d(2,8) b1 am by (simp add: m_def)
    have nf: "no_free_neighbours (b1 # ds)" using d(3,6,7) r(4) False by (simp add: successively_Cons)
    have al: "allocated a (b1 # ds) = allocated a bs" "blocks_free (b1 # ds) = blocks_free bs"
      using d(4,5) r(5,6) by (simp_all add: m_def [symmetric] blocks_free_def)
    have "\<forall>x < a. h2 x = h x" using d(8) r(8) am by simp
    then show ?thesis using eq t2 nf al r(3) bs by (intro exI [of _ h2] exI [of _ "b1 # ds"]) simp
  qed
qed


text \<open>Coalescing leaves every magic number as it is, also that of a header it absorbs.\<close>

lemma absorb_magic:
  assumes "absorb arena b h = Some h1"
  shows "bh_magic (h1 x) = bh_magic (h x)"
proof (rule absorb.raw_induct [OF _ assms])
  fix f arena b h h1
  assume ih: "\<And>arena b h h1. f arena b h = Some h1 \<Longrightarrow> bh_magic (h1 x) = bh_magic (h x)"
    and st: "(case next_block arena h b of None \<Rightarrow> Some h
      | Some n \<Rightarrow> if bh_free (h n) \<noteq> 0 then f arena b (h(b := h b\<lparr>bh_size := bh_size (h b) + bh_size (h n)\<rparr>)) else Some h) = Some h1"
  show "bh_magic (h1 x) = bh_magic (h x)"
    using st by (auto split: option.splits if_splits dest: ih)
qed

lemma coalesce_from_magic:
  assumes "coalesce_from arena b h = Some h1"
  shows "bh_magic (h1 x) = bh_magic (h x)"
proof (rule coalesce_from.raw_induct [OF _ assms])
  fix f arena b h h1
  assume ih: "\<And>arena b h h1. f arena b h = Some h1 \<Longrightarrow> bh_magic (h1 x) = bh_magic (h x)"
    and st: "Option.bind (if bh_free (h b) \<noteq> 0 then absorb arena b h else Some h)
      (\<lambda>h. case next_block arena h b of None \<Rightarrow> Some h | Some n \<Rightarrow> f arena n h) = Some h1"
  then obtain h2 where h2: "(if bh_free (h b) \<noteq> 0 then absorb arena b h else Some h) = Some h2"
      "(case next_block arena h2 b of None \<Rightarrow> Some h2 | Some n \<Rightarrow> f arena n h2) = Some h1"
    by (auto simp: bind_eq_Some_conv)
  have "bh_magic (h2 x) = bh_magic (h x)" using h2(1) absorb_magic by (auto split: if_splits)
  moreover have "bh_magic (h1 x) = bh_magic (h2 x)" using h2(2) ih by (auto split: option.splits)
  ultimately show "bh_magic (h1 x) = bh_magic (h x)" by simp
qed

subsection \<open>The invariant of the heap\<close>

definition heap_inv :: "heap \<Rightarrow> block_header list \<Rightarrow> bool" where
  "heap_inv hp bs \<longleftrightarrow> tiled (hdr hp) (g_arena hp) bs (g_arena hp + HEAP_ARENA_SIZE) \<and> 16 dvd g_arena hp \<and> 0 < g_arena hp
     \<and> unat (g_bytes_in_use hp) + blocks_free bs = HEAP_ARENA_SIZE"

lemma heap_inv_nonempty: "heap_inv hp bs \<Longrightarrow> bs \<noteq> []"
  by (auto simp: heap_inv_def HEAP_ARENA_SIZE_def)

lemma heap_init_inv:
  assumes "16 dvd g_arena hp" and "0 < g_arena hp"
  shows "\<exists>bs. heap_inv (heap_init hp) bs \<and> allocated (g_arena hp) bs = []"
  using assms
  by (intro exI [of _ "[\<lparr>bh_size = of_nat HEAP_ARENA_SIZE, bh_free = 1, bh_magic = 0, bh_pad = 0\<rparr>]"])
     (simp add: heap_inv_def heap_init_def block_ok_def blocks_free_def HEAP_ARENA_SIZE_def)

lemma allocated_bounds:
  "tiled h a bs e \<Longrightarrow> (x, k) \<in> set (allocated a bs) \<Longrightarrow> a \<le> x \<and> x + k \<le> e \<and> 32 \<le> k"
proof (induction bs arbitrary: a)
  case Nil
  then show ?case by simp
next
  case (Cons b bs)
  have t: "tiled h (a + unat (bh_size b)) bs e" "block_ok b" using Cons.prems by simp_all
  from Cons.prems(2) consider "x = a" "k = unat (bh_size b)" | "(x, k) \<in> set (allocated (a + unat (bh_size b)) bs)"
    by (auto split: if_splits)
  then show ?case
  proof cases
    case 1
    then show ?thesis using tiled_le [OF t(1)] t(2) by (simp add: block_ok_def)
  next
    case 2
    then show ?thesis using Cons.IH [OF t(1) 2] by simp
  qed
qed

lemma tiled_aligned: "tiled h a bs e \<Longrightarrow> 16 dvd a \<Longrightarrow> 16 dvd e"
  by (induction bs arbitrary: a) (auto simp: block_ok_def)

text \<open>An allocated block splits the tiling.\<close>

lemma allocated_split:
  "tiled h a bs e \<Longrightarrow> (x, k) \<in> set (allocated a bs) \<Longrightarrow>
     \<exists>pre b post. bs = pre @ b # post \<and> tiled h a pre x \<and> tiled h x (b # post) e \<and> bh_free b = 0 \<and> k = unat (bh_size b)"
proof (induction bs arbitrary: a)
  case Nil
  then show ?case by simp
next
  case (Cons b bs)
  have t: "h a = b" "tiled h (a + unat (bh_size b)) bs e" "block_ok b" using Cons.prems by simp_all
  from Cons.prems(2) consider "x = a" "k = unat (bh_size b)" "bh_free b = 0" | "(x, k) \<in> set (allocated (a + unat (bh_size b)) bs)"
    by (auto split: if_splits)
  then show ?case
  proof cases
    case 1
    then show ?thesis using Cons.prems by (intro exI [of _ "[]"] exI [of _ b] exI [of _ bs]) simp
  next
    case 2
    from Cons.IH [OF t(2) 2] obtain pre c post where r: "bs = pre @ c # post" "tiled h (a + unat (bh_size b)) pre x"
      "tiled h x (c # post) e" "bh_free c = 0" "k = unat (bh_size c)" by blast
    then show ?thesis using t by (intro exI [of _ "b # pre"] exI [of _ c] exI [of _ post]) simp
  qed
qed

definition fits :: "u64 \<Rightarrow> block_header \<Rightarrow> bool" where
  "fits need b \<longleftrightarrow> bh_free b \<noteq> 0 \<and> ucast (bh_size b) \<ge> need"

lemma find_fit_tiled:
  assumes "tiled h a bs (arena + HEAP_ARENA_SIZE)" and "bs \<noteq> []"
  shows "(\<forall>b \<in> set bs. \<not> fits need b) \<and> find_fit arena h need a = Some None
     \<or> (\<exists>pre b post m. bs = pre @ b # post \<and> fits need b \<and> tiled h a pre m
          \<and> tiled h m (b # post) (arena + HEAP_ARENA_SIZE) \<and> find_fit arena h need a = Some (Some m))"
  using assms
proof (induction bs arbitrary: a)
  case Nil
  then show ?case by simp
next
  case (Cons b bs)
  note nb = tiled_next [OF Cons.prems(1)]
  have ha: "h a = b" "block_ok b" and t: "tiled h (a + unat (bh_size b)) bs (arena + HEAP_ARENA_SIZE)"
    using Cons.prems by simp_all
  show ?case
  proof (cases "fits need b")
    case True
    then have "find_fit arena h need a = Some (Some a)"
      using ha by (simp add: find_fit.simps [of arena h need a] fits_def)
    then show ?thesis
      using True Cons.prems by (intro disjI2 exI [of _ "[]"] exI [of _ b] exI [of _ bs] exI [of _ a]) simp
  next
    case False
    then have st: "find_fit arena h need a
        = (case next_block arena h a of None \<Rightarrow> Some None | Some n \<Rightarrow> find_fit arena h need n)"
      unfolding find_fit.simps [of arena h need a] ha(1) fits_def by (rule if_not_P)
    show ?thesis
    proof (cases "bs = []")
      case True
      then show ?thesis using st nb False by simp
    next
      case ne: False
      have eq: "find_fit arena h need a = find_fit arena h need (a + unat (bh_size b))" using st nb ne by simp
      from Cons.IH [OF t ne] show ?thesis
      proof
        assume "(\<forall>b \<in> set bs. \<not> fits need b) \<and> find_fit arena h need (a + unat (bh_size b)) = Some None"
        then show ?thesis using eq False by simp
      next
        assume "\<exists>pre c post m. bs = pre @ c # post \<and> fits need c \<and> tiled h (a + unat (bh_size b)) pre m
          \<and> tiled h m (c # post) (arena + HEAP_ARENA_SIZE) \<and> find_fit arena h need (a + unat (bh_size b)) = Some (Some m)"
        then obtain pre c post m where r: "bs = pre @ c # post" "fits need c" "tiled h (a + unat (bh_size b)) pre m"
          "tiled h m (c # post) (arena + HEAP_ARENA_SIZE)" "find_fit arena h need (a + unat (bh_size b)) = Some (Some m)"
          by blast
        then show ?thesis using eq ha
          by (intro disjI2 exI [of _ "b # pre"] exI [of _ c] exI [of _ post] exI [of _ m]) simp
      qed
    qed
  qed
qed


lemma unat_ucast_u32_u64 [simp]: "unat (ucast (x :: u32) :: u64) = unat x"
  using unat_lt_pow [of x] by (simp add: unsigned_ucast_eq take_bit_nat_eq_self)

lemma unat_ucast_u64_u32: "unat x < 2 ^ 32 \<Longrightarrow> unat (ucast (x :: u64) :: u32) = unat x"
  by (simp add: unsigned_ucast_eq take_bit_nat_eq_self)

lemma ucast_u32_u64: "(ucast (x :: u32) :: u64) = of_nat (unat x)"
proof (rule unsigned_word_eqI)
  show "unat (ucast x :: u64) = unat (of_nat (unat x) :: u64)"
    using unat_lt_pow [of x] by (simp only: unat_ucast_u32_u64) simp
qed

lemma take_block_in_use:
  "g_bytes_in_use (take_block m need hp) = g_bytes_in_use hp + of_nat (unat (bh_size (hdr (take_block m need hp) m)))"
  unfolding ucast_u32_u64 [symmetric] by (simp add: take_block_def Let_def)

lemma take_block_tiled:
  assumes "tiled (hdr hp) m (b # post) e" and "fits need b" and "32 \<le> unat need" and "16 dvd unat need"
  shows "\<exists>mid n. tiled (hdr (take_block m need hp)) m (mid @ post) e \<and> unat need \<le> n \<and> n \<le> unat (bh_size b)
     \<and> allocated m (mid @ post) = (m, n) # allocated (m + unat (bh_size b)) post
     \<and> blocks_free mid + n = unat (bh_size b) \<and> g_bytes_in_use (take_block m need hp) = g_bytes_in_use hp + of_nat n
     \<and> (\<forall>x < m. hdr (take_block m need hp) x = hdr hp x)"
proof -
  define S where "S = unat (bh_size b)"
  define N where "N = unat need"
  have hb: "hdr hp m = b" "block_ok b" and tp: "tiled (hdr hp) (m + S) post e" using assms(1) by (simp_all add: S_def)
  have le: "N \<le> S" using assms(2) by (simp add: fits_def word_le_unat N_def S_def)
  have fb: "bh_free b = 1" using assms(2) hb(2) by (auto simp: fits_def block_ok_def)
  have S32: "S < 2 ^ 32" using unat_lt_pow [of "bh_size b"] by (simp add: S_def)
  have sub: "unat (ucast (bh_size b) - need) = S - N"
    using le unat_minus_no_wrap [of need "ucast (bh_size b)"] by (simp add: word_le_unat N_def S_def)
  have guard: "(of_nat BH + ucast HEAP_ALIGN \<le> ucast (bh_size b) - need) = (32 \<le> S - N)"
    using sub by (simp add: word_le_unat BH_def HEAP_ALIGN_def)
  have dS: "16 dvd S" "32 \<le> S" using hb(2) by (simp_all add: block_ok_def S_def)
  show ?thesis
  proof (cases "32 \<le> S - N")
    case True
    define b1 where "b1 = b\<lparr>bh_size := ucast need, bh_free := 0, bh_magic := HEAP_MAGIC\<rparr>"
    define sp where "sp = \<lparr>bh_size = (ucast (ucast (bh_size b) - need :: u64) :: u32), bh_free = 1, bh_magic = 0, bh_pad = 0\<rparr>"
    have s1: "unat (bh_size b1) = N" using le S32 by (simp add: b1_def unat_ucast_u64_u32 N_def)
    have s2: "unat (bh_size sp) = S - N" using sub S32 by (simp add: sp_def unat_ucast_u64_u32)
    have h: "hdr (take_block m need hp) = (hdr hp)(m + N := sp, m := b1)"
      using True assms(3) unfolding take_block_def split_block_def Let_def hb(1) guard
      by (simp add: sp_def b1_def N_def)
    have N0: "0 < N" using assms(3) by (simp add: N_def)
    have "tiled (hdr (take_block m need hp)) (m + S) post e"
      using True N0 le by (intro tiled_cong [OF tp]) (auto simp: h)
    moreover have "block_ok b1" "block_ok sp"
      using s1 s2 assms(3,4) True dS le by (simp_all add: block_ok_def b1_def sp_def N_def dvd_diff_nat)
    ultimately have t: "tiled (hdr (take_block m need hp)) m ([b1, sp] @ post) e"
      using N0 s1 s2 le by (simp add: h)
    have u: "g_bytes_in_use (take_block m need hp) = g_bytes_in_use hp + of_nat N"
      unfolding take_block_in_use h by (simp only: fun_upd_same s1)
    show ?thesis
      using t u s1 s2 le N0 h
      by (intro exI [of _ "[b1, sp]"] exI [of _ N]) (simp add: blocks_free_def b1_def sp_def N_def S_def)
  next
    case False
    define b1 where "b1 = b\<lparr>bh_free := 0, bh_magic := HEAP_MAGIC\<rparr>"
    have s1: "unat (bh_size b1) = S" by (simp add: b1_def S_def)
    have h: "hdr (take_block m need hp) = (hdr hp)(m := b1)"
      using False unfolding take_block_def split_block_def Let_def hb(1) guard by (simp add: b1_def hb(1))
    have "tiled (hdr (take_block m need hp)) (m + S) post e"
      using dS by (intro tiled_cong [OF tp]) (auto simp: h)
    moreover have "block_ok b1" using dS s1 by (simp add: block_ok_def) (simp add: b1_def)
    ultimately have t: "tiled (hdr (take_block m need hp)) m ([b1] @ post) e" using s1 by (simp add: h)
    have u: "g_bytes_in_use (take_block m need hp) = g_bytes_in_use hp + of_nat S"
      unfolding take_block_in_use h by (simp only: fun_upd_same s1)
    show ?thesis
      using t u s1 le h by (intro exI [of _ "[b1]"] exI [of _ S]) (simp add: blocks_free_def b1_def N_def S_def)
  qed
qed


text \<open>The size of the block that a request needs.\<close>

definition block_need :: "nat \<Rightarrow> nat" where
  "block_need k = (k + 31) div 16 * 16"

lemma heap_need:
  assumes "unat size1 + 31 < 2 ^ 64"
  shows "unat (heap_align_up (of_nat BH + size1) (ucast HEAP_ALIGN)) = block_need (unat size1)"
proof -
  have p: "unat (of_nat BH + size1 + 15) = unat size1 + 31"
    using assms by (simp add: BH_def unat_plus_no_wrap)
  have "heap_align_up (of_nat BH + size1) (ucast HEAP_ALIGN) = (of_nat BH + size1 + 15) AND NOT (mask 4)"
    by (simp add: heap_align_up_def HEAP_ALIGN_def mask_eq_exp_minus_1)
  then show ?thesis
    by (simp only: unat_and_not_mask p) (simp add: block_need_def minus_mod_eq_div_mult)
qed

lemma block_need_bounds: "k + 16 \<le> block_need k" "16 dvd block_need k" "0 < k \<Longrightarrow> 32 \<le> block_need k"
proof -
  show "k + 16 \<le> block_need k" by (simp add: block_need_def)
  show "16 dvd block_need k" by (simp add: block_need_def)
  assume "0 < k"
  then have "2 \<le> (k + 31) div 16" by (simp add: less_eq_div_iff_mult_less_eq)
  then show "32 \<le> block_need k" by (simp add: block_need_def)
qed

lemma blocks_free_append [simp]: "blocks_free (xs @ ys) = blocks_free xs + blocks_free ys"
  by (simp add: blocks_free_def)

lemma blocks_free_Cons [simp]:
  "blocks_free (b # bs) = (if bh_free b = 0 then 0 else unat (bh_size b)) + blocks_free bs"
  by (simp add: blocks_free_def)

lemma kmalloc_cases:
  assumes "heap_inv hp bs" and "size1 \<noteq> 0" and "unat size1 + 31 < 2 ^ 64"
  obtains msg where "kmalloc size1 hp = Some (Inl msg)"
      "\<forall>b \<in> set bs. bh_free b \<noteq> 0 \<longrightarrow> unat (bh_size b) < block_need (unat size1)"
  | m n pre mid post b hp1 where "kmalloc size1 hp = Some (Inr (m + BH, hp1))" "heap_inv hp1 (pre @ mid @ post)"
      "g_arena hp1 = g_arena hp" "bs = pre @ b # post" "bh_free b \<noteq> 0" "tiled (hdr hp) (g_arena hp) pre m"
      "tiled (hdr hp) m (b # post) (g_arena hp + HEAP_ARENA_SIZE)" "tiled (hdr hp1) (g_arena hp) pre m"
      "block_need (unat size1) \<le> n" "n \<le> unat (bh_size b)"
      "allocated m (mid @ post) = (m, n) # allocated (m + unat (bh_size b)) post"
proof -
  define need where "need = heap_align_up (of_nat BH + size1) (ucast HEAP_ALIGN)"
  have un: "unat need = block_need (unat size1)" using heap_need [OF assms(3)] by (simp add: need_def)
  have "0 < unat size1" using assms(2) by (simp add: unat_gt_0)
  note nb = block_need_bounds(3) [OF this] block_need_bounds(2) [of "unat size1"]
  have t: "tiled (hdr hp) (g_arena hp) bs (g_arena hp + HEAP_ARENA_SIZE)" using assms(1) by (simp add: heap_inv_def)
  have st: "kmalloc size1 hp = Option.bind (find_fit (g_arena hp) (hdr hp) need (g_arena hp))
      (\<lambda>r. Some (case r of None \<Rightarrow> Inl ''heap: out of memory, requested'' | Some b \<Rightarrow> Inr (b + BH, take_block b need hp)))"
    unfolding kmalloc_def need_def Let_def using assms(2) by (simp only: if_False)
  from find_fit_tiled [OF t heap_inv_nonempty [OF assms(1)], of need] show ?thesis
  proof
    assume f: "(\<forall>b \<in> set bs. \<not> fits need b) \<and> find_fit (g_arena hp) (hdr hp) need (g_arena hp) = Some None"
    then have "\<forall>b \<in> set bs. bh_free b \<noteq> 0 \<longrightarrow> unat (bh_size b) < block_need (unat size1)"
      by (auto simp: fits_def word_le_unat un not_le)
    then show ?thesis using that(1) st f by simp
  next
    assume "\<exists>pre b post m. bs = pre @ b # post \<and> fits need b \<and> tiled (hdr hp) (g_arena hp) pre m
      \<and> tiled (hdr hp) m (b # post) (g_arena hp + HEAP_ARENA_SIZE)
      \<and> find_fit (g_arena hp) (hdr hp) need (g_arena hp) = Some (Some m)"
    then obtain pre b post m where r: "bs = pre @ b # post" "fits need b" "tiled (hdr hp) (g_arena hp) pre m"
      "tiled (hdr hp) m (b # post) (g_arena hp + HEAP_ARENA_SIZE)"
      "find_fit (g_arena hp) (hdr hp) need (g_arena hp) = Some (Some m)" by blast
    define hp1 where "hp1 = take_block m need hp"
    obtain mid n where k: "tiled (hdr hp1) m (mid @ post) (g_arena hp + HEAP_ARENA_SIZE)" "unat need \<le> n" "n \<le> unat (bh_size b)"
      "allocated m (mid @ post) = (m, n) # allocated (m + unat (bh_size b)) post" "blocks_free mid + n = unat (bh_size b)"
      "g_bytes_in_use hp1 = g_bytes_in_use hp + of_nat n" "\<forall>x < m. hdr hp1 x = hdr hp x"
      using take_block_tiled [OF r(4,2)] nb unfolding un hp1_def by blast
    have ar: "g_arena hp1 = g_arena hp" by (simp add: hp1_def take_block_def Let_def)
    have tp: "tiled (hdr hp1) (g_arena hp) pre m" using k(7) by (intro tiled_cong [OF r(3)]) auto
    have fb: "bh_free b \<noteq> 0" using r(2) by (simp add: fits_def)
    have use1: "unat (g_bytes_in_use hp) + blocks_free pre + unat (bh_size b) + blocks_free post = HEAP_ARENA_SIZE"
      using assms(1) fb by (simp add: heap_inv_def r(1))
    then have "unat (g_bytes_in_use hp1) = unat (g_bytes_in_use hp) + n"
      using k(3) unfolding k(6) by (subst unat_plus_no_wrap) (auto simp: HEAP_ARENA_SIZE_def)
    then have inv: "heap_inv hp1 (pre @ mid @ post)"
      using assms(1) k(1,5) tp ar use1 by (auto simp: heap_inv_def tiled_append)
    have "kmalloc size1 hp = Some (Inr (m + BH, hp1))" using st r(5) by (simp add: hp1_def)
    from that(2) [OF this inv ar r(1) fb r(3,4) tp _ k(3,4)] k(2) show ?thesis by (simp add: un)
  qed
qed

lemma allocated_apart:
  assumes "tiled h a pre m" and "tiled h m (b # post) e" and "(x, k) \<in> set (allocated a pre) \<union> set (allocated (m + unat (bh_size b)) post)"
    and "n \<le> unat (bh_size b)"
  shows "{m..<m + n} \<inter> {x..<x + k} = {}"
proof -
  have "x + k \<le> m \<or> m + unat (bh_size b) \<le> x"
    using assms(3) allocated_bounds [OF assms(1)] allocated_bounds [of h "m + unat (bh_size b)" post e x k] assms(2) by auto
  then show ?thesis using assms(4) by auto
qed


lemma tiled_blocks_free: "tiled h a bs e \<Longrightarrow> a + blocks_free bs \<le> e"
proof (induction bs arbitrary: a)
  case Nil
  then show ?case by (simp add: blocks_free_def)
next
  case (Cons b bs)
  then have "a + unat (bh_size b) + blocks_free bs \<le> e" by simp
  then show ?case by simp
qed

lemma kfree_allocated:
  assumes "heap_inv hp bs" and "(a, n) \<in> set (allocated (g_arena hp) bs)"
  shows "\<exists>hp1 cs. kfree (a + BH) hp = Some hp1 \<and> heap_inv hp1 cs \<and> g_arena hp1 = g_arena hp \<and> no_free_neighbours cs
     \<and> set (allocated (g_arena hp) cs) = set (allocated (g_arena hp) bs) - {(a, n)}
     \<and> unat (g_bytes_in_use hp1) = unat (g_bytes_in_use hp) - n \<and> bh_magic (hdr hp1 a) = 0"
proof -
  define A where "A = g_arena hp"
  define E where "E = A + HEAP_ARENA_SIZE"
  have t: "tiled (hdr hp) A bs E" using assms(1) by (simp add: heap_inv_def A_def E_def)
  from allocated_split [OF t assms(2) [folded A_def]]
  obtain pre b post where r: "bs = pre @ b # post" "tiled (hdr hp) A pre a" "tiled (hdr hp) a (b # post) E"
    "bh_free b = 0" "n = unat (bh_size b)" by blast
  have hb: "hdr hp a = b" "block_ok b" and tp: "tiled (hdr hp) (a + n) post E" using r(3,5) by simp_all
  have n32: "32 \<le> n" and mg: "bh_magic b = HEAP_MAGIC" using hb(2) r(4,5) by (auto simp: block_ok_def)
  have in1: "A + BH \<le> a + BH" "a + BH < E"
    using tiled_le [OF r(2)] tiled_le [OF tp] n32 by (auto simp: BH_def)
  define b1 where "b1 = b\<lparr>bh_free := 1, bh_magic := 0\<rparr>"
  define h where "h = (hdr hp)(a := b1)"
  have s1: "unat (bh_size b1) = n" by (simp add: b1_def r(5))
  have "tiled h (a + n) post E" using n32 by (intro tiled_cong [OF tp]) (auto simp: h_def)
  moreover have "block_ok b1" using hb(2) by (auto simp: block_ok_def b1_def)
  moreover have "tiled h A pre a" by (intro tiled_cong [OF r(2)]) (auto simp: h_def)
  ultimately have t1: "tiled h A (pre @ b1 # post) E" using s1 by (auto simp: tiled_append h_def)
  from coalesce_tiled [of h A "pre @ b1 # post" A] t1
  obtain h1 cs where c: "coalesce_from A A h = Some h1" "tiled h1 A cs E" "no_free_neighbours cs"
    "allocated A cs = allocated A (pre @ b1 # post)" "blocks_free cs = blocks_free (pre @ b1 # post)" by (auto simp: E_def)
  have al: "allocated A bs = allocated A pre @ (a, n) # allocated (a + n) post"
    using allocated_append [OF r(2), of "b # post"] r(1,4,5) by simp
  have al1: "allocated A cs = allocated A pre @ allocated (a + n) post"
    using c(4) allocated_append [OF \<open>tiled h A pre a\<close>, of "b1 # post"] s1 by (simp add: b1_def)
  have "(a, n) \<notin> set (allocated A pre)" using allocated_bounds [OF r(2), of a n] n32 by auto
  moreover have "(a, n) \<notin> set (allocated (a + n) post)" using allocated_bounds [OF tp, of a n] n32 by auto
  ultimately have set1: "set (allocated A cs) = set (allocated A bs) - {(a, n)}" using al al1 by auto
  have bf: "blocks_free cs = blocks_free bs + n" using c(5) r(1,4) s1 by (simp add: b1_def)
  have "blocks_free cs \<le> HEAP_ARENA_SIZE" using tiled_blocks_free [OF c(2)] by (simp add: E_def)
  then have use_ge: "n \<le> unat (g_bytes_in_use hp)" using assms(1) bf by (simp add: heap_inv_def)
  define hp1 where "hp1 = hp\<lparr>hdr := h1, g_bytes_in_use := g_bytes_in_use hp - of_nat n, g_free_count := g_free_count hp + 1\<rparr>"
  have sz: "(ucast (bh_size b) :: u64) = of_nat n" using ucast_u32_u64 by (simp add: r(5))
  have n64: "unat (of_nat n :: u64) = n" using unat_lt_pow [of "bh_size b"] by (simp add: r(5))
  have "unat (bh_size b) \<le> unat (g_bytes_in_use hp)" using use_ge by (simp only: r(5))
  then have "kfree (a + BH) hp = Some hp1"
    using in1 mg hb(1) c(1) use_ge n64
    by (simp add: kfree_def A_def [symmetric] E_def [symmetric] coalesce_def Let_def h_def b1_def sz word_le_unat hp1_def BH_def)
  moreover have un: "unat (g_bytes_in_use hp1) = unat (g_bytes_in_use hp) - n"
    using use_ge n64 by (simp add: hp1_def unat_minus_no_wrap word_le_unat)
  moreover have "heap_inv hp1 cs"
    using assms(1) c(2) bf un use_ge by (simp add: heap_inv_def hp1_def A_def E_def)
  moreover have "bh_magic (hdr hp1 a) = 0"
    using coalesce_from_magic [OF c(1), of a] by (simp add: hp1_def h_def b1_def)
  ultimately show ?thesis using c(3) set1 by (intro exI [of _ hp1] exI [of _ cs]) (simp add: A_def hp1_def)
qed


lemma free_stats_tiled:
  assumes "tiled h a bs (arena + HEAP_ARENA_SIZE)" and "bs \<noteq> []"
  shows "\<exists>l. free_stats arena h a acc = Some (fst acc + of_nat (blocks_free bs), l)"
  using assms
proof (induction bs arbitrary: a acc)
  case Nil
  then show ?case by simp
next
  case (Cons b bs)
  define acc1 where "acc1 = (if bh_free b \<noteq> 0
     then (fst acc + ucast (bh_size b), if ucast (bh_size b) > snd acc then ucast (bh_size b) else snd acc) else acc)"
  have st: "free_stats arena h a acc = (case next_block arena h a of None \<Rightarrow> Some acc1 | Some n \<Rightarrow> free_stats arena h n acc1)"
  proof -
    have "h a = b" using Cons.prems by simp
    then show ?thesis unfolding free_stats.simps [of arena h a acc] acc1_def Let_def by (simp only:)
  qed
  have f: "fst acc1 = fst acc + of_nat (if bh_free b = 0 then 0 else unat (bh_size b))"
    unfolding acc1_def ucast_u32_u64 by (simp del: of_nat_unat)
  show ?case
  proof (cases "bs = []")
    case True
    then have "free_stats arena h a acc = Some acc1" using st tiled_next [OF Cons.prems(1)] by simp
    then show ?thesis using f True by (intro exI [of _ "snd acc1"]) (simp add: prod_eq_iff blocks_free_def)
  next
    case False
    have eq: "free_stats arena h a acc = free_stats arena h (a + unat (bh_size b)) acc1"
      using st tiled_next [OF Cons.prems(1)] False by simp
    have t: "tiled h (a + unat (bh_size b)) bs (arena + HEAP_ARENA_SIZE)" using Cons.prems(1) by simp
    show ?thesis using Cons.IH [OF t False, of acc1] f eq by (auto simp: add.assoc)
  qed
qed

subsection \<open>Properties\<close>

text \<open>
  C8. On a heap whose blocks tile the arena, \<open>kmalloc\<close> returns for every size that does not wrap.
  It panics only when no free block is large enough.  Otherwise the pointer is 16 byte aligned, the
  requested bytes lie inside the arena and meet no allocated block, every earlier allocation is
  kept, and the blocks still tile the arena.
\<close>

theorem kmalloc_correct:
  assumes "heap_inv hp bs" and "size1 \<noteq> 0" and "unat size1 + 31 < 2 ^ 64"
  shows "\<exists>r. kmalloc size1 hp = Some r \<and> (case r of
       Inl msg \<Rightarrow> \<forall>b \<in> set bs. bh_free b \<noteq> 0 \<longrightarrow> unat (bh_size b) < block_need (unat size1)
     | Inr (p, hp1) \<Rightarrow> \<exists>a n cs. p = a + BH \<and> heap_inv hp1 cs \<and> g_arena hp1 = g_arena hp \<and> 16 dvd p
         \<and> g_arena hp \<le> a \<and> p + unat size1 \<le> a + n \<and> a + n \<le> g_arena hp + HEAP_ARENA_SIZE
         \<and> (\<forall>(x, k) \<in> set (allocated (g_arena hp) bs). {a..<a + n} \<inter> {x..<x + k} = {})
         \<and> set (allocated (g_arena hp) cs) = insert (a, n) (set (allocated (g_arena hp) bs)))"
  using assms
proof (cases rule: kmalloc_cases)
  case (1 msg)
  then show ?thesis by simp
next
  case (2 m n pre mid post b hp1)
  have "16 dvd g_arena hp" using assms(1) by (simp add: heap_inv_def)
  then have al: "16 dvd m + BH" using tiled_aligned [OF 2(6)] by (simp add: BH_def)
  have bs: "allocated (g_arena hp) bs = allocated (g_arena hp) pre @ allocated (m + unat (bh_size b)) post"
    using allocated_append [OF 2(6), of "b # post"] 2(4,5) by simp
  have cs: "allocated (g_arena hp) (pre @ mid @ post) = allocated (g_arena hp) pre @ (m, n) # allocated (m + unat (bh_size b)) post"
    using allocated_append [OF 2(8), of "mid @ post"] 2(11) by simp
  have "m + unat (bh_size b) \<le> g_arena hp + HEAP_ARENA_SIZE" using 2(7) by (auto intro: tiled_le)
  then have fit: "m + BH + unat size1 \<le> m + n" "m + n \<le> g_arena hp + HEAP_ARENA_SIZE"
    using 2(9,10) block_need_bounds(1) [of "unat size1"] by (simp_all add: BH_def)
  have "\<forall>(x, k) \<in> set (allocated (g_arena hp) bs). {m..<m + n} \<inter> {x..<x + k} = {}"
    using allocated_apart [OF 2(6,7) _ 2(10)] bs by fastforce
  then have "\<exists>a n cs. m + BH = a + BH \<and> heap_inv hp1 cs \<and> g_arena hp1 = g_arena hp \<and> 16 dvd (m + BH)
         \<and> g_arena hp \<le> a \<and> m + BH + unat size1 \<le> a + n \<and> a + n \<le> g_arena hp + HEAP_ARENA_SIZE
         \<and> (\<forall>(x, k) \<in> set (allocated (g_arena hp) bs). {a..<a + n} \<inter> {x..<x + k} = {})
         \<and> set (allocated (g_arena hp) cs) = insert (a, n) (set (allocated (g_arena hp) bs))"
    using 2(2,3) al tiled_le [OF 2(6)] fit bs cs by (intro exI [of _ m] exI [of _ n] exI [of _ "pre @ mid @ post"]) simp
  then show ?thesis unfolding 2(1) by (intro exI [of _ "Inr (m + BH, hp1)"]) simp
qed

text \<open>
  C16. \<open>kfree\<close> of an allocated block ends, removes exactly that block from the allocated ones, gives
  its bytes back to the count in use, and leaves no two free blocks next to each other.  Freeing the
  same pointer again changes nothing.
\<close>

theorem kfree_correct:
  assumes "heap_inv hp bs" and "(a, n) \<in> set (allocated (g_arena hp) bs)"
  shows "\<exists>hp1 cs. kfree (a + BH) hp = Some hp1 \<and> heap_inv hp1 cs \<and> no_free_neighbours cs
     \<and> set (allocated (g_arena hp) cs) = set (allocated (g_arena hp) bs) - {(a, n)}
     \<and> unat (g_bytes_in_use hp1) = unat (g_bytes_in_use hp) - n \<and> kfree (a + BH) hp1 = Some hp1"
proof -
  from kfree_allocated [OF assms] obtain hp1 cs where r: "kfree (a + BH) hp = Some hp1" "heap_inv hp1 cs" "no_free_neighbours cs"
     "set (allocated (g_arena hp) cs) = set (allocated (g_arena hp) bs) - {(a, n)}"
     "unat (g_bytes_in_use hp1) = unat (g_bytes_in_use hp) - n" "bh_magic (hdr hp1 a) = 0" by blast
  have "kfree (a + BH) hp1 = Some hp1" using r(6) by (simp add: kfree_def HEAP_MAGIC_def)
  then show ?thesis using r by blast
qed

text \<open>
  The bytes that \<open>heap_dump_stats\<close> reports in use and free always add up to the arena.
\<close>

theorem heap_stats_conserve:
  assumes "heap_inv hp bs"
  shows "\<exists>in_use free1 rest. heap_dump_stats hp = Some (of_nat HEAP_ARENA_SIZE # in_use # free1 # rest)
     \<and> unat in_use + unat free1 = HEAP_ARENA_SIZE"
proof -
  have t: "tiled (hdr hp) (g_arena hp) bs (g_arena hp + HEAP_ARENA_SIZE)" using assms by (simp add: heap_inv_def)
  obtain l where l: "free_stats (g_arena hp) (hdr hp) (g_arena hp) (0, 0) = Some (of_nat (blocks_free bs), l)"
    using free_stats_tiled [OF t heap_inv_nonempty [OF assms], of "(0, 0)"] by auto
  have "blocks_free bs < 2 ^ 64" using tiled_blocks_free [OF t] by (simp add: HEAP_ARENA_SIZE_def)
  then have "unat (of_nat (blocks_free bs) :: u64) = blocks_free bs" by simp
  then show ?thesis using l assms by (simp add: heap_dump_stats_def heap_inv_def)
qed


subsection \<open>Examples\<close>

text \<open>A heap of one free block, and one whose first 64 bytes are allocated.\<close>

definition example_heap :: heap where
  "example_heap = heap_init \<lparr>g_arena = 0x200000, hdr = (\<lambda>a. \<lparr>bh_size = 0, bh_free = 0, bh_magic = 0, bh_pad = 0\<rparr>),
     g_alloc_count = 7, g_free_count = 7, g_bytes_in_use = 7, g_high_water = 7\<rparr>"

definition example_block :: block_header where
  "example_block = \<lparr>bh_size = of_nat HEAP_ARENA_SIZE, bh_free = 1, bh_magic = 0, bh_pad = 0\<rparr>"

lemma example_heap_inv: "heap_inv example_heap [example_block]" "g_arena example_heap = 0x200000"
  by (simp_all add: example_heap_def example_block_def heap_inv_def heap_init_def block_ok_def blocks_free_def HEAP_ARENA_SIZE_def)

definition example_heap2 :: heap where
  "example_heap2 = \<lparr>g_arena = 0x200000,
     hdr = (\<lambda>a. if a = 0x200000 then \<lparr>bh_size = 64, bh_free = 0, bh_magic = HEAP_MAGIC, bh_pad = 0\<rparr>
                else \<lparr>bh_size = of_nat (HEAP_ARENA_SIZE - 64), bh_free = 1, bh_magic = 0, bh_pad = 0\<rparr>),
     g_alloc_count = 1, g_free_count = 0, g_bytes_in_use = 64, g_high_water = 64\<rparr>"

definition example_blocks2 :: "block_header list" where
  "example_blocks2 = [\<lparr>bh_size = 64, bh_free = 0, bh_magic = HEAP_MAGIC, bh_pad = 0\<rparr>,
     \<lparr>bh_size = of_nat (HEAP_ARENA_SIZE - 64), bh_free = 1, bh_magic = 0, bh_pad = 0\<rparr>]"

lemma example_heap2_inv:
  "heap_inv example_heap2 example_blocks2" "allocated (g_arena example_heap2) example_blocks2 = [(0x200000, 64)]"
  by (simp_all add: example_heap2_def example_blocks2_def heap_inv_def block_ok_def blocks_free_def HEAP_ARENA_SIZE_def)

theorem kmalloc_correct_witness:
  "\<exists>p hp1 cs. kmalloc 100 example_heap = Some (Inr (p, hp1)) \<and> heap_inv hp1 cs \<and> 16 dvd p"
proof -
  have s: "(100 :: u64) \<noteq> 0" "unat (100 :: u64) + 31 < 2 ^ 64" by simp_all
  obtain r where r: "kmalloc 100 example_heap = Some r"
    and c: "case r of Inl msg \<Rightarrow> \<forall>b \<in> set [example_block]. bh_free b \<noteq> 0 \<longrightarrow> unat (bh_size b) < block_need (unat (100 :: u64))
     | Inr (p, hp1) \<Rightarrow> \<exists>a n cs. p = a + BH \<and> heap_inv hp1 cs \<and> g_arena hp1 = g_arena example_heap \<and> 16 dvd p
         \<and> g_arena example_heap \<le> a \<and> p + unat (100 :: u64) \<le> a + n \<and> a + n \<le> g_arena example_heap + HEAP_ARENA_SIZE
         \<and> (\<forall>(x, k) \<in> set (allocated (g_arena example_heap) [example_block]). {a..<a + n} \<inter> {x..<x + k} = {})
         \<and> set (allocated (g_arena example_heap) cs) = insert (a, n) (set (allocated (g_arena example_heap) [example_block]))"
    using kmalloc_correct [OF example_heap_inv(1) s] by blast
  show ?thesis
  proof (cases r)
    case (Inl msg)
    then show ?thesis using c by (simp add: example_block_def block_need_def HEAP_ARENA_SIZE_def)
  next
    case (Inr q)
    then show ?thesis using r c by (cases q) auto
  qed
qed

theorem kfree_correct_witness:
  "\<exists>hp1 cs. kfree (0x200000 + BH) example_heap2 = Some hp1 \<and> heap_inv hp1 cs \<and> allocated (g_arena example_heap2) cs = []
     \<and> kfree (0x200000 + BH) hp1 = Some hp1"
proof -
  have m: "(0x200000, 64) \<in> set (allocated (g_arena example_heap2) example_blocks2)" unfolding example_heap2_inv(2) by simp
  show ?thesis using kfree_correct [OF example_heap2_inv(1) m] unfolding example_heap2_inv(2) by auto
qed

theorem heap_stats_conserve_witness:
  "\<exists>in_use free1 rest. heap_dump_stats example_heap2 = Some (of_nat HEAP_ARENA_SIZE # in_use # free1 # rest)
     \<and> unat in_use + unat free1 = HEAP_ARENA_SIZE"
  by (rule heap_stats_conserve [OF example_heap2_inv(1)])

end
