(* ===== verification/Vmregion.thy ===== *)
theory Vmregion
  imports Pmm
begin

text \<open>
  \<open>kernel/memory/vmregion.c\<close>: the ordered set of regions of an address space.  The intrusive list
  of regions is a list of records, each with the address \<open>vr_node\<close> of its node, so that the
  removal loop can hold a pointer to a node while the list changes.  The allocation of a region
  object is the argument \<open>alloc\<close>: the address of a fresh object for the current map, or \<open>None\<close>.
\<close>

definition VM_PROT_READ :: u32 where "VM_PROT_READ = 1"
definition VM_PROT_WRITE :: u32 where "VM_PROT_WRITE = 2"
definition VM_PROT_EXEC :: u32 where "VM_PROT_EXEC = 4"
definition VM_FLAG_COW :: u32 where "VM_FLAG_COW = 8"

record vm_region =
  vr_node :: nat
  vr_start :: u64
  vr_end :: u64
  vr_prot :: u32
  vr_flags :: u32
  vr_name :: string
  vr_fault_count :: u64

record vm_map =
  vm_regions :: "vm_region list"
  vm_base :: u64
  vm_limit :: u64
  vm_region_count :: u64
  vm_total_mapped :: u64
  vm_name :: string
  vm_minor_faults :: u64
  vm_major_faults :: u64
  vm_cow_faults :: u64
  vm_protection_faults :: u64

definition vm_map_init :: "u64 \<Rightarrow> u64 \<Rightarrow> string \<Rightarrow> vm_map" where
  "vm_map_init base limit name = \<lparr>vm_regions = [], vm_base = base, vm_limit = limit, vm_region_count = 0,
     vm_total_mapped = 0, vm_name = name, vm_minor_faults = 0, vm_major_faults = 0, vm_cow_faults = 0,
     vm_protection_faults = 0\<rparr>"

definition vm_map_destroy :: "vm_map \<Rightarrow> vm_map" where
  "vm_map_destroy m = m\<lparr>vm_regions := [], vm_region_count := 0, vm_total_mapped := 0\<rparr>"

definition vm_map_overlaps :: "vm_map \<Rightarrow> u64 \<Rightarrow> u64 \<Rightarrow> bool" where
  "vm_map_overlaps m start end1 = list_ex (\<lambda>r. start < vr_end r \<and> vr_start r < end1) (vm_regions m)"

definition aligned_range :: "u64 \<Rightarrow> u64 \<Rightarrow> bool" where
  "aligned_range start end1 \<longleftrightarrow> start AND PAGE_MASK = 0 \<and> end1 AND PAGE_MASK = 0 \<and> start < end1"

fun insert_region :: "vm_region \<Rightarrow> vm_region list \<Rightarrow> vm_region list" where
  "insert_region nr [] = [nr]"
| "insert_region nr (r # rs) = (if vr_start r > vr_start nr then nr # r # rs else r # insert_region nr rs)"

type_synonym region_alloc = "vm_map \<Rightarrow> nat option"

definition vm_map_insert ::
  "region_alloc \<Rightarrow> vm_map \<Rightarrow> u64 \<Rightarrow> u64 \<Rightarrow> u32 \<Rightarrow> u32 \<Rightarrow> string \<Rightarrow> bool \<times> vm_map" where
  "vm_map_insert alloc m start end1 prot flags name =
     (if \<not> aligned_range start end1 then (False, m)
      else if start < vm_base m \<or> end1 > vm_limit m then (False, m)
      else if vm_map_overlaps m start end1 then (False, m)
      else (case alloc m of
          None \<Rightarrow> (False, m)
        | Some a \<Rightarrow>
            (let nr = \<lparr>vr_node = a, vr_start = start, vr_end = end1, vr_prot = prot, vr_flags = flags,
                       vr_name = name, vr_fault_count = 0\<rparr>
             in (True, m\<lparr>vm_regions := insert_region nr (vm_regions m),
                         vm_region_count := vm_region_count m + 1,
                         vm_total_mapped := vm_total_mapped m + (end1 - start)\<rparr>))))"

fun find_region :: "vm_region list \<Rightarrow> u64 \<Rightarrow> vm_region option" where
  "find_region [] addr = None"
| "find_region (r # rs) addr =
     (if addr \<ge> vr_start r \<and> addr < vr_end r then Some r
      else if vr_start r > addr then None
      else find_region rs addr)"

definition vm_map_find :: "vm_map \<Rightarrow> u64 \<Rightarrow> vm_region option" where
  "vm_map_find m addr = find_region (vm_regions m) addr"

text \<open>The loop of \<open>vm_map_find_free\<close>: \<open>Inl\<close> is an early return, \<open>Inr\<close> the cursor at the end.\<close>

fun free_loop :: "vm_region list \<Rightarrow> u64 \<Rightarrow> u64 \<Rightarrow> u64 + u64" where
  "free_loop [] cursor size1 = Inr cursor"
| "free_loop (r # rs) cursor size1 =
     (if vr_end r \<le> cursor then free_loop rs cursor size1
      else if vr_start r \<ge> cursor + size1 then Inl cursor
      else free_loop rs (if vr_end r > cursor then vr_end r else cursor) size1)"

definition vm_map_find_free :: "vm_map \<Rightarrow> u64 \<Rightarrow> u64 \<Rightarrow> u64" where
  "vm_map_find_free m hint size0 =
     (let size1 = PAGE_ALIGN_UP size0 in
      if size1 = 0 then 0
      else
        (let cursor = (if hint < vm_base m then vm_base m else PAGE_ALIGN_UP hint) in
         case free_loop (vm_regions m) cursor size1 of
           Inl c \<Rightarrow> c
         | Inr c \<Rightarrow> if c + size1 \<le> vm_limit m then c else 0))"

text \<open>A node, its successor in the list, and updates of the region at a node.\<close>

fun next_node :: "vm_region list \<Rightarrow> nat \<Rightarrow> nat option" where
  "next_node (r # s # rs) p = (if vr_node r = p then Some (vr_node s) else next_node (s # rs) p)"
| "next_node rs p = None"

definition region_at :: "vm_region list \<Rightarrow> nat \<Rightarrow> vm_region option" where
  "region_at rs p = find (\<lambda>r. vr_node r = p) rs"

definition update_region :: "nat \<Rightarrow> (vm_region \<Rightarrow> vm_region) \<Rightarrow> vm_region list \<Rightarrow> vm_region list" where
  "update_region p f rs = map (\<lambda>r. if vr_node r = p then f r else r) rs"

definition remove_body :: "region_alloc \<Rightarrow> u64 \<Rightarrow> u64 \<Rightarrow> vm_region \<Rightarrow> vm_map \<Rightarrow> vm_map" where
  "remove_body alloc start end1 r m =
     (if start \<le> vr_start r \<and> end1 \<ge> vr_end r
      then m\<lparr>vm_total_mapped := vm_total_mapped m - (vr_end r - vr_start r),
             vm_regions := filter (\<lambda>s. vr_node s \<noteq> vr_node r) (vm_regions m),
             vm_region_count := vm_region_count m - 1\<rparr>
      else if start > vr_start r \<and> end1 < vr_end r
      then (let right_start = end1; right_end = vr_end r;
                m = m\<lparr>vm_total_mapped := vm_total_mapped m - (vr_end r - vr_start r) + (start - vr_start r),
                       vm_regions := update_region (vr_node r) (\<lambda>r. r\<lparr>vr_end := start\<rparr>) (vm_regions m)\<rparr>
            in snd (vm_map_insert alloc m right_start right_end (vr_prot r) (vr_flags r) (vr_name r)))
      else if start \<le> vr_start r
      then m\<lparr>vm_total_mapped := vm_total_mapped m - (end1 - vr_start r),
             vm_regions := update_region (vr_node r) (\<lambda>r. r\<lparr>vr_start := end1\<rparr>) (vm_regions m)\<rparr>
      else m\<lparr>vm_total_mapped := vm_total_mapped m - (vr_end r - start),
             vm_regions := update_region (vr_node r) (\<lambda>r. r\<lparr>vr_end := start\<rparr>) (vm_regions m)\<rparr>)"

text \<open>
  The loop \<open>list_for_each_safe\<close> of \<open>vm_map_remove\<close>: the successor of the node is read before the
  body changes the list.
\<close>

partial_function (option) remove_loop ::
  "region_alloc \<Rightarrow> u64 \<Rightarrow> u64 \<Rightarrow> nat option \<Rightarrow> u64 \<Rightarrow> vm_map \<Rightarrow> (u64 \<times> vm_map) option" where
  "remove_loop alloc start end1 p removed m =
     (case p of
        None \<Rightarrow> Some (removed, m)
      | Some a \<Rightarrow>
          (case region_at (vm_regions m) a of
             None \<Rightarrow> Some (removed, m)
           | Some r \<Rightarrow>
               (let tmp = next_node (vm_regions m) a in
                if end1 \<le> vr_start r \<or> start \<ge> vr_end r then remove_loop alloc start end1 tmp removed m
                else
                  (let ostart = (if vr_start r > start then vr_start r else start);
                       oend = (if vr_end r < end1 then vr_end r else end1)
                   in remove_loop alloc start end1 tmp (removed + (oend - ostart)) (remove_body alloc start end1 r m)))))"

definition vm_map_remove :: "region_alloc \<Rightarrow> vm_map \<Rightarrow> u64 \<Rightarrow> u64 \<Rightarrow> (u64 \<times> vm_map) option" where
  "vm_map_remove alloc m start end1 =
     (if \<not> aligned_range start end1 then Some (0, m)
      else remove_loop alloc start end1 (case vm_regions m of [] \<Rightarrow> None | r # rs \<Rightarrow> Some (vr_node r)) 0 m)"

definition touches :: "u64 \<Rightarrow> u64 \<Rightarrow> vm_region \<Rightarrow> bool" where
  "touches start end1 r \<longleftrightarrow> \<not> (end1 \<le> vr_start r \<or> start \<ge> vr_end r)"

definition vm_map_protect :: "vm_map \<Rightarrow> u64 \<Rightarrow> u64 \<Rightarrow> u32 \<Rightarrow> bool \<times> vm_map" where
  "vm_map_protect m start end1 prot =
     (if \<not> aligned_range start end1 then (False, m)
      else (length (filter (touches start end1) (vm_regions m)) \<noteq> 0,
            m\<lparr>vm_regions := map (\<lambda>r. if touches start end1 r then r\<lparr>vr_prot := prot\<rparr> else r) (vm_regions m)\<rparr>))"

definition vm_map_mark_cow :: "vm_map \<Rightarrow> u64 \<Rightarrow> u64 \<Rightarrow> nat \<times> vm_map" where
  "vm_map_mark_cow m start end1 =
     (length (filter (touches start end1) (vm_regions m)),
      m\<lparr>vm_regions := map (\<lambda>r.
          if touches start end1 r
          then (if vr_prot r AND VM_PROT_WRITE \<noteq> 0 then r\<lparr>vr_flags := vr_flags r OR VM_FLAG_COW\<rparr> else r)
          else r) (vm_regions m)\<rparr>)"

definition vm_map_account_fault :: "vm_map \<Rightarrow> u64 \<Rightarrow> bool \<Rightarrow> bool \<Rightarrow> nat option \<times> vm_map" where
  "vm_map_account_fault m addr write present =
     (case vm_map_find m addr of
        None \<Rightarrow> (None, m\<lparr>vm_major_faults := vm_major_faults m + 1\<rparr>)
      | Some r \<Rightarrow>
          (let m = m\<lparr>vm_regions := update_region (vr_node r) (\<lambda>r. r\<lparr>vr_fault_count := vr_fault_count r + 1\<rparr>) (vm_regions m)\<rparr>
           in (Some (vr_node r),
               if write \<and> vr_flags r AND VM_FLAG_COW \<noteq> 0 then m\<lparr>vm_cow_faults := vm_cow_faults m + 1\<rparr>
               else if write \<and> vr_prot r AND VM_PROT_WRITE = 0 then m\<lparr>vm_protection_faults := vm_protection_faults m + 1\<rparr>
               else if present then m\<lparr>vm_minor_faults := vm_minor_faults m + 1\<rparr>
               else m\<lparr>vm_major_faults := vm_major_faults m + 1\<rparr>)))"

subsection \<open>The invariant\<close>

fun ordered :: "vm_region list \<Rightarrow> bool" where
  "ordered [] = True"
| "ordered (r # rs) = ((\<forall>s \<in> set rs. vr_end r \<le> vr_start s) \<and> ordered rs)"

definition region_ok :: "u64 \<Rightarrow> u64 \<Rightarrow> vm_region \<Rightarrow> bool" where
  "region_ok base limit r \<longleftrightarrow> aligned_range (vr_start r) (vr_end r) \<and> base \<le> vr_start r \<and> vr_end r \<le> limit"

definition mapped_bytes :: "vm_region list \<Rightarrow> u64" where
  "mapped_bytes rs = sum_list (map (\<lambda>r. vr_end r - vr_start r) rs)"

definition vm_inv :: "vm_map \<Rightarrow> bool" where
  "vm_inv m \<longleftrightarrow> ordered (vm_regions m) \<and> list_all (region_ok (vm_base m) (vm_limit m)) (vm_regions m)
     \<and> distinct (map vr_node (vm_regions m)) \<and> vm_region_count m = of_nat (length (vm_regions m))
     \<and> vm_total_mapped m = mapped_bytes (vm_regions m)"

text \<open>What an address is mapped to: protection, flags and name.\<close>

definition mapping_at :: "vm_region list \<Rightarrow> u64 \<Rightarrow> (u32 \<times> u32 \<times> string) option" where
  "mapping_at rs a = map_option (\<lambda>r. (vr_prot r, vr_flags r, vr_name r)) (find (\<lambda>r. vr_start r \<le> a \<and> a < vr_end r) rs)"


lemma ordered_append:
  "ordered (xs @ ys) \<longleftrightarrow> ordered xs \<and> ordered ys \<and> (\<forall>x \<in> set xs. \<forall>y \<in> set ys. vr_end x \<le> vr_start y)"
  by (induction xs) auto

lemma mapping_at_Nil [simp]: "mapping_at [] a = None"
  by (simp add: mapping_at_def)

lemma mapping_at_Cons [simp]:
  "mapping_at (r # rs) a = (if vr_start r \<le> a \<and> a < vr_end r then Some (vr_prot r, vr_flags r, vr_name r) else mapping_at rs a)"
  by (simp add: mapping_at_def)

lemma mapping_at_append:
  "mapping_at (xs @ ys) a = (case mapping_at xs a of None \<Rightarrow> mapping_at ys a | Some v \<Rightarrow> Some v)"
  by (induction xs) auto

lemma mapping_at_None: "mapping_at rs a = None \<longleftrightarrow> (\<forall>r \<in> set rs. \<not> (vr_start r \<le> a \<and> a < vr_end r))"
  by (induction rs) auto

lemma mapped_bytes_append [simp]: "mapped_bytes (xs @ ys) = mapped_bytes xs + mapped_bytes ys"
  by (simp add: mapped_bytes_def)

lemma mapped_bytes_simps [simp]:
  "mapped_bytes [] = 0" "mapped_bytes (r # rs) = vr_end r - vr_start r + mapped_bytes rs"
  by (simp_all add: mapped_bytes_def)

lemma region_ok_less: "region_ok b l r \<Longrightarrow> vr_start r < vr_end r"
  by (simp add: region_ok_def aligned_range_def)

text \<open>A range of whole pages that is not empty.\<close>

definition page_range :: "u64 \<Rightarrow> u64 \<Rightarrow> bool" where
  "page_range s e \<longleftrightarrow> 4096 dvd unat s \<and> 4096 dvd unat e \<and> s < e"

lemma page_aligned_iff: "x AND PAGE_MASK = 0 \<longleftrightarrow> 4096 dvd unat x"
proof -
  have "unat (x AND PAGE_MASK) = unat x mod 4096"
    using unat_and_mask [of x 12] by (simp add: PAGE_MASK_def PAGE_SIZE_def mask_eq_exp_minus_1)
  then show ?thesis by (metis unat_eq_zero dvd_eq_mod_eq_0)
qed

lemma aligned_range_iff: "aligned_range s e \<longleftrightarrow> page_range s e"
  by (simp add: aligned_range_def page_range_def page_aligned_iff)

lemmas vm_inv_list = vm_inv_def list_all_append list.pred_inject ordered_append ordered.simps

subsection \<open>Lookup\<close>

lemma find_region_spec:
  assumes "ordered rs" and "list_all (region_ok b l) rs"
  shows "find_region rs a = find (\<lambda>r. vr_start r \<le> a \<and> a < vr_end r) rs"
  using assms
proof (induction rs)
  case Nil
  then show ?case by simp
next
  case (Cons r rs)
  show ?case
  proof (cases "vr_start r > a")
    case True
    have "\<not> (vr_start s \<le> a \<and> a < vr_end s)" if "s \<in> set rs" for s
    proof -
      have "vr_start r < vr_end r" "vr_end r \<le> vr_start s" using Cons.prems that region_ok_less by auto
      then show ?thesis using True by force
    qed
    then have "find (\<lambda>r. vr_start r \<le> a \<and> a < vr_end r) rs = None" by (simp add: find_None_iff)
    then show ?thesis using True by simp
  next
    case False
    then show ?thesis using Cons by auto
  qed
qed

subsection \<open>Insertion\<close>

lemma insert_region_split:
  assumes "ordered rs" and "list_all (region_ok b l) rs" and "vr_start nr < vr_end nr"
    and "\<not> list_ex (\<lambda>r. vr_start nr < vr_end r \<and> vr_start r < vr_end nr) rs"
  shows "\<exists>pre post. rs = pre @ post \<and> insert_region nr rs = pre @ nr # post
     \<and> (\<forall>r \<in> set pre. vr_end r \<le> vr_start nr) \<and> (\<forall>r \<in> set post. vr_end nr \<le> vr_start r)"
  using assms
proof (induction rs)
  case Nil
  then show ?case by simp
next
  case (Cons r rs)
  have r: "vr_start r < vr_end r" using Cons.prems(2) region_ok_less by auto
  have no: "vr_end r \<le> vr_start nr \<or> vr_end nr \<le> vr_start r" using Cons.prems(4) by (auto simp: not_less)
  show ?case
  proof (cases "vr_start r > vr_start nr")
    case True
    then have er: "vr_end nr \<le> vr_start r" using no r by force
    have "vr_end nr \<le> vr_start s" if "s \<in> set rs" for s
    proof -
      have "vr_end r \<le> vr_start s" using Cons.prems(1) that by simp
      then show ?thesis using er r by force
    qed
    then show ?thesis using True er by (intro exI [of _ "[]"] exI [of _ "r # rs"]) simp
  next
    case False
    then have "vr_end r \<le> vr_start nr" using no Cons.prems(3) by force
    moreover from Cons obtain pre post where "rs = pre @ post" "insert_region nr rs = pre @ nr # post"
      "\<forall>r \<in> set pre. vr_end r \<le> vr_start nr" "\<forall>r \<in> set post. vr_end nr \<le> vr_start r" by auto
    ultimately show ?thesis using False by (intro exI [of _ "r # pre"] exI [of _ post]) simp
  qed
qed

lemma vm_map_insert_ok:
  assumes "vm_inv m" and "aligned_range s e" and "vm_base m \<le> s" and "e \<le> vm_limit m" and "\<not> vm_map_overlaps m s e"
    and "alloc m = Some a" and "a \<notin> vr_node ` set (vm_regions m)"
  shows "\<exists>pre post m1. vm_map_insert alloc m s e prot flags name = (True, m1) \<and> vm_inv m1 \<and> vm_base m1 = vm_base m
     \<and> vm_limit m1 = vm_limit m \<and> vm_regions m = pre @ post \<and> vm_total_mapped m1 = vm_total_mapped m + (e - s)
     \<and> vm_regions m1 = pre @ \<lparr>vr_node = a, vr_start = s, vr_end = e, vr_prot = prot, vr_flags = flags, vr_name = name, vr_fault_count = 0\<rparr> # post
     \<and> (\<forall>r \<in> set pre. vr_end r \<le> s) \<and> (\<forall>r \<in> set post. e \<le> vr_start r)"
proof -
  define nr where "nr = \<lparr>vr_node = a, vr_start = s, vr_end = e, vr_prot = prot, vr_flags = flags, vr_name = name, vr_fault_count = 0\<rparr>"
  define m1 where "m1 = m\<lparr>vm_regions := insert_region nr (vm_regions m), vm_region_count := vm_region_count m + 1,
      vm_total_mapped := vm_total_mapped m + (e - s)\<rparr>"
  have r: "vm_map_insert alloc m s e prot flags name = (True, m1)"
    using assms(2-6) by (simp add: vm_map_insert_def m1_def nr_def not_less [symmetric])
  have o: "ordered (vm_regions m)" "list_all (region_ok (vm_base m) (vm_limit m)) (vm_regions m)"
    using assms(1) by (simp_all add: vm_inv_def)
  have "vr_start nr < vr_end nr" using assms(2) by (simp add: nr_def aligned_range_def)
  with insert_region_split [OF o this] assms(5)
  obtain pre post where p: "vm_regions m = pre @ post" "insert_region nr (vm_regions m) = pre @ nr # post"
    "\<forall>r \<in> set pre. vr_end r \<le> s" "\<forall>r \<in> set post. e \<le> vr_start r" by (auto simp: vm_map_overlaps_def nr_def)
  have "region_ok (vm_base m) (vm_limit m) nr" using assms(2-4) by (simp add: region_ok_def nr_def)
  moreover have "vr_end nr = e" "vr_start nr = s" "vr_node nr = a" by (simp_all add: nr_def)
  ultimately have "vm_inv m1"
    using assms(1,7) p by (auto simp: vm_inv_list m1_def)
  then show ?thesis using r p by (intro exI [of _ pre] exI [of _ post] exI [of _ m1]) (simp add: m1_def nr_def)
qed


subsection \<open>Removal\<close>

text \<open>The allocator may fail; an object that it hands out is not in use.\<close>

definition fresh_alloc :: "region_alloc \<Rightarrow> bool" where
  "fresh_alloc alloc \<longleftrightarrow> (\<forall>m a. alloc m = Some a \<longrightarrow> a \<notin> vr_node ` set (vm_regions m))"

text \<open>
  A range strictly inside a region, and the map after the region has been cut off at its start, which is
  the map for which the object of the right part is allocated.
\<close>

definition hole_in :: "u64 \<Rightarrow> u64 \<Rightarrow> vm_region \<Rightarrow> bool" where
  "hole_in s e r \<longleftrightarrow> vr_start r < s \<and> e < vr_end r"

definition cut_map :: "vm_map \<Rightarrow> u64 \<Rightarrow> vm_region \<Rightarrow> vm_map" where
  "cut_map m s r = m\<lparr>vm_total_mapped := vm_total_mapped m - (vr_end r - s),
     vm_regions := map (\<lambda>x. if x = r then x\<lparr>vr_end := s\<rparr> else x) (vm_regions m)\<rparr>"

lemma node_unique:
  assumes "distinct (map vr_node (pre @ r # post))" and "x \<in> set pre \<union> set post"
  shows "vr_node x \<noteq> vr_node r"
proof
  assume "vr_node x = vr_node r"
  then have "vr_node r \<in> vr_node ` set pre \<union> vr_node ` set post" using assms(2) by (metis Un_iff image_eqI)
  then show False using assms(1) by auto
qed

lemma update_region_split:
  assumes "distinct (map vr_node (pre @ r # post))"
  shows "update_region (vr_node r) f (pre @ r # post) = pre @ f r # post"
proof -
  have "map (\<lambda>s. if vr_node s = vr_node r then f s else s) pre = pre"
    "map (\<lambda>s. if vr_node s = vr_node r then f s else s) post = post"
    using node_unique [OF assms] by (auto intro!: map_idI)
  then show ?thesis by (simp add: update_region_def)
qed

lemma filter_node_split:
  assumes "distinct (map vr_node (pre @ r # post))"
  shows "filter (\<lambda>s. vr_node s \<noteq> vr_node r) (pre @ r # post) = pre @ post"
proof -
  have "filter (\<lambda>s. vr_node s \<noteq> vr_node r) pre = pre" "filter (\<lambda>s. vr_node s \<noteq> vr_node r) post = post"
    using node_unique [OF assms] by (auto simp: filter_id_conv)
  then show ?thesis by simp
qed

lemma region_at_split:
  "distinct (map vr_node (pre @ r # post)) \<Longrightarrow> region_at (pre @ r # post) (vr_node r) = Some r"
  unfolding region_at_def by (induction pre) auto

lemma next_node_split:
  "distinct (map vr_node (pre @ r # post)) \<Longrightarrow>
     next_node (pre @ r # post) (vr_node r) = (case post of [] \<Rightarrow> None | q # _ \<Rightarrow> Some (vr_node q))"
proof (induction pre)
  case Nil
  then show ?case by (cases post) auto
next
  case (Cons q pre)
  then show ?case by (cases pre) auto
qed

text \<open>Shrinking one region in place.\<close>

lemma shrink_inv:
  assumes "vm_inv m" and "vm_regions m = pre @ r # post" and "vr_node r1 = vr_node r"
    and "region_ok (vm_base m) (vm_limit m) r1" and "vr_start r \<le> vr_start r1" and "vr_end r1 \<le> vr_end r"
    and "t = vm_total_mapped m - (vr_end r - vr_start r) + (vr_end r1 - vr_start r1)"
  shows "vm_inv (m\<lparr>vm_total_mapped := t, vm_regions := pre @ r1 # post\<rparr>)"
proof -
  have "vr_end x \<le> vr_start r1" if "x \<in> set pre" for x
    using assms(1,2,5) that by (force simp: vm_inv_list)
  moreover have "vr_end r1 \<le> vr_start x" if "x \<in> set post" for x
    using assms(1,2,6) that by (force simp: vm_inv_list)
  ultimately show ?thesis using assms by (auto simp: vm_inv_list)
qed

lemma split_point:
  assumes "pre1 @ post1 = pre @ r # post" and "r \<notin> set post1" and "\<And>x. x \<in> set post \<Longrightarrow> x \<notin> set pre1"
  shows "pre1 = pre @ [r] \<and> post1 = post"
proof -
  obtain us where "pre1 = pre @ us \<and> us @ post1 = r # post \<or> pre1 @ us = pre \<and> post1 = us @ r # post"
    using assms(1) unfolding append_eq_append_conv2 by blast
  then have us: "pre1 = pre @ us" "us @ post1 = r # post" using assms(2) by auto
  then obtain vs where vs: "us = r # vs" "post = vs @ post1" using assms(2) by (cases us) auto
  have "vs = []"
  proof (cases vs)
    case (Cons v ws)
    then show ?thesis using assms(3) [of v] us vs by simp
  qed simp
  then show ?thesis using us vs by simp
qed

lemma cut_map_split:
  assumes "vm_regions m = pre @ r # post" and "distinct (map vr_node (pre @ r # post))"
  shows "cut_map m s r = m\<lparr>vm_total_mapped := vm_total_mapped m - (vr_end r - s), vm_regions := pre @ r\<lparr>vr_end := s\<rparr> # post\<rparr>"
proof -
  have "r \<notin> set pre" "r \<notin> set post" using node_unique [OF assms(2)] by blast+
  then have "map (\<lambda>x. if x = r then x\<lparr>vr_end := s\<rparr> else x) pre = pre" "map (\<lambda>x. if x = r then x\<lparr>vr_end := s\<rparr> else x) post = post"
    by (auto intro!: map_idI)
  then show ?thesis by (simp add: cut_map_def assms(1))
qed

lemma remove_body_hole:
  assumes "vm_inv m" and "vm_regions m = pre @ r # post" and "aligned_range s e" and "hole_in s e r"
  shows "remove_body alloc s e r m = snd (vm_map_insert alloc (cut_map m s r) e (vr_end r) (vr_prot r) (vr_flags r) (vr_name r))"
    "vm_inv (cut_map m s r)" "aligned_range e (vr_end r)" "vm_base m \<le> e" "vr_end r \<le> vm_limit m" "\<not> vm_map_overlaps (cut_map m s r) e (vr_end r)"
proof -
  have d: "distinct (map vr_node (pre @ r # post))" using assms(1,2) by (simp add: vm_inv_def)
  note cut = cut_map_split [OF assms(2) d, of s]
  have hole: "vr_start r < s" "e < vr_end r" and se: "s < e" using assms(3,4) by (simp_all add: hole_in_def aligned_range_def)
  have ok: "region_ok (vm_base m) (vm_limit m) r" using assms(1,2) by (simp add: vm_inv_list)
  have al: "aligned_range (vr_start r) s" using assms(3) ok hole by (simp add: region_ok_def aligned_range_def)
  show "aligned_range e (vr_end r)" "vm_base m \<le> e" "vr_end r \<le> vm_limit m"
    using assms(3) ok hole se by (auto simp: region_ok_def aligned_range_def)
  have ok1: "region_ok (vm_base m) (vm_limit m) (r\<lparr>vr_end := s\<rparr>)" using ok hole se al by (auto simp: region_ok_def)
  show "vm_inv (cut_map m s r)"
    unfolding cut using hole se by (intro shrink_inv [OF assms(1,2) _ ok1]) auto
  have t: "vm_total_mapped m - (vr_end r - vr_start r) + (s - vr_start r) = vm_total_mapped m - (vr_end r - s)" by simp
  show "remove_body alloc s e r m = snd (vm_map_insert alloc (cut_map m s r) e (vr_end r) (vr_prot r) (vr_flags r) (vr_name r))"
    unfolding remove_body_def cut assms(2) update_region_split [OF d] Let_def t
    using hole hole(1) [unfolded not_le [symmetric]] by simp
  have "\<forall>x \<in> set pre. vr_end x \<le> vr_start r" "\<forall>x \<in> set post. vr_end r \<le> vr_start x"
    using assms(1,2) by (auto simp: vm_inv_list)
  then show "\<not> vm_map_overlaps (cut_map m s r) e (vr_end r)"
    using hole se by (force simp: vm_map_overlaps_def list_ex_iff cut)
qed

text \<open>A range strictly inside a region leaves two parts, the right one a new region, if an object for it is granted.\<close>

lemma remove_hole:
  assumes "vm_inv m" and "vm_regions m = pre @ r # post" and "fresh_alloc alloc" and "aligned_range s e"
    and granted: "alloc (cut_map m s r) \<noteq> None" and hole: "vr_start r < s" "e < vr_end r"
  defines "m1 \<equiv> remove_body alloc s e r m"
  shows "\<exists>ps. vm_inv m1 \<and> vm_base m1 = vm_base m \<and> vm_limit m1 = vm_limit m \<and> vm_regions m1 = pre @ ps @ post
     \<and> (\<forall>a. mapping_at ps a = (if s \<le> a \<and> a < e then None else mapping_at [r] a))
     \<and> (if vr_end r < e then vr_end r else e) - (if vr_start r > s then vr_start r else s)
        = mapped_bytes [r] - mapped_bytes ps"
proof -
  have d: "distinct (map vr_node (pre @ r # post))" using assms(1,2) by (simp add: vm_inv_def)
  have ok: "region_ok (vm_base m) (vm_limit m) r" using assms(1,2) by (simp add: vm_inv_list)
  note rl = region_ok_less [OF ok]
  define r1 where "r1 = r\<lparr>vr_end := s\<rparr>"
  define m2 where "m2 = cut_map m s r"
  have se: "s < e" using assms(4) by (simp add: aligned_range_def)
  have rs2: "vm_regions m2 = pre @ r1 # post" "vm_base m2 = vm_base m" "vm_limit m2 = vm_limit m"
    by (simp_all add: m2_def r1_def cut_map_split [OF assms(2) d])
  have h: "hole_in s e r" using hole by (simp add: hole_in_def)
  note rb = remove_body_hole [OF assms(1,2,4) h, folded m2_def]
  have far: "\<forall>x \<in> set pre. vr_end x \<le> vr_start r" "\<forall>x \<in> set post. vr_end r \<le> vr_start x"
    "\<forall>x \<in> set post. vr_start x < vr_end x"
    using assms(1,2) by (auto simp: vm_inv_list list_all_iff intro: region_ok_less [of "vm_base m" "vm_limit m"])
  have bd: "vm_base m2 \<le> e" "vr_end r \<le> vm_limit m2" using rb(4,5) rs2(2,3) by simp_all
  obtain a where a: "alloc m2 = Some a" using granted by (auto simp: m2_def)
  have fresh: "a \<notin> vr_node ` set (vm_regions m2)" using assms(3) a by (auto simp: fresh_alloc_def)
  obtain pre1 post1 m3 where i: "vm_map_insert alloc m2 e (vr_end r) (vr_prot r) (vr_flags r) (vr_name r) = (True, m3)"
    "vm_inv m3" "vm_base m3 = vm_base m2" "vm_limit m3 = vm_limit m2" "vm_regions m2 = pre1 @ post1"
    "vm_regions m3 = pre1 @ \<lparr>vr_node = a, vr_start = e, vr_end = vr_end r, vr_prot = vr_prot r, vr_flags = vr_flags r,
       vr_name = vr_name r, vr_fault_count = 0\<rparr> # post1"
    "\<forall>x \<in> set pre1. vr_end x \<le> e" "\<forall>x \<in> set post1. vr_end r \<le> vr_start x"
    using vm_map_insert_ok [where alloc = alloc, OF rb(2,3) bd rb(6) a fresh] by blast
  have n1: "r1 \<notin> set post1"
  proof
    assume "r1 \<in> set post1"
    then have "vr_end r \<le> vr_start r1" using i(8) by blast
    then show False using rl by (simp add: r1_def)
  qed
  have n2: "x \<notin> set pre1" if x: "x \<in> set post" for x
  proof
    assume "x \<in> set pre1"
    then have "vr_end x \<le> e" using i(7) by blast
    moreover have "vr_end r \<le> vr_start x" "vr_start x < vr_end x" using far x by blast+
    ultimately show False using hole(2) by force
  qed
  have "pre1 = pre @ [r1] \<and> post1 = post"
    by (rule split_point [OF i(5) [symmetric, unfolded rs2(1)] n1 n2])
  then have rs: "vm_regions m3 = pre @ [r1, \<lparr>vr_node = a, vr_start = e, vr_end = vr_end r, vr_prot = vr_prot r,
      vr_flags = vr_flags r, vr_name = vr_name r, vr_fault_count = 0\<rparr>] @ post" using i(6) by simp
  have m1: "m1 = m3" unfolding m1_def using rb(1) i(1) by simp
  show ?thesis
    unfolding m1 using rs i(2,3,4) hole se by (intro exI) (intro conjI, assumption, auto simp: rs2 r1_def)
qed

text \<open>What is left of a region: the parts outside the removed range.\<close>

lemma remove_body_spec:
  assumes "vm_inv m" and "vm_regions m = pre @ r # post" and "fresh_alloc alloc" and "aligned_range s e"
    and "\<not> (e \<le> vr_start r \<or> s \<ge> vr_end r)" and granted: "hole_in s e r \<Longrightarrow> alloc (cut_map m s r) \<noteq> None"
  defines "m1 \<equiv> remove_body alloc s e r m"
  shows "\<exists>ps. vm_inv m1 \<and> vm_base m1 = vm_base m \<and> vm_limit m1 = vm_limit m \<and> vm_regions m1 = pre @ ps @ post
     \<and> (\<forall>a. mapping_at ps a = (if s \<le> a \<and> a < e then None else mapping_at [r] a))
     \<and> (if vr_end r < e then vr_end r else e) - (if vr_start r > s then vr_start r else s)
        = mapped_bytes [r] - mapped_bytes ps"
proof -
  have d: "distinct (map vr_node (pre @ r # post))" using assms(1,2) by (simp add: vm_inv_def)
  have ok: "region_ok (vm_base m) (vm_limit m) r" using assms(1,2) by (simp add: vm_inv_list)
  note rl = region_ok_less [OF ok]
  consider (whole) "s \<le> vr_start r" "vr_end r \<le> e" | (hole) "vr_start r < s" "e < vr_end r"
    | (front) "s \<le> vr_start r" "e < vr_end r" | (tail) "vr_start r < s" "vr_end r \<le> e" by force
  then show ?thesis
  proof cases
    case whole
    have eq: "m1 = m\<lparr>vm_total_mapped := vm_total_mapped m - (vr_end r - vr_start r), vm_regions := pre @ post,
        vm_region_count := vm_region_count m - 1\<rparr>"
      unfolding m1_def remove_body_def assms(2) filter_node_split [OF d] using whole by simp
    have "vm_inv m1" using assms(1,2) unfolding eq by (auto simp: vm_inv_list)
    moreover have "(if s \<le> a \<and> a < e then None else mapping_at [r] a) = None" for a using whole by force
    moreover have "(if vr_end r < e then vr_end r else e) = vr_end r" "(if vr_start r > s then vr_start r else s) = vr_start r"
      using whole by auto
    ultimately show ?thesis using eq by (intro exI [of _ "[]"]) simp
  next
    case front
    define r1 where "r1 = r\<lparr>vr_start := e\<rparr>"
    have "aligned_range e (vr_end r)" using assms(4) ok front by (simp add: region_ok_def aligned_range_def)
    then have ok1: "region_ok (vm_base m) (vm_limit m) r1" using ok assms(5) by (auto simp: region_ok_def r1_def)
    have eq: "m1 = m\<lparr>vm_total_mapped := vm_total_mapped m - (e - vr_start r), vm_regions := pre @ r1 # post\<rparr>"
      unfolding m1_def remove_body_def assms(2) update_region_split [OF d] r1_def using front by (simp add: not_le)
    have "vm_inv m1"
      unfolding eq using assms(5) by (intro shrink_inv [OF assms(1,2) _ ok1]) (auto simp: r1_def)
    moreover have "mapping_at [r1] a = (if s \<le> a \<and> a < e then None else mapping_at [r] a)" for a
      using front assms(5) by (auto simp: r1_def)
    ultimately show ?thesis using eq front by (intro exI [of _ "[r1]"]) (auto simp: r1_def)
  next
    case tail
    define r1 where "r1 = r\<lparr>vr_end := s\<rparr>"
    have "aligned_range (vr_start r) s" using assms(4) ok tail by (simp add: region_ok_def aligned_range_def)
    then have ok1: "region_ok (vm_base m) (vm_limit m) r1" using ok assms(5) by (auto simp: region_ok_def r1_def)
    have eq: "m1 = m\<lparr>vm_total_mapped := vm_total_mapped m - (vr_end r - s), vm_regions := pre @ r1 # post\<rparr>"
      unfolding m1_def remove_body_def assms(2) update_region_split [OF d] r1_def using tail by (simp add: not_le)
    have "vm_inv m1"
      unfolding eq using assms(5) by (intro shrink_inv [OF assms(1,2) _ ok1]) (auto simp: r1_def)
    moreover have "mapping_at [r1] a = (if s \<le> a \<and> a < e then None else mapping_at [r] a)" for a
      using tail assms(5) by (auto simp: r1_def)
    ultimately show ?thesis using eq tail by (intro exI [of _ "[r1]"]) (auto simp: r1_def)
  next
    case hole
    show ?thesis unfolding m1_def using granted hole by (intro remove_hole [OF assms(1-4)]) (simp_all add: hole_in_def)
  qed
qed

lemma remove_loop_spec:
  assumes "fresh_alloc alloc" and "aligned_range s e"
  shows "vm_inv m \<Longrightarrow> vm_regions m = pre @ rest \<Longrightarrow> (\<And>r. r \<in> set rest \<Longrightarrow> hole_in s e r \<Longrightarrow> alloc (cut_map m s r) \<noteq> None) \<Longrightarrow>
     \<exists>m1 qs. remove_loop alloc s e (case rest of [] \<Rightarrow> None | r # _ \<Rightarrow> Some (vr_node r)) removed m
         = Some (removed + (mapped_bytes rest - mapped_bytes qs), m1) \<and> vm_inv m1 \<and> vm_regions m1 = pre @ qs
       \<and> vm_base m1 = vm_base m \<and> vm_limit m1 = vm_limit m
       \<and> (\<forall>a. mapping_at qs a = (if s \<le> a \<and> a < e then None else mapping_at rest a))"
proof (induction rest arbitrary: m pre removed)
  case Nil
  then show ?case by (simp add: remove_loop.simps [of _ _ _ None])
next
  case (Cons r rest)
  have d: "distinct (map vr_node (pre @ r # rest))" using Cons.prems by (simp add: vm_inv_def)
  define tmp where "tmp = (case rest of [] \<Rightarrow> None | r # _ \<Rightarrow> Some (vr_node r))"
  have step: "remove_loop alloc s e (Some (vr_node r)) removed m =
     (if e \<le> vr_start r \<or> s \<ge> vr_end r then remove_loop alloc s e tmp removed m
      else remove_loop alloc s e tmp (removed + ((if vr_end r < e then vr_end r else e) - (if vr_start r > s then vr_start r else s)))
        (remove_body alloc s e r m))"
    unfolding remove_loop.simps [of _ _ _ "Some (vr_node r)"] option.case Cons.prems(2) region_at_split [OF d] next_node_split [OF d]
      tmp_def Let_def ..
  show ?case
  proof (cases "e \<le> vr_start r \<or> s \<ge> vr_end r")
    case True
    have rs: "vm_regions m = (pre @ [r]) @ rest" using Cons.prems(2) by simp
    have "\<And>x. x \<in> set rest \<Longrightarrow> hole_in s e x \<Longrightarrow> alloc (cut_map m s x) \<noteq> None" using Cons.prems(3) by simp
    from Cons.IH [OF Cons.prems(1) rs this, of removed, folded tmp_def]
    obtain m1 qs where i: "remove_loop alloc s e tmp removed m = Some (removed + (mapped_bytes rest - mapped_bytes qs), m1)"
      "vm_inv m1" "vm_regions m1 = (pre @ [r]) @ qs" "vm_base m1 = vm_base m" "vm_limit m1 = vm_limit m"
      "\<forall>a. mapping_at qs a = (if s \<le> a \<and> a < e then None else mapping_at rest a)" by blast
    have "mapping_at (r # qs) a = (if s \<le> a \<and> a < e then None else mapping_at (r # rest) a)" for a
      using i(6) True by auto
    then show ?thesis
      using step True i(1-5) by (intro exI [of _ m1] exI [of _ "r # qs"]) simp
  next
    case False
    define m2 where "m2 = remove_body alloc s e r m"
    define k where "k = (if vr_end r < e then vr_end r else e) - (if vr_start r > s then vr_start r else s)"
    have "hole_in s e r \<Longrightarrow> alloc (cut_map m s r) \<noteq> None" using Cons.prems(3) by simp
    from remove_body_spec [OF Cons.prems(1,2) assms False this, folded m2_def k_def]
    obtain ps where p: "vm_inv m2" "vm_base m2 = vm_base m" "vm_limit m2 = vm_limit m" "vm_regions m2 = (pre @ ps) @ rest"
      "\<forall>a. mapping_at ps a = (if s \<le> a \<and> a < e then None else mapping_at [r] a)" "k = mapped_bytes [r] - mapped_bytes ps"
      by auto
    have "\<not> hole_in s e x" if "x \<in> set rest" for x
      using Cons.prems(1,2) that False by (force simp: vm_inv_list hole_in_def)
    then have "\<And>x. x \<in> set rest \<Longrightarrow> hole_in s e x \<Longrightarrow> alloc (cut_map m2 s x) \<noteq> None" by blast
    from Cons.IH [OF p(1,4) this, of "removed + k", folded tmp_def]
    obtain m1 qs where i: "remove_loop alloc s e tmp (removed + k) m2 = Some (removed + k + (mapped_bytes rest - mapped_bytes qs), m1)"
      "vm_inv m1" "vm_regions m1 = (pre @ ps) @ qs" "vm_base m1 = vm_base m2" "vm_limit m1 = vm_limit m2"
      "\<forall>a. mapping_at qs a = (if s \<le> a \<and> a < e then None else mapping_at rest a)" by blast
    have "mapping_at (ps @ qs) a = (if s \<le> a \<and> a < e then None else mapping_at (r # rest) a)" for a
      using i(6) p(5) by (simp add: mapping_at_append)
    then show ?thesis
      using step False i(1-5) p(2,3,6)
      by (intro exI [of _ m1] exI [of _ "ps @ qs"]) (simp add: m2_def [symmetric] k_def [symmetric] algebra_simps)
  qed
qed


text \<open>Regions outside the range are passed over.\<close>

lemma remove_loop_skip:
  assumes "distinct (map vr_node (vm_regions m))" and "\<forall>r \<in> set xs. e \<le> vr_start r \<or> s \<ge> vr_end r"
  shows "vm_regions m = pre @ xs @ rest \<Longrightarrow>
     remove_loop alloc s e (case xs @ rest of [] \<Rightarrow> None | r # _ \<Rightarrow> Some (vr_node r)) removed m
     = remove_loop alloc s e (case rest of [] \<Rightarrow> None | r # _ \<Rightarrow> Some (vr_node r)) removed m"
  using assms(2)
proof (induction xs arbitrary: pre)
  case (Cons r xs)
  have d: "distinct (map vr_node (pre @ r # xs @ rest))" using assms(1) Cons.prems by simp
  have rs: "vm_regions m = (pre @ [r]) @ xs @ rest" "vm_regions m = pre @ r # xs @ rest" using Cons.prems(1) by simp_all
  have "remove_loop alloc s e (Some (vr_node r)) removed m
      = remove_loop alloc s e (case xs @ rest of [] \<Rightarrow> None | r # _ \<Rightarrow> Some (vr_node r)) removed m"
    unfolding remove_loop.simps [of _ _ _ "Some (vr_node r)"] option.case rs(2) region_at_split [OF d] next_node_split [OF d] Let_def
    using Cons.prems(2) by simp
  then show ?case using Cons.IH [OF rs(1)] Cons.prems(2) by simp
qed simp

text \<open>When no object is granted for the right part, it is lost: the region ends where the range starts.\<close>

lemma vm_map_remove_lost:
  assumes "vm_inv m" and "aligned_range s e" and r: "r \<in> set (vm_regions m)" "hole_in s e r" and "alloc (cut_map m s r) = None"
  shows "vm_map_remove alloc m s e = Some (e - s, cut_map m s r)" "vm_inv (cut_map m s r)"
    "mapping_at (vm_regions (cut_map m s r)) a = (if s \<le> a \<and> a < vr_end r then None else mapping_at (vm_regions m) a)"
proof -
  obtain pre post where rs: "vm_regions m = pre @ r # post" using split_list [OF r(1)] by blast
  have d: "distinct (map vr_node (pre @ r # post))" using assms(1) rs by (simp add: vm_inv_def)
  have hole: "vr_start r < s" "e < vr_end r" and se: "s < e" using assms(2) r(2) by (simp_all add: hole_in_def aligned_range_def)
  note rb = remove_body_hole [OF assms(1) rs assms(2) r(2)]
  have far: "\<forall>x \<in> set pre. vr_end x \<le> vr_start r" "\<forall>x \<in> set post. vr_end r \<le> vr_start x"
    using assms(1) rs by (auto simp: vm_inv_list)
  define m2 where "m2 = cut_map m s r"
  have body: "remove_body alloc s e r m = m2" unfolding rb(1) using assms(5) by (simp add: vm_map_insert_def m2_def)
  have rs2: "vm_regions m2 = (pre @ [r\<lparr>vr_end := s\<rparr>]) @ post @ []" by (simp add: m2_def cut_map_split [OF rs d])
  have d2: "distinct (map vr_node (vm_regions m2))" using d unfolding rs2 by simp
  define nxt where "nxt = (case post @ [] of [] \<Rightarrow> None | q # _ \<Rightarrow> Some (vr_node q))"
  have "remove_loop alloc s e (Some (vr_node r)) 0 m = remove_loop alloc s e nxt (0 + (e - s)) m2"
    unfolding remove_loop.simps [of _ _ _ "Some (vr_node r)"] option.case rs region_at_split [OF d] next_node_split [OF d] Let_def body
      nxt_def using hole se by auto
  also have "\<dots> = remove_loop alloc s e None (0 + (e - s)) m2"
    using remove_loop_skip [OF d2 _ rs2, of e s alloc] far(2) hole(2) unfolding nxt_def by force
  also have "\<dots> = Some (e - s, m2)" by (simp add: remove_loop.simps [of _ _ _ None])
  finally have st: "remove_loop alloc s e (Some (vr_node r)) 0 m = Some (e - s, m2)" .
  have "\<forall>x \<in> set pre. e \<le> vr_start x \<or> s \<ge> vr_end x" using far(1) hole(1) by force
  then have "remove_loop alloc s e (case pre @ r # post of [] \<Rightarrow> None | q # _ \<Rightarrow> Some (vr_node q)) 0 m = Some (e - s, m2)"
    using remove_loop_skip [of m pre e s "[]" "r # post" alloc 0] d rs st by simp
  then show "vm_map_remove alloc m s e = Some (e - s, cut_map m s r)"
    using assms(2) by (simp add: vm_map_remove_def rs m2_def)
  show "vm_inv (cut_map m s r)" by (rule rb(2))
  have "mapping_at pre a = None" if "vr_start r \<le> a" unfolding mapping_at_None using far(1) that by force
  moreover have "mapping_at post a = None" if "a < vr_end r" unfolding mapping_at_None using far(2) that by force
  ultimately show "mapping_at (vm_regions (cut_map m s r)) a = (if s \<le> a \<and> a < vr_end r then None else mapping_at (vm_regions m) a)"
    unfolding m2_def [symmetric] rs2 rs using hole se by (auto simp: mapping_at_append split: option.split)
qed

subsection \<open>Finding a gap\<close>

text \<open>A candidate start address: its range is inside the limit and free of regions.\<close>

definition gap_at :: "vm_region list \<Rightarrow> u64 \<Rightarrow> u64 \<Rightarrow> bool" where
  "gap_at rs size1 c \<longleftrightarrow> \<not> list_ex (\<lambda>r. c < vr_end r \<and> vr_start r < c + size1) rs"

lemma free_loop_spec:
  assumes "ordered rs" and "list_all (region_ok b l) rs" and "unat l + unat size1 < 2 ^ 64" and "cursor \<le> l"
  shows "\<exists>c. (free_loop rs cursor size1 = Inl c \<or> free_loop rs cursor size1 = Inr c) \<and> cursor \<le> c \<and> c \<le> l \<and> gap_at rs size1 c
     \<and> (c = cursor \<or> (\<exists>r \<in> set rs. c = vr_end r)) \<and> (\<forall>d. cursor \<le> d \<and> d < c \<longrightarrow> \<not> gap_at rs size1 d)
     \<and> (free_loop rs cursor size1 = Inl c \<longrightarrow> c + size1 \<le> l)"
  using assms(1,2,4)
proof (induction rs arbitrary: cursor)
  case Nil
  then show ?case by (auto simp: gap_at_def)
next
  case (Cons r rs)
  have ok: "region_ok b l r" and o: "ordered rs" "list_all (region_ok b l) rs" using Cons.prems by simp_all
  have rl: "vr_start r < vr_end r" "vr_end r \<le> l" using ok region_ok_less by (auto simp: region_ok_def)
  have later: "\<forall>x \<in> set rs. vr_end r \<le> vr_start x" using Cons.prems(1) by simp
  have nw: "unat (d + size1) = unat d + unat size1" if "d \<le> l" for d
    using that assms(3) by (intro unat_plus_no_wrap) (simp add: word_le_unat)
  show ?case
  proof (cases "vr_end r \<le> cursor")
    case True
    have st: "free_loop (r # rs) cursor size1 = free_loop rs cursor size1" using True by simp
    have g: "gap_at (r # rs) size1 d = gap_at rs size1 d" if "cursor \<le> d" for d
      using True that by (auto simp: gap_at_def)
    from Cons.IH [OF o Cons.prems(3)] show ?thesis unfolding st using g by fastforce
  next
    case e: False
    show ?thesis
    proof (cases "cursor + size1 \<le> vr_start r")
      case True
      have "free_loop (r # rs) cursor size1 = Inl cursor" using True e by simp
      moreover have "gap_at (r # rs) size1 cursor"
        using True later rl by (fastforce simp: gap_at_def list_ex_iff)
      moreover have "cursor + size1 \<le> l" using True rl by force
      ultimately show ?thesis using Cons.prems(3) by (intro exI [of _ cursor]) auto
    next
      case False
      have st: "free_loop (r # rs) cursor size1 = free_loop rs (vr_end r) size1" using e False e [unfolded not_le] by simp
      have no: "\<not> gap_at (r # rs) size1 d" if d: "cursor \<le> d" "d < vr_end r" for d
      proof -
        have dl: "d \<le> l" using d(2) rl by force
        have "unat (vr_start r) < unat cursor + unat size1" using False nw [OF Cons.prems(3)] by (simp add: word_le_unat)
        then have "vr_start r < d + size1" using d(1) nw [OF dl] by (simp add: word_less_unat word_le_unat)
        then show ?thesis using d(2) by (simp add: gap_at_def)
      qed
      have g: "gap_at (r # rs) size1 d = gap_at rs size1 d" if "vr_end r \<le> d" for d
        using that by (auto simp: gap_at_def)
      from Cons.IH [OF o rl(2)] obtain c where c: "free_loop rs (vr_end r) size1 = Inl c \<or> free_loop rs (vr_end r) size1 = Inr c"
        "vr_end r \<le> c" "c \<le> l" "gap_at rs size1 c" "c = vr_end r \<or> (\<exists>x \<in> set rs. c = vr_end x)"
        "\<forall>d. vr_end r \<le> d \<and> d < c \<longrightarrow> \<not> gap_at rs size1 d" "free_loop rs (vr_end r) size1 = Inl c \<longrightarrow> c + size1 \<le> l"
        by blast
      have "\<not> gap_at (r # rs) size1 d" if "cursor \<le> d" "d < c" for d
        using no [of d] g [of d] c(6) that by (cases "d < vr_end r") auto
      moreover have "cursor \<le> c" using e c(2) by force
      moreover have "gap_at (r # rs) size1 c" using g c(2,4) by simp
      moreover have "c = cursor \<or> (\<exists>x \<in> set (r # rs). c = vr_end x)" using c(5) by auto
      ultimately show ?thesis unfolding st using c(1,3,7) by (intro exI [of _ c]) simp
    qed
  qed
qed


lemma overlaps_iff_mapped:
  assumes "vm_inv m" and "s < e"
  shows "vm_map_overlaps m s e \<longleftrightarrow> (\<exists>a. s \<le> a \<and> a < e \<and> mapping_at (vm_regions m) a \<noteq> None)"
proof
  assume "vm_map_overlaps m s e"
  then obtain r where r: "r \<in> set (vm_regions m)" "s < vr_end r" "vr_start r < e"
    by (auto simp: vm_map_overlaps_def list_ex_iff)
  have rl: "vr_start r < vr_end r" using assms(1) r(1) region_ok_less by (auto simp: vm_inv_def list_all_iff)
  have "vr_start r \<le> max s (vr_start r)" "max s (vr_start r) < vr_end r" using r rl by simp_all
  then have "mapping_at (vm_regions m) (max s (vr_start r)) \<noteq> None"
    unfolding mapping_at_None using r(1) by blast
  then show "\<exists>a. s \<le> a \<and> a < e \<and> mapping_at (vm_regions m) a \<noteq> None"
    using r(3) assms(2) by (intro exI [of _ "max s (vr_start r)"]) (auto simp: max_def)
next
  assume "\<exists>a. s \<le> a \<and> a < e \<and> mapping_at (vm_regions m) a \<noteq> None"
  then obtain a r where "s \<le> a" "a < e" "r \<in> set (vm_regions m)" "vr_start r \<le> a" "a < vr_end r"
    unfolding mapping_at_None by blast
  then show "vm_map_overlaps m s e" by (force simp: vm_map_overlaps_def list_ex_iff)
qed

lemma vm_map_insert_mapping:
  assumes "vm_inv m" and "fresh_alloc alloc" and "aligned_range s e" and "vm_base m \<le> s" and "e \<le> vm_limit m"
    and "\<not> vm_map_overlaps m s e" and "alloc m \<noteq> None"
  shows "\<exists>m1. vm_map_insert alloc m s e prot flags name = (True, m1) \<and> vm_inv m1
     \<and> (\<forall>a. mapping_at (vm_regions m1) a = (if s \<le> a \<and> a < e then Some (prot, flags, name) else mapping_at (vm_regions m) a))"
proof -
  obtain a where a: "alloc m = Some a" using assms(7) by auto
  have fresh: "a \<notin> vr_node ` set (vm_regions m)" using assms(2) a by (auto simp: fresh_alloc_def)
  obtain pre post m1 where i: "vm_map_insert alloc m s e prot flags name = (True, m1)" "vm_inv m1" "vm_regions m = pre @ post"
    "vm_regions m1 = pre @ \<lparr>vr_node = a, vr_start = s, vr_end = e, vr_prot = prot, vr_flags = flags, vr_name = name, vr_fault_count = 0\<rparr> # post"
    "\<forall>r \<in> set pre. vr_end r \<le> s"
    using vm_map_insert_ok [where alloc = alloc, OF assms(1,3-6) a fresh] by blast
  have "mapping_at pre x = None" if "s \<le> x" for x
    unfolding mapping_at_None using i(5) that by force
  then have "mapping_at (vm_regions m1) x = (if s \<le> x \<and> x < e then Some (prot, flags, name) else mapping_at (vm_regions m) x)" for x
    unfolding i(3,4) by (auto simp: mapping_at_append split: option.splits)
  then show ?thesis using i(1,2) by blast
qed

lemma round_up_least:
  "x \<le> (x + 4095) div 4096 * (4096 :: nat)" "4096 dvd k \<Longrightarrow> x \<le> k \<Longrightarrow> (x + 4095) div 4096 * 4096 \<le> (k :: nat)"
  by (auto simp: dvd_def)

lemma find_free_cursor:
  assumes "vm_base m AND PAGE_MASK = 0" and "vm_base m \<le> vm_limit m" and "vm_limit m AND PAGE_MASK = 0" and "hint \<le> vm_limit m"
    and "unat (vm_limit m) + 8192 \<le> 2 ^ 64"
  defines "cur \<equiv> if hint < vm_base m then vm_base m else PAGE_ALIGN_UP hint"
  shows "hint \<le> cur \<and> vm_base m \<le> cur \<and> cur \<le> vm_limit m \<and> 4096 dvd unat cur
     \<and> (\<forall>d. hint \<le> d \<and> vm_base m \<le> d \<and> 4096 dvd unat d \<longrightarrow> cur \<le> d)"
proof (cases "hint < vm_base m")
  case True
  then show ?thesis using assms(1,2) by (simp add: cur_def page_aligned_iff)
next
  case False
  have "unat hint + 4095 < 2 ^ 64" using assms(4,5) by (simp add: word_le_unat)
  then have u: "unat cur = (unat hint + 4095) div 4096 * 4096" using False by (simp add: cur_def page_align_up)
  have l: "4096 dvd unat (vm_limit m)" using assms(3) by (simp add: page_aligned_iff)
  have "unat hint \<le> unat cur" unfolding u by (rule round_up_least(1))
  moreover have "unat cur \<le> unat (vm_limit m)" unfolding u using assms(4) l by (intro round_up_least(2)) (simp_all add: word_le_unat)
  moreover have "unat cur \<le> unat d" if "unat hint \<le> unat d" "4096 dvd unat d" for d :: u64
    unfolding u using that by (intro round_up_least(2))
  moreover have "4096 dvd unat cur" unfolding u by simp
  ultimately show ?thesis using False by (auto simp: word_le_unat word_less_unat)
qed

subsection \<open>Operations that change attributes only\<close>

lemma vm_inv_attrs:
  assumes "\<And>r. vr_start (f r) = vr_start r \<and> vr_end (f r) = vr_end r \<and> vr_node (f r) = vr_node r"
  shows "vm_inv (m\<lparr>vm_regions := map f (vm_regions m)\<rparr>) = vm_inv m"
proof -
  have "ordered (map f rs) = ordered rs" "mapped_bytes (map f rs) = mapped_bytes rs" "map vr_node (map f rs) = map vr_node rs"
    "list_all (region_ok b l) (map f rs) = list_all (region_ok b l) rs" for rs b l
    using assms by (induction rs) (simp_all add: region_ok_def)
  then show ?thesis by (simp add: vm_inv_def del: map_map)
qed

lemma vm_map_protect_inv [kinv]: "vm_inv m \<Longrightarrow> vm_inv (snd (vm_map_protect m s e prot))"
  by (simp add: vm_map_protect_def vm_inv_attrs)

lemma vm_map_mark_cow_inv [kinv]: "vm_inv m \<Longrightarrow> vm_inv (snd (vm_map_mark_cow m s e))"
  by (simp add: vm_map_mark_cow_def vm_inv_attrs)

lemma vm_map_account_fault_inv [kinv]: "vm_inv m \<Longrightarrow> vm_inv (snd (vm_map_account_fault m a w p))"
proof -
  assume m: "vm_inv m"
  have "vm_inv (m\<lparr>vm_regions := update_region k (\<lambda>r. r\<lparr>vr_fault_count := vr_fault_count r + 1\<rparr>) (vm_regions m)\<rparr>)" for k
    using m by (simp add: update_region_def vm_inv_attrs)
  then show ?thesis using m by (simp add: vm_map_account_fault_def Let_def vm_inv_def split: option.split)
qed

text \<open>The protection change covers every region it meets, also the part outside the range.\<close>

lemma vm_map_protect_whole_regions:
  assumes "aligned_range s e" and "r \<in> set (vm_regions m)" and "touches s e r"
  shows "fst (vm_map_protect m s e prot)" "r\<lparr>vr_prot := prot\<rparr> \<in> set (vm_regions (snd (vm_map_protect m s e prot)))"
  using assms by (auto simp: vm_map_protect_def filter_empty_conv image_iff intro: bexI [of _ r])

subsection \<open>The operations as a whole\<close>

lemma vm_map_insert_total:
  assumes "vm_inv m" and "fresh_alloc alloc"
  shows "case vm_map_insert alloc m s e prot flags name of (ok, m1) \<Rightarrow> vm_inv m1 \<and>
       (ok \<longleftrightarrow> page_range s e \<and> vm_base m \<le> s \<and> e \<le> vm_limit m
          \<and> (\<forall>a. s \<le> a \<and> a < e \<longrightarrow> mapping_at (vm_regions m) a = None) \<and> alloc m \<noteq> None) \<and>
       (if ok then \<forall>a. mapping_at (vm_regions m1) a
            = (if s \<le> a \<and> a < e then Some (prot, flags, name) else mapping_at (vm_regions m) a)
        else m1 = m)"
proof (cases "aligned_range s e \<and> vm_base m \<le> s \<and> e \<le> vm_limit m \<and> \<not> vm_map_overlaps m s e \<and> alloc m \<noteq> None")
  case True
  then have se: "s < e" by (simp add: aligned_range_def)
  obtain m1 where "vm_map_insert alloc m s e prot flags name = (True, m1)" "vm_inv m1"
    "\<forall>a. mapping_at (vm_regions m1) a = (if s \<le> a \<and> a < e then Some (prot, flags, name) else mapping_at (vm_regions m) a)"
    using vm_map_insert_mapping [OF assms] True by blast
  then show ?thesis using True overlaps_iff_mapped [OF assms(1) se] by (auto simp: aligned_range_iff)
next
  case False
  then have eq: "vm_map_insert alloc m s e prot flags name = (False, m)" by (auto simp: vm_map_insert_def not_less)
  have "\<not> (page_range s e \<and> vm_base m \<le> s \<and> e \<le> vm_limit m
      \<and> (\<forall>a. s \<le> a \<and> a < e \<longrightarrow> mapping_at (vm_regions m) a = None) \<and> alloc m \<noteq> None)"
    using False overlaps_iff_mapped [OF assms(1), of s e] by (auto simp: aligned_range_iff page_range_def)
  then show ?thesis using eq assms(1) by (simp only: prod.case if_False simp_thms)
qed

lemma vm_map_remove_exact:
  assumes "fresh_alloc alloc" and "aligned_range s e" and "vm_inv m"
    and "\<And>r. r \<in> set (vm_regions m) \<Longrightarrow> hole_in s e r \<Longrightarrow> alloc (cut_map m s r) \<noteq> None"
  shows "\<exists>removed m1. vm_map_remove alloc m s e = Some (removed, m1) \<and> vm_inv m1
     \<and> removed = vm_total_mapped m - vm_total_mapped m1
     \<and> (\<forall>a. mapping_at (vm_regions m1) a = (if s \<le> a \<and> a < e then None else mapping_at (vm_regions m) a))"
  using remove_loop_spec [OF assms(1,2,3), of "[]" "vm_regions m" 0] assms(2,3,4)
  by (auto simp: vm_map_remove_def vm_inv_def)

lemma hole_unique:
  assumes "vm_inv m" and "aligned_range s e" and r: "r \<in> set (vm_regions m)" "hole_in s e r"
  shows "find (hole_in s e) (vm_regions m) = Some r"
proof -
  obtain pre post where rs: "vm_regions m = pre @ r # post" using split_list [OF r(1)] by blast
  have "\<not> hole_in s e x" if "x \<in> set pre" for x
  proof -
    have "vr_end x \<le> vr_start r" "s < e" using assms(1,2) that by (auto simp: rs vm_inv_list aligned_range_def)
    then show ?thesis using r(2) by (force simp: hole_in_def)
  qed
  then have "find (hole_in s e) pre = None" by (simp add: find_None_iff)
  then show ?thesis unfolding rs using r(2) by (induction pre) (auto split: if_splits)
qed

subsection \<open>Properties\<close>

lemma vm_map_remove_total:
  assumes "vm_inv m" and "fresh_alloc alloc"
  shows "\<exists>removed m1. vm_map_remove alloc m s e = Some (removed, m1) \<and> vm_inv m1 \<and>
        (if \<not> page_range s e then removed = 0 \<and> m1 = m
         else case find (hole_in s e) (vm_regions m) of
             Some r \<Rightarrow>
               if alloc (cut_map m s r) = None
               then removed = e - s \<and> vm_total_mapped m - vm_total_mapped m1 = vr_end r - s
                 \<and> (\<forall>a. mapping_at (vm_regions m1) a = (if s \<le> a \<and> a < vr_end r then None else mapping_at (vm_regions m) a))
               else removed = vm_total_mapped m - vm_total_mapped m1
                 \<and> (\<forall>a. mapping_at (vm_regions m1) a = (if s \<le> a \<and> a < e then None else mapping_at (vm_regions m) a))
           | None \<Rightarrow> removed = vm_total_mapped m - vm_total_mapped m1
                 \<and> (\<forall>a. mapping_at (vm_regions m1) a = (if s \<le> a \<and> a < e then None else mapping_at (vm_regions m) a)))"
proof (cases "page_range s e")
  case False
  then show ?thesis using assms(1) by (simp add: vm_map_remove_def aligned_range_iff)
next
  case True
  then have ar: "aligned_range s e" by (simp add: aligned_range_iff)
  have one: "find (hole_in s e) (vm_regions m) = Some r" if "r \<in> set (vm_regions m)" "hole_in s e r" for r
    by (rule hole_unique [OF assms(1) ar that])
  show ?thesis
  proof (cases "\<exists>r \<in> set (vm_regions m). hole_in s e r \<and> alloc (cut_map m s r) = None")
    case lost: True
    then obtain r where r: "r \<in> set (vm_regions m)" "hole_in s e r" "alloc (cut_map m s r) = None" by blast
    note l = vm_map_remove_lost [where alloc = alloc, OF assms(1) ar r]
    have "vm_total_mapped m - vm_total_mapped (cut_map m s r) = vr_end r - s" by (simp add: cut_map_def)
    then show ?thesis using l r(3) True one [OF r(1,2)] by simp
  next
    case False
    then have "\<And>r. r \<in> set (vm_regions m) \<Longrightarrow> hole_in s e r \<Longrightarrow> alloc (cut_map m s r) \<noteq> None" by simp
    then obtain removed m1 where m1: "vm_map_remove alloc m s e = Some (removed, m1)" "vm_inv m1" "removed = vm_total_mapped m - vm_total_mapped m1"
      "\<forall>a. mapping_at (vm_regions m1) a = (if s \<le> a \<and> a < e then None else mapping_at (vm_regions m) a)"
      using vm_map_remove_exact [OF assms(2) ar assms(1)] by blast
    show ?thesis
    proof (cases "find (hole_in s e) (vm_regions m)")
      case None
      then show ?thesis using m1 True by simp
    next
      case (Some r)
      then obtain y where "alloc (cut_map m s r) = Some y" using False by (auto simp: find_Some_iff)
      then show ?thesis using Some m1 True by simp
    qed
  qed
qed

text \<open>
  C6. A region map is a partial function from addresses to protection, flags and name.  Inserting
  succeeds exactly when the range is a range of pages inside the map, unmapped, and an
  object for the region is granted, and then maps
  exactly the range; a refused insertion changes nothing.  Removing a range ends and, with one exception, unmaps exactly
  the addresses of the range (splitting a region when needed) and returns the number of bytes by
  which the map shrinks; a range that is not one of pages changes nothing.  The exception is a range strictly inside a region when no object is granted for the right
  part: then everything up to the end of that region is unmapped, while the returned number is the size of the range only.
  The lookup finds the region of an address although it stops at the first
  region beyond it.  All of this keeps the regions ordered, disjoint, aligned and counted.
\<close>

theorem vm_map_is_address_map:
  assumes "vm_inv m" and "fresh_alloc alloc"
  shows "(case vm_map_insert alloc m s e prot flags name of (ok, m1) \<Rightarrow> vm_inv m1 \<and>
       (ok \<longleftrightarrow> page_range s e \<and> vm_base m \<le> s \<and> e \<le> vm_limit m
          \<and> (\<forall>a. s \<le> a \<and> a < e \<longrightarrow> mapping_at (vm_regions m) a = None) \<and> alloc m \<noteq> None) \<and>
       (if ok then \<forall>a. mapping_at (vm_regions m1) a
            = (if s \<le> a \<and> a < e then Some (prot, flags, name) else mapping_at (vm_regions m) a)
        else m1 = m))
     \<and> (\<exists>removed m1. vm_map_remove alloc m s e = Some (removed, m1) \<and> vm_inv m1 \<and>
        (if \<not> page_range s e then removed = 0 \<and> m1 = m
         else case find (hole_in s e) (vm_regions m) of
             Some r \<Rightarrow>
               if alloc (cut_map m s r) = None
               then removed = e - s \<and> vm_total_mapped m - vm_total_mapped m1 = vr_end r - s
                 \<and> (\<forall>a. mapping_at (vm_regions m1) a = (if s \<le> a \<and> a < vr_end r then None else mapping_at (vm_regions m) a))
               else removed = vm_total_mapped m - vm_total_mapped m1
                 \<and> (\<forall>a. mapping_at (vm_regions m1) a = (if s \<le> a \<and> a < e then None else mapping_at (vm_regions m) a))
           | None \<Rightarrow> removed = vm_total_mapped m - vm_total_mapped m1
                 \<and> (\<forall>a. mapping_at (vm_regions m1) a = (if s \<le> a \<and> a < e then None else mapping_at (vm_regions m) a))))
     \<and> map_option (\<lambda>r. (vr_prot r, vr_flags r, vr_name r)) (vm_map_find m x) = mapping_at (vm_regions m) x"
proof -
  have "map_option (\<lambda>r. (vr_prot r, vr_flags r, vr_name r)) (vm_map_find m x) = mapping_at (vm_regions m) x"
    using assms(1) find_region_spec by (auto simp: vm_map_find_def mapping_at_def vm_inv_def)
  then show ?thesis
    by (rule conjI [OF vm_map_insert_total [OF assms] conjI [OF vm_map_remove_total [OF assms]]])
qed

text \<open>
  C28. \<open>vm_map_find_free\<close> is a first fit: for a limit that leaves room below the top of the address
  space, the address it returns is page aligned, at or above the hint and the base, its range is
  free and inside the limit, so an insertion there succeeds exactly when a region object is granted; no smaller candidate is free, and 0 is
  returned only when no candidate exists.
\<close>

theorem vm_map_find_free_first_fit:
  assumes "vm_inv m" and "fresh_alloc alloc" and "0 < vm_base m" and "vm_base m AND PAGE_MASK = 0" and "vm_base m \<le> vm_limit m"
    and "vm_limit m AND PAGE_MASK = 0" and "hint \<le> vm_limit m" and "unat (vm_limit m) + unat size0 + 8192 \<le> 2 ^ 64" and "size0 \<noteq> 0"
  defines "c \<equiv> vm_map_find_free m hint size0" and "n \<equiv> PAGE_ALIGN_UP size0"
  shows "(c \<noteq> 0 \<longrightarrow> hint \<le> c \<and> fst (vm_map_insert alloc m c (c + n) prot flags name) = (alloc m \<noteq> None))
     \<and> (\<forall>d. hint \<le> d \<and> vm_base m \<le> d \<and> d + n \<le> vm_limit m \<and> aligned_range d (d + n) \<and> (c = 0 \<or> d < c)
          \<longrightarrow> vm_map_overlaps m d (d + n))"
proof -
  define cur where "cur = (if hint < vm_base m then vm_base m else PAGE_ALIGN_UP hint)"
  have l2: "unat (vm_limit m) + 8192 \<le> 2 ^ 64" using assms(8) by simp
  note k = find_free_cursor [OF assms(4,5,6,7) l2, folded cur_def]
  have s0: "0 < unat size0" using assms(9) by (simp add: unat_gt_0)
  have un: "unat n = (unat size0 + 4095) div 4096 * 4096" unfolding n_def using assms(8) by (intro page_align_up) simp
  have "unat size0 \<le> unat n" unfolding un by (rule round_up_least(1))
  then have n0: "n \<noteq> 0" using s0 by auto
  have "unat n \<le> unat size0 + 4095" unfolding un by simp
  then have fit: "unat (vm_limit m) + unat n < 2 ^ 64" using assms(8) by linarith
  have nw: "unat (d + n) = unat d + unat n" if "d \<le> vm_limit m" for d
    using that fit by (intro unat_plus_no_wrap) (simp add: word_le_unat)
  have o: "ordered (vm_regions m)" "list_all (region_ok (vm_base m) (vm_limit m)) (vm_regions m)"
    using assms(1) by (simp_all add: vm_inv_def)
  obtain x where x: "free_loop (vm_regions m) cur n = Inl x \<or> free_loop (vm_regions m) cur n = Inr x" "cur \<le> x" "x \<le> vm_limit m"
    "gap_at (vm_regions m) n x" "x = cur \<or> (\<exists>r \<in> set (vm_regions m). x = vr_end r)"
    "\<forall>d. cur \<le> d \<and> d < x \<longrightarrow> \<not> gap_at (vm_regions m) n d" "free_loop (vm_regions m) cur n = Inl x \<longrightarrow> x + n \<le> vm_limit m"
    using free_loop_spec [OF o fit, of cur] k by blast
  have c: "c = (if x + n \<le> vm_limit m then x else 0)"
    using x(1,7) n0 unfolding c_def vm_map_find_free_def n_def [symmetric] cur_def [symmetric] Let_def by auto
  have x0: "x \<noteq> 0" using assms(3) k x(2) by force
  have xa: "4096 dvd unat x"
    using x(5) k o(2) by (auto simp: list_all_iff region_ok_def aligned_range_def page_aligned_iff)
  have "4096 dvd unat n" by (simp add: un)
  then have ar: "aligned_range x (x + n)"
    using xa nw [OF x(3)] n0 by (simp add: aligned_range_def page_aligned_iff word_less_unat unat_gt_0)
  have ov: "vm_map_overlaps m d (d + n) = (\<not> gap_at (vm_regions m) n d)" for d
    by (simp add: vm_map_overlaps_def gap_at_def)
  have bx: "vm_base m \<le> x" using k x(2) by force
  have "hint \<le> c \<and> fst (vm_map_insert alloc m c (c + n) prot flags name) = (alloc m \<noteq> None)" if "c \<noteq> 0"
  proof -
    have cx: "c = x" "x + n \<le> vm_limit m" using that c by (auto split: if_splits)
    have "hint \<le> x" using k x(2) by force
    moreover have "fst (vm_map_insert alloc m x (x + n) prot flags name) = (alloc m \<noteq> None)"
      using ar bx cx(2) ov [of x] x(4) by (simp add: vm_map_insert_def not_less [symmetric] Let_def split: option.split)
    ultimately show ?thesis using cx(1) by simp
  qed
  moreover have "vm_map_overlaps m d (d + n)"
    if d: "hint \<le> d" "vm_base m \<le> d" "d + n \<le> vm_limit m" "aligned_range d (d + n)" "c = 0 \<or> d < c" for d
  proof -
    have cd: "cur \<le> d" using k d by (simp add: aligned_range_def page_aligned_iff)
    have "d < x"
    proof (rule ccontr)
      assume "\<not> d < x"
      then have xd: "x \<le> d" "c = 0" using d(5) c x0 by (auto split: if_splits)
      have dl: "d \<le> vm_limit m" using d(3,4) by (force simp: aligned_range_def)
      have "unat x + unat n \<le> unat (vm_limit m)" using xd(1) d(3) nw [OF dl] by (simp add: word_le_unat)
      then have "x + n \<le> vm_limit m" using nw [OF x(3)] by (simp add: word_le_unat)
      then show False using xd(2) c x0 by simp
    qed
    then show ?thesis using x(6) cd ov by simp
  qed
  ultimately show ?thesis by blast
qed


subsection \<open>Examples\<close>

definition example_alloc :: region_alloc where
  "example_alloc m = Some (Suc (sum_list (map vr_node (vm_regions m))))"

lemma example_alloc_fresh: "fresh_alloc example_alloc"
proof -
  have "Suc (sum_list (map vr_node rs)) \<notin> vr_node ` set rs" for rs :: "vm_region list"
  proof
    assume "Suc (sum_list (map vr_node rs)) \<in> vr_node ` set rs"
    then have "Suc (sum_list (map vr_node rs)) \<in> set (map vr_node rs)" by simp
    from member_le_sum_list [OF this] show False by simp
  qed
  then show ?thesis by (simp add: fresh_alloc_def example_alloc_def)
qed

definition example_vm :: vm_map where
  "example_vm = (vm_map_init 0x1000 0x100000 ''user'')\<lparr>vm_region_count := 1, vm_total_mapped := 0x3000,
     vm_regions := [\<lparr>vr_node = 1, vr_start = 0x2000, vr_end = 0x5000, vr_prot = 3, vr_flags = 1, vr_name = ''heap'',
       vr_fault_count = 0\<rparr>]\<rparr>"

lemma example_vm_inv: "vm_inv example_vm"
  by (simp add: vm_inv_def example_vm_def vm_map_init_def region_ok_def aligned_range_def PAGE_MASK_def PAGE_SIZE_def mapped_bytes_def)

text \<open>An allocator that grants nothing: the removal of a page in the middle loses the rest of the region.\<close>

definition failing_alloc :: region_alloc where
  "failing_alloc m = None"

lemma failing_alloc_fresh: "fresh_alloc failing_alloc"
  by (simp add: fresh_alloc_def failing_alloc_def)

theorem vm_map_is_address_map_witness:
  "(\<exists>removed m1. vm_map_remove example_alloc example_vm 0x3000 0x4000 = Some (removed, m1) \<and> vm_inv m1
     \<and> mapping_at (vm_regions m1) 0x3800 = None \<and> mapping_at (vm_regions m1) 0x4800 = Some (3, 1, ''heap''))
   \<and> (\<exists>m1. vm_map_remove failing_alloc example_vm 0x3000 0x4000 = Some (0x1000, m1)
     \<and> vm_total_mapped example_vm - vm_total_mapped m1 = 0x2000 \<and> mapping_at (vm_regions m1) 0x4800 = None)"
proof -
  have pr: "page_range 0x3000 0x4000" by (simp add: page_range_def)
  define r where "r = hd (vm_regions example_vm)"
  have f: "find (hole_in 0x3000 0x4000) (vm_regions example_vm) = Some r" "vr_end r = 0x5000"
    by (simp_all add: example_vm_def hole_in_def r_def)
  have at: "mapping_at (vm_regions example_vm) 0x4800 = Some (3, 1, ''heap'')" by (simp add: example_vm_def)
  have g: "example_alloc (cut_map example_vm 0x3000 r) \<noteq> None" "failing_alloc (cut_map example_vm 0x3000 r) = None"
    by (simp_all add: example_alloc_def failing_alloc_def)
  obtain y where y: "example_alloc (cut_map example_vm 0x3000 r) = Some y" using g(1) by auto
  have "\<exists>removed m1. vm_map_remove example_alloc example_vm 0x3000 0x4000 = Some (removed, m1) \<and> vm_inv m1
      \<and> (\<forall>a. mapping_at (vm_regions m1) a = (if 0x3000 \<le> a \<and> a < 0x4000 then None else mapping_at (vm_regions example_vm) a))"
    using vm_map_is_address_map [OF example_vm_inv example_alloc_fresh, of "0x3000" "0x4000", THEN conjunct2, THEN conjunct1]
    by (auto simp: pr f y)
  moreover have "\<exists>m1. vm_map_remove failing_alloc example_vm 0x3000 0x4000 = Some (0x1000, m1)
      \<and> vm_total_mapped example_vm - vm_total_mapped m1 = 0x2000
      \<and> (\<forall>a. mapping_at (vm_regions m1) a = (if 0x3000 \<le> a \<and> a < 0x5000 then None else mapping_at (vm_regions example_vm) a))"
    using vm_map_is_address_map [OF example_vm_inv failing_alloc_fresh, of "0x3000" "0x4000", THEN conjunct2, THEN conjunct1]
    by (auto simp: pr f g(2))
  ultimately show ?thesis using at by fastforce
qed

theorem vm_map_find_free_first_fit_witness:
  "vm_map_find_free example_vm 0x2000 0x1800 = 0x5000
     \<and> fst (vm_map_insert example_alloc example_vm 0x5000 0x7000 1 1 ''map'')"
proof -
  have n: "PAGE_ALIGN_UP 0x1800 = 0x2000" "PAGE_ALIGN_UP 0x2000 = 0x2000" by (simp_all add: PAGE_ALIGN_UP_def PAGE_MASK_def PAGE_SIZE_def)
  have c: "vm_map_find_free example_vm 0x2000 0x1800 = 0x5000"
    by (simp add: vm_map_find_free_def n example_vm_def vm_map_init_def)
  have h: "0 < vm_base example_vm" "vm_base example_vm AND PAGE_MASK = 0" "vm_base example_vm \<le> vm_limit example_vm"
    "vm_limit example_vm AND PAGE_MASK = 0" "0x2000 \<le> vm_limit example_vm"
    "unat (vm_limit example_vm) + unat (0x1800 :: u64) + 8192 \<le> 2 ^ 64" "(0x1800 :: u64) \<noteq> 0"
    by (simp_all add: example_vm_def vm_map_init_def PAGE_MASK_def PAGE_SIZE_def)
  show ?thesis
    using vm_map_find_free_first_fit [OF example_vm_inv example_alloc_fresh h, of 1 1 "''map''"] by (simp add: c n example_alloc_def)
qed

end
