(* ===== verification/Cstring.thy ===== *)
theory Cstring
  imports Prelude
begin

text \<open>
  \<open>kernel/src/string.c\<close>: the memory and string primitives.  Memory is a function from addresses
  to bytes, so that source and destination may overlap.  The functions that run to a terminating
  zero byte are partial functions: \<open>None\<close> is a scan that never meets one.
\<close>

type_synonym memory = "nat \<Rightarrow> u8"

primrec memset :: "memory \<Rightarrow> nat \<Rightarrow> u8 \<Rightarrow> nat \<Rightarrow> memory" where
  "memset m d v 0 = m"
| "memset m d v (Suc n) = memset (m(d := v)) (Suc d) v n"

primrec memcpy :: "memory \<Rightarrow> nat \<Rightarrow> nat \<Rightarrow> nat \<Rightarrow> memory" where
  "memcpy m d s 0 = m"
| "memcpy m d s (Suc n) = memcpy (m(d := m s)) (Suc d) (Suc s) n"

primrec memcmp :: "memory \<Rightarrow> nat \<Rightarrow> nat \<Rightarrow> nat \<Rightarrow> int" where
  "memcmp m a b 0 = 0"
| "memcmp m a b (Suc n) =
     (if m a \<noteq> m b then uint (m a) - uint (m b) else memcmp m (Suc a) (Suc b) n)"

partial_function (option) strlen_from :: "memory \<Rightarrow> nat \<Rightarrow> nat \<Rightarrow> nat option" where
  "strlen_from m s n = (if m (s + n) \<noteq> 0 then strlen_from m s (Suc n) else Some n)"

definition kstrlen :: "memory \<Rightarrow> nat \<Rightarrow> nat option" where
  "kstrlen m s = strlen_from m s 0"

text \<open>The backward loop of \<open>memmove\<close>: \<open>d\<close> and \<open>s\<close> are the starts, \<open>n\<close> bytes are left.\<close>

primrec memmove_back :: "memory \<Rightarrow> nat \<Rightarrow> nat \<Rightarrow> nat \<Rightarrow> memory" where
  "memmove_back m d s 0 = m"
| "memmove_back m d s (Suc n) = memmove_back (m(d + n := m (s + n))) d s n"

definition memmove :: "memory \<Rightarrow> nat \<Rightarrow> nat \<Rightarrow> nat \<Rightarrow> memory" where
  "memmove m d s n =
     (if d = s \<or> n = 0 then m
      else if d < s then memcpy m d s n
      else memmove_back m d s n)"

partial_function (option) strcmp :: "memory \<Rightarrow> nat \<Rightarrow> nat \<Rightarrow> int option" where
  "strcmp m a b =
     (if m a \<noteq> 0 \<and> m a = m b then strcmp m (Suc a) (Suc b) else Some (uint (m a) - uint (m b)))"

primrec strncmp :: "memory \<Rightarrow> nat \<Rightarrow> nat \<Rightarrow> nat \<Rightarrow> int" where
  "strncmp m a b 0 = 0"
| "strncmp m a b (Suc n) =
     (if m a \<noteq> m b then uint (m a) - uint (m b)
      else if m a = 0 then 0
      else strncmp m (Suc a) (Suc b) n)"

partial_function (option) strcpy :: "memory \<Rightarrow> nat \<Rightarrow> nat \<Rightarrow> memory option" where
  "strcpy m d s =
     (let m1 = m(d := m s) in
      if m1 d \<noteq> 0 then strcpy m1 (Suc d) (Suc s) else Some m1)"

function strncpy_copy :: "memory \<Rightarrow> nat \<Rightarrow> nat \<Rightarrow> nat \<Rightarrow> nat \<Rightarrow> nat \<times> memory" where
  "strncpy_copy m d s n i =
     (if i < n \<and> m (s + i) \<noteq> 0 then strncpy_copy (m(d + i := m (s + i))) d s n (Suc i) else (i, m))"
  by pat_completeness auto
termination by (relation "measure (\<lambda>(m, d, s, n, i). n - i)") auto

declare strncpy_copy.simps [simp del]

definition strncpy :: "memory \<Rightarrow> nat \<Rightarrow> nat \<Rightarrow> nat \<Rightarrow> memory" where
  "strncpy m d s n =
     (case strncpy_copy m d s n 0 of (i, m1) \<Rightarrow> fold (\<lambda>j m. m(d + j := 0)) [i..<n] m1)"

definition strlcpy :: "memory \<Rightarrow> nat \<Rightarrow> nat \<Rightarrow> nat \<Rightarrow> (nat \<times> memory) option" where
  "strlcpy m d s dst_size =
     map_option
       (\<lambda>srclen. (srclen,
          if dst_size \<noteq> 0
          then (let n = (if srclen < dst_size - 1 then srclen else dst_size - 1);
                    m1 = fold (\<lambda>i m. m(d + i := m (s + i))) [0..<n] m
                in m1(d + n := 0))
          else m))
       (kstrlen m s)"

text \<open>The parameter \<open>c\<close> is an \<open>int\<close>: the loops compare the byte \<open>(char)c\<close>, the test for the terminator the whole number.\<close>

partial_function (option) strchr :: "memory \<Rightarrow> nat \<Rightarrow> u32 \<Rightarrow> nat option option" where
  "strchr m s c =
     (if m s \<noteq> 0 then (if m s = ucast c then Some (Some s) else strchr m (Suc s) c)
      else Some (if c = 0 then Some s else None))"

partial_function (option) strrchr_from :: "memory \<Rightarrow> nat \<Rightarrow> u32 \<Rightarrow> nat option \<Rightarrow> nat option option" where
  "strrchr_from m s c last1 =
     (if m s \<noteq> 0 then strrchr_from m (Suc s) c (if m s = ucast c then Some s else last1)
      else Some (if c = 0 then Some s else last1))"

definition strrchr :: "memory \<Rightarrow> nat \<Rightarrow> u32 \<Rightarrow> nat option option" where
  "strrchr m s c = strrchr_from m s c None"

subsection \<open>Memory\<close>

lemma memset_spec: "memset m d v n a = (if d \<le> a \<and> a < d + n then v else m a)"
  by (induction n arbitrary: m d) auto

lemma memcpy_spec:
  assumes "d \<le> s \<or> s + n \<le> d"
  shows "memcpy m d s n a = (if d \<le> a \<and> a < d + n then m (s + (a - d)) else m a)"
  using assms
proof (induction n arbitrary: m d s)
  case 0
  then show ?case by auto
next
  case (Suc n)
  have "memcpy m d s (Suc n) a = memcpy (m(d := m s)) (Suc d) (Suc s) n a" by simp
  also have "\<dots> = (if Suc d \<le> a \<and> a < Suc d + n then (m(d := m s)) (Suc s + (a - Suc d)) else (m(d := m s)) a)"
    using Suc.prems by (intro Suc.IH) auto
  also have "\<dots> = (if d \<le> a \<and> a < d + Suc n then m (s + (a - d)) else m a)"
    using Suc.prems by (auto simp: Suc_diff_Suc)
  finally show ?case .
qed

lemma memmove_back_spec:
  "s \<le> d \<Longrightarrow> memmove_back m d s n a = (if d \<le> a \<and> a < d + n then m (s + (a - d)) else m a)"
  by (induction n arbitrary: m) auto

lemma memmove_spec:
  "memmove m d s n a = (if d \<le> a \<and> a < d + n then m (s + (a - d)) else m a)"
  by (auto simp: memmove_def memcpy_spec memmove_back_spec)

lemma memcmp_zero: "memcmp m a b n = 0 \<longleftrightarrow> (\<forall>i < n. m (a + i) = m (b + i))"
proof (induction n arbitrary: a b)
  case 0
  then show ?case by simp
next
  case (Suc n)
  have "(\<forall>i < Suc n. m (a + i) = m (b + i)) \<longleftrightarrow> m a = m b \<and> (\<forall>i < n. m (Suc a + i) = m (Suc b + i))"
    by (simp add: All_less_Suc2)
  then show ?case using Suc by (auto dest: word_uint_eqI)
qed

subsection \<open>Zero-terminated strings\<close>

fun cstr :: "memory \<Rightarrow> nat \<Rightarrow> u8 list \<Rightarrow> bool" where
  "cstr m p [] = (m p = 0)"
| "cstr m p (x # xs) = (m p = x \<and> x \<noteq> 0 \<and> cstr m (Suc p) xs)"

lemma cstr_nth: "cstr m p xs \<longleftrightarrow> (\<forall>i < length xs. m (p + i) = xs ! i \<and> xs ! i \<noteq> 0) \<and> m (p + length xs) = 0"
proof (induction xs arbitrary: p)
  case Nil
  then show ?case by simp
next
  case (Cons x xs)
  show ?case unfolding cstr.simps Cons.IH by (auto simp: All_less_Suc2)
qed

lemma strlen_from_cstr: "cstr m (s + n) xs \<Longrightarrow> strlen_from m s n = Some (n + length xs)"
proof (induction xs arbitrary: n)
  case Nil
  then show ?case by (simp add: strlen_from.simps [of m s n])
next
  case (Cons x xs)
  then show ?case using Cons.IH [of "Suc n"] by (simp add: strlen_from.simps [of m s n])
qed

lemma kstrlen_cstr: "cstr m s xs \<Longrightarrow> kstrlen m s = Some (length xs)"
  using strlen_from_cstr [of m s 0 xs] by (simp add: kstrlen_def)

text \<open>The comparison of two strings as lists of unsigned bytes.\<close>

fun byte_compare :: "u8 list \<Rightarrow> u8 list \<Rightarrow> int" where
  "byte_compare [] [] = 0"
| "byte_compare [] (y # ys) = - uint y"
| "byte_compare (x # xs) [] = uint x"
| "byte_compare (x # xs) (y # ys) = (if x = y then byte_compare xs ys else uint x - uint y)"

lemma strcmp_cstr: "cstr m a xs \<Longrightarrow> cstr m b ys \<Longrightarrow> strcmp m a b = Some (byte_compare xs ys)"
proof (induction xs ys arbitrary: a b rule: byte_compare.induct)
  case 1
  then show ?case by (simp add: strcmp.simps [of m a b])
next
  case (2 y ys)
  then show ?case by (simp add: strcmp.simps [of m a b])
next
  case (3 x xs)
  then show ?case by (simp add: strcmp.simps [of m a b])
next
  case (4 x xs y ys)
  show ?case
  proof (cases "x = y")
    case True
    then show ?thesis using 4 by (simp add: strcmp.simps [of m a b])
  next
    case False
    then show ?thesis using 4 by (simp add: strcmp.simps [of m a b])
  qed
qed

lemma byte_compare_zero: "0 \<notin> set xs \<Longrightarrow> 0 \<notin> set ys \<Longrightarrow> byte_compare xs ys = 0 \<longleftrightarrow> xs = ys"
proof (induction xs ys rule: byte_compare.induct)
  case (2 y ys)
  then have "uint y \<noteq> 0" by (auto simp: uint_0_iff)
  then show ?case by simp
next
  case (3 x xs)
  then have "uint x \<noteq> 0" by (auto simp: uint_0_iff)
  then show ?case by simp
qed (auto dest: word_uint_eqI)

lemma byte_compare_less:
  "0 \<notin> set xs \<Longrightarrow> 0 \<notin> set ys \<Longrightarrow> byte_compare xs ys < 0 \<longleftrightarrow> (xs, ys) \<in> lexord {(x, y). x < y}"
proof (induction xs ys rule: byte_compare.induct)
  case (2 y ys)
  then have "uint y \<noteq> 0" by (auto simp: uint_0_iff)
  then have "0 < uint y" by (simp add: less_le)
  then show ?case by simp
next
  case (4 x xs y ys)
  then show ?case by (auto simp: word_less_def)
qed simp_all

lemma byte_compare_swap: "byte_compare ys xs = - byte_compare xs ys"
  by (induction xs ys rule: byte_compare.induct) simp_all

text \<open>A comparison of two strings, as its sign reports it: equal, before or after in the order of unsigned bytes.\<close>

definition compares :: "int \<Rightarrow> u8 list \<Rightarrow> u8 list \<Rightarrow> bool" where
  "compares r xs ys \<longleftrightarrow> (r = 0 \<longleftrightarrow> xs = ys) \<and> (r < 0 \<longleftrightarrow> (xs, ys) \<in> lexord {(x, y). x < y})
     \<and> (r > 0 \<longleftrightarrow> (ys, xs) \<in> lexord {(x, y). x < y})"

lemma byte_compare_compares:
  assumes "0 \<notin> set xs" and "0 \<notin> set ys"
  shows "compares (byte_compare xs ys) xs ys"
  using byte_compare_zero [OF assms] byte_compare_less [OF assms] byte_compare_less [OF assms(2,1)] byte_compare_swap [of ys xs]
  by (simp add: compares_def)

text \<open>The addresses of the first and of the last place of a byte in a string.\<close>

definition first_at :: "nat \<Rightarrow> u8 list \<Rightarrow> u8 \<Rightarrow> nat \<Rightarrow> bool" where
  "first_at a xs c p \<longleftrightarrow> (\<exists>i. p = a + i \<and> i < length xs \<and> xs ! i = c \<and> (\<forall>j < i. xs ! j \<noteq> c))"

definition last_at :: "nat \<Rightarrow> u8 list \<Rightarrow> u8 \<Rightarrow> nat \<Rightarrow> bool" where
  "last_at a xs c p \<longleftrightarrow> (\<exists>i. p = a + i \<and> i < length xs \<and> xs ! i = c \<and> (\<forall>j. i < j \<and> j < length xs \<longrightarrow> xs ! j \<noteq> c))"

lemma strchr_cstr:
  "cstr m s xs \<Longrightarrow> strchr m s c = Some (if c = 0 then Some (s + length xs)
     else if ucast c \<in> set xs then Some (s + length (takeWhile (\<lambda>x. x \<noteq> ucast c) xs)) else None)"
proof (induction xs arbitrary: s)
  case Nil
  then show ?case by (simp add: strchr.simps [of m s c])
next
  case (Cons x xs)
  then show ?case using Cons.IH [of "Suc s"] by (auto simp: strchr.simps [of m s c])
qed

lemma last_occurrence:
  assumes "c \<in> set xs"
  defines "i \<equiv> length xs - Suc (length (takeWhile (\<lambda>x. x \<noteq> c) (rev xs)))"
  shows "last_at a xs c (a + i)"
proof -
  obtain ys zs where d: "xs = ys @ c # zs" "c \<notin> set zs" using split_list_last [OF assms(1)] by blast
  have "takeWhile (\<lambda>x. x \<noteq> c) (rev xs) = rev zs" 
    unfolding d(1) using d(2) takeWhile_append2 [of "rev zs" "\<lambda>x. x \<noteq> c" "c # rev ys"] by auto
  then have i: "i = length ys" by (simp add: i_def d(1))
  have "xs ! j \<noteq> c" if "i < j" "j < length xs" for j
  proof -
    have "xs ! j = zs ! (j - Suc i)" "j - Suc i < length zs" using that by (auto simp: d(1) i nth_append nth_Cons')
    then show ?thesis using d(2) nth_mem by metis
  qed
  then show ?thesis using d i unfolding last_at_def by (intro exI [of _ i]) simp
qed

lemma strrchr_from_cstr:
  "cstr m s xs \<Longrightarrow> strrchr_from m s c l =
     Some (if c = 0 then Some (s + length xs)
       else if ucast c \<in> set xs then Some (s + (length xs - Suc (length (takeWhile (\<lambda>x. x \<noteq> ucast c) (rev xs))))) else l)"
proof (induction xs arbitrary: s l)
  case Nil
  then show ?case by (simp add: strrchr_from.simps [of m s c])
next
  case (Cons x xs)
  define b :: u8 where "b = ucast c"
  have st: "strrchr_from m s c l = strrchr_from m (Suc s) c (if x = b then Some s else l)"
    using Cons.prems by (simp add: strrchr_from.simps [of m s c l] b_def)
  have ih: "strrchr_from m (Suc s) c (if x = b then Some s else l) = Some (if c = 0 then Some (Suc s + length xs)
     else if b \<in> set xs then Some (Suc s + (length xs - Suc (length (takeWhile (\<lambda>x. x \<noteq> b) (rev xs))))) else if x = b then Some s else l)"
    using Cons by (simp add: b_def)
  show ?case
  proof (cases "b \<in> set xs")
    case True
    have tw: "takeWhile (\<lambda>x. x \<noteq> b) (rev xs @ [x]) = takeWhile (\<lambda>x. x \<noteq> b) (rev xs)"
      using True by (intro takeWhile_append1 [of b]) auto
    have "length (takeWhile (\<lambda>x. x \<noteq> b) (rev xs)) < length xs"
    proof -
      have "takeWhile (\<lambda>x. x \<noteq> b) (rev xs) \<noteq> rev xs" using True by (auto simp: takeWhile_eq_all_conv)
      then show ?thesis using length_takeWhile_le [of "\<lambda>x. x \<noteq> b" "rev xs"]
        by (metis length_rev le_neq_implies_less takeWhile_eq_take take_all)
    qed
    then show ?thesis using st ih True tw by (auto simp: b_def [symmetric])
  next
    case False
    have tw: "takeWhile (\<lambda>x. x \<noteq> b) (rev xs @ [x]) = rev xs @ takeWhile (\<lambda>x. x \<noteq> b) [x]"
      using False by (intro takeWhile_append2) auto
    then have "length (takeWhile (\<lambda>x. x \<noteq> b) (rev (x # xs))) = (if x = b then length xs else Suc (length xs))" by simp
    then show ?thesis using st ih False by (cases "x = b") (simp_all add: b_def [symmetric])
  qed
qed

lemma first_occurrence:
  assumes "c \<in> set xs"
  defines "i \<equiv> length (takeWhile (\<lambda>x. x \<noteq> c) xs)"
  shows "first_at a xs c (a + i)"
proof -
  obtain ys zs where d: "xs = ys @ c # zs" "c \<notin> set ys" using split_list_first [OF assms(1)] by blast
  have "takeWhile (\<lambda>x. x \<noteq> c) xs = ys"
    unfolding d(1) using d(2) by (subst takeWhile_append2) auto
  then have "i = length ys" by (simp add: i_def)
  then show ?thesis using d unfolding first_at_def by (intro exI [of _ i]) (auto simp: nth_append)
qed

lemma strcpy_cstr:
  assumes "cstr m s xs" and "d + length xs < s \<or> s + length xs < d"
  shows "\<exists>m1. strcpy m d s = Some m1 \<and> cstr m1 d xs \<and> (\<forall>a. a < d \<or> d + length xs < a \<longrightarrow> m1 a = m a)"
  using assms
proof (induction xs arbitrary: m d s)
  case Nil
  then show ?case by (simp add: strcpy.simps [of m d s])
next
  case (Cons x xs)
  have mx: "m s = x" "x \<noteq> 0" using Cons.prems by simp_all
  have st: "strcpy m d s = strcpy (m(d := x)) (Suc d) (Suc s)"
    using mx by (simp add: strcpy.simps [of m d s] Let_def)
  have c1: "cstr (m(d := x)) (Suc s) xs"
    using Cons.prems by (auto simp: cstr_nth)
  have "Suc d + length xs < Suc s \<or> Suc s + length xs < Suc d" using Cons.prems(2) by auto
  from Cons.IH [OF c1 this] obtain m1 where m1: "strcpy (m(d := x)) (Suc d) (Suc s) = Some m1" "cstr m1 (Suc d) xs"
    "\<forall>a. a < Suc d \<or> Suc d + length xs < a \<longrightarrow> m1 a = (m(d := x)) a" by blast
  then show ?case using st mx by (intro exI [of _ m1]) simp
qed

lemma fold_copy_spec:
  assumes "d + n \<le> s \<or> s + n \<le> d"
  shows "fold (\<lambda>i m. m(d + i := m (s + i))) [0..<n] m a = (if d \<le> a \<and> a < d + n then m (s + (a - d)) else m a)"
  using assms
proof (induction n arbitrary: a)
  case 0
  then show ?case by auto
next
  case (Suc n)
  define g where "g = fold (\<lambda>i m. m(d + i := m (s + i))) [0..<n] m"
  have ih: "g b = (if d \<le> b \<and> b < d + n then m (s + (b - d)) else m b)" for b
    unfolding g_def using Suc.prems by (intro Suc.IH) auto
  have eq: "fold (\<lambda>i m. m(d + i := m (s + i))) [0..<Suc n] m = g(d + n := g (s + n))" by (simp add: g_def)
  show ?case unfolding eq using Suc.prems by (auto simp: ih)
qed

lemma strlcpy_cstr:
  assumes "cstr m s xs" and "d + dst_size \<le> s \<or> s + length xs < d"
  defines "k \<equiv> min (length xs) (dst_size - 1)"
  shows "\<exists>m1. strlcpy m d s dst_size = Some (length xs, m1) \<and> (0 < dst_size \<longrightarrow> cstr m1 d (take k xs))
     \<and> (\<forall>a. a < d \<or> d + dst_size \<le> a \<longrightarrow> m1 a = m a)"
proof (cases "dst_size = 0")
  case True
  then show ?thesis using kstrlen_cstr [OF assms(1)] by (simp add: strlcpy_def)
next
  case False
  define n where "n = (if length xs < dst_size - 1 then length xs else dst_size - 1)"
  have nk: "n = k" by (simp add: n_def k_def)
  define m1 where "m1 = fold (\<lambda>i m. m(d + i := m (s + i))) [0..<n] m"
  have kl: "k \<le> length xs" "k < dst_size" using False by (auto simp: k_def)
  have sep: "d + n \<le> s \<or> s + n \<le> d" using assms(2) kl nk by auto
  have f: "m1 a = (if d \<le> a \<and> a < d + k then m (s + (a - d)) else m a)" for a
    unfolding m1_def nk by (rule fold_copy_spec [OF sep [unfolded nk]])
  have r: "strlcpy m d s dst_size = Some (length xs, m1(d + k := 0))"
    unfolding strlcpy_def kstrlen_cstr [OF assms(1)] Let_def option.map n_def [symmetric] m1_def [symmetric] nk [symmetric]
    using False by simp
  have "cstr (m1(d + k := 0)) d (take k xs)"
    using assms(1) kl by (auto simp: cstr_nth f)
  moreover have "(m1(d + k := 0)) a = m a" if "a < d \<or> d + dst_size \<le> a" for a using that kl f by auto
  ultimately show ?thesis using r by blast
qed

lemma strncmp_cstr: "cstr m a xs \<Longrightarrow> cstr m b ys \<Longrightarrow> strncmp m a b n = byte_compare (take n xs) (take n ys)"
proof (induction n arbitrary: a b xs ys)
  case 0
  then show ?case by simp
next
  case (Suc n)
  then show ?case by (cases xs; cases ys) auto
qed

lemma strncpy_copy_cstr:
  assumes "cstr m s xs" and "d + n \<le> s \<or> s + length xs < d" and "i \<le> min n (length xs)"
  shows "\<exists>m1. strncpy_copy m d s n i = (min n (length xs), m1)
     \<and> (\<forall>a. m1 a = (if d + i \<le> a \<and> a < d + min n (length xs) then m (s + (a - d)) else m a))"
  using assms
proof (induction "n - i" arbitrary: i m)
  case 0
  then have i: "i = n" by simp
  then have "strncpy_copy m d s n i = (n, m)" by (subst strncpy_copy.simps) simp
  then show ?case using 0 i by (intro exI [of _ m]) auto
next
  case (Suc k)
  show ?case
  proof (cases "i < length xs")
    case True
    have mi: "m (s + i) = xs ! i" "xs ! i \<noteq> 0" using Suc.prems(1) True by (simp_all add: cstr_nth)
    define m2 where "m2 = m(d + i := m (s + i))"
    have lt: "i < n" using Suc.hyps(2) by simp
    have st: "strncpy_copy m d s n i = strncpy_copy m2 d s n (Suc i)"
      using mi lt by (simp add: strncpy_copy.simps [of m d s n i] m2_def)
    have c2: "cstr m2 s xs" using Suc.prems(1,2) lt True by (auto simp: cstr_nth m2_def)
    have "k = n - Suc i" "Suc i \<le> min n (length xs)" using Suc.hyps(2) True lt by auto
    from Suc.hyps(1) [OF this(1) c2 Suc.prems(2) this(2)] obtain m1 where m1:
      "strncpy_copy m2 d s n (Suc i) = (min n (length xs), m1)"
      "\<forall>a. m1 a = (if d + Suc i \<le> a \<and> a < d + min n (length xs) then m2 (s + (a - d)) else m2 a)" by blast
    have far: "s + (a - d) \<noteq> d + i" if "d + i \<le> a" "a < d + min n (length xs)" for a using that Suc.prems(2) lt by auto
    have "m1 a = (if d + i \<le> a \<and> a < d + min n (length xs) then m (s + (a - d)) else m a)" for a
      using m1(2) far [of a] lt True by (auto simp: m2_def)
    then show ?thesis using st m1(1) by auto
  next
    case False
    then have "i = length xs" using Suc.prems(3) by simp
    moreover have "m (s + length xs) = 0" using Suc.prems(1) by (simp add: cstr_nth)
    ultimately have "strncpy_copy m d s n i = (length xs, m)" by (subst strncpy_copy.simps) simp
    then show ?thesis using Suc.hyps(2) \<open>i = length xs\<close> by (intro exI [of _ m]) auto
  qed
qed

text \<open>
  C29. \<open>memmove\<close> copies correctly for every overlap of source and destination: each destination
  byte becomes the source byte as it was before the call, and no other byte changes.
\<close>

theorem memmove_correct:
  "memmove m d s n = (\<lambda>a. if d \<le> a \<and> a < d + n then m (s + (a - d)) else m a)"
  by (rule ext) (rule memmove_spec)

text \<open>
  C30. On zero-terminated strings the string functions return and compute what their names say:
  the length; the order of the strings as strings of unsigned bytes (0 exactly for equal strings,
  negative exactly when the first comes before the second in lexicographic order, positive exactly when it comes
  after), for \<open>strncmp\<close> of the first \<open>n\<close> bytes; the first and the last occurrence of a
  byte, which is the terminator for the number 0 and nothing for a byte that does not occur; and a
  bounded copy that is always terminated, never writes outside the
  destination and reports the full source length.
\<close>

theorem string_functions_correct:
  assumes "cstr m a xs" and "cstr m b ys" and "d + dst_size \<le> a \<or> a + length xs < d"
  shows "kstrlen m a = Some (length xs) \<and>
     (\<exists>r. strcmp m a b = Some r \<and> compares r xs ys) \<and>
     compares (strncmp m a b n) (take n xs) (take n ys) \<and>
     (\<exists>r. strchr m a c = Some r \<and> (case r of
        Some p \<Rightarrow> if c = 0 then p = a + length xs else first_at a xs (ucast c) p
      | None \<Rightarrow> c \<noteq> 0 \<and> ucast c \<notin> set xs)) \<and>
     (\<exists>r. strrchr m a c = Some r \<and> (case r of
        Some p \<Rightarrow> if c = 0 then p = a + length xs else last_at a xs (ucast c) p
      | None \<Rightarrow> c \<noteq> 0 \<and> ucast c \<notin> set xs)) \<and>
     (\<exists>m1. strlcpy m d a dst_size = Some (length xs, m1)
        \<and> (0 < dst_size \<longrightarrow> cstr m1 d (take (min (length xs) (dst_size - 1)) xs))
        \<and> (\<forall>x. x < d \<or> d + dst_size \<le> x \<longrightarrow> m1 x = m x))"
proof -
  have nz: "0 \<notin> set xs" "0 \<notin> set ys" using assms(1,2) by (auto simp: cstr_nth in_set_conv_nth)
  then have nzt: "0 \<notin> set (take n xs)" "0 \<notin> set (take n ys)" by (auto dest: in_set_takeD)
  have f: "ucast c \<in> set xs \<Longrightarrow> first_at a xs (ucast c) (a + length (takeWhile (\<lambda>x. x \<noteq> ucast c) xs))"
    by (rule first_occurrence)
  have l: "ucast c \<in> set xs \<Longrightarrow>
      last_at a xs (ucast c) (a + (length xs - Suc (length (takeWhile (\<lambda>x. x \<noteq> ucast c) (rev xs)))))"
    by (rule last_occurrence)
  have cmp: "\<exists>r. strcmp m a b = Some r \<and> compares r xs ys" "compares (strncmp m a b n) (take n xs) (take n ys)"
    using strcmp_cstr [OF assms(1,2)] strncmp_cstr [OF assms(1,2), of n] byte_compare_compares [OF nz]
      byte_compare_compares [OF nzt] by simp_all
  show ?thesis
    using kstrlen_cstr [OF assms(1)] cmp strchr_cstr [OF assms(1), of c] strrchr_from_cstr [OF assms(1), of c None]
      strlcpy_cstr [OF assms(1,3)] f l by (simp add: strrchr_def)
qed

theorem string_functions_correct_witness:
  "let m = (\<lambda>a. if a = 100 then 0x68 else if a = 101 then 0x69 else if a = 200 then 0x68 else if a = 201 then 0x7A else 0)
   in cstr m 100 [0x68, 0x69] \<and> kstrlen m 100 = Some 2 \<and> (\<exists>r. strcmp m 100 200 = Some r \<and> r < 0)
     \<and> strncmp m 100 200 1 = 0 \<and> strchr m 100 256 = Some None"
proof -
  define m :: memory where
    "m = (\<lambda>a. if a = 100 then 0x68 else if a = 101 then 0x69 else if a = 200 then 0x68 else if a = 201 then 0x7A else 0)"
  have c: "cstr m 100 [0x68, 0x69]" "cstr m 200 [0x68, 0x7A]" by (simp_all add: m_def)
  have r: "strchr m 100 256 = Some r \<Longrightarrow> r = None" for r
    using string_functions_correct [OF c, of 0 4 1 256] by (auto simp: first_at_def less_Suc_eq split: option.splits)
  show ?thesis
    using string_functions_correct [OF c, of 0 4 1 256] c r unfolding m_def [symmetric] Let_def
    by (auto simp: compares_def)
qed

end
