(* ===== verification/Fmt.thy ===== *)
theory Fmt
  imports Prelude
begin

text \<open>
  \<open>kernel/lib/fmt.c\<close> and \<open>kernel/lib/strbuf.c\<close>: formatted output.  A character buffer is a function
  from indices to characters, \<open>None\<close> the null pointer.  The variable arguments are a list of
  64-bit values and strings; a conversion that finds no argument of its kind, and a format that
  ends inside a conversion, are undefined behaviour of the C code and give \<open>None\<close>.  Widths and
  counts, which the code keeps in an \<open>int\<close>, are natural numbers.
\<close>

abbreviation NUL :: char where "NUL \<equiv> CHR 0x00"

type_synonym cbuf = "nat \<Rightarrow> char"

record sink =
  s_buf :: "cbuf option"
  s_size :: u64
  s_len :: u64

definition sink_putc :: "char \<Rightarrow> sink \<Rightarrow> sink" where
  "sink_putc c s =
     (let s = (case s_buf s of
                 Some b \<Rightarrow> if s_len s + 1 < s_size s then s\<lparr>s_buf := Some (b(unat (s_len s) := c))\<rparr> else s
               | None \<Rightarrow> s)
      in s\<lparr>s_len := s_len s + 1\<rparr>)"

definition sink_puts :: "string \<Rightarrow> sink \<Rightarrow> sink" where
  "sink_puts str s = fold sink_putc str s"

subsection \<open>Numbers\<close>

definition digit_chars :: "bool \<Rightarrow> string" where
  "digit_chars upper = (if upper then ''0123456789ABCDEF'' else ''0123456789abcdef'')"

text \<open>The digit loop: \<open>tmp\<close> holds the digits produced so far, the least significant first.\<close>

function fmt_digits :: "u64 \<Rightarrow> u64 \<Rightarrow> bool \<Rightarrow> string \<Rightarrow> string" where
  "fmt_digits v base upper tmp =
     (let tmp = tmp @ [digit_chars upper ! unat (v mod base)]; v = v div base in
      if v \<noteq> 0 \<and> length tmp < 32 then fmt_digits v base upper tmp else tmp)"
  by pat_completeness auto
termination by (relation "measure (\<lambda>(v, base, upper, tmp). 32 - length tmp)") auto

declare fmt_digits.simps [simp del]

primrec fmt_out :: "nat \<Rightarrow> string \<Rightarrow> nat \<Rightarrow> nat \<Rightarrow> cbuf \<Rightarrow> nat \<times> cbuf" where
  "fmt_out 0 tmp size1 out buf = (out, buf)"
| "fmt_out (Suc n) tmp size1 out buf =
     (if out + 1 < size1 then fmt_out n tmp size1 (Suc out) (buf(out := tmp ! n)) else (out, buf))"

definition kfmt_u64 :: "cbuf \<Rightarrow> nat \<Rightarrow> u64 \<Rightarrow> u32 \<Rightarrow> bool \<Rightarrow> nat \<times> cbuf" where
  "kfmt_u64 buf size1 v base0 upper =
     (let base = (if base0 < 2 \<or> base0 > 16 then 10 else base0);
          tmp = fmt_digits v (ucast base) upper [];
          (out, buf) = fmt_out (length tmp) tmp size1 0 buf
      in (out, if size1 > 0 then buf(out := NUL) else buf))"

definition kfmt_hex64 :: "cbuf \<Rightarrow> nat \<Rightarrow> u64 \<Rightarrow> cbuf" where
  "kfmt_hex64 buf size1 v =
     (if size1 < 3 then (if size1 \<noteq> 0 then buf(0 := NUL) else buf)
      else
        (let buf = buf(0 := CHR ''0'', 1 := CHR ''x'');
             buf = fold (\<lambda>i b. b(2 + i := ''0123456789ABCDEF'' ! unat (drop_bit ((15 - i) * 4) v AND 0xF)))
                     [0..<min 16 (size1 - 2)] buf;
             end1 = (if 18 < size1 then 18 else size1 - 1)
         in buf(end1 := NUL)))"

definition emit_number ::
  "u64 \<Rightarrow> bool \<Rightarrow> u32 \<Rightarrow> bool \<Rightarrow> nat \<Rightarrow> bool \<Rightarrow> bool \<Rightarrow> bool \<Rightarrow> bool \<Rightarrow> sink \<Rightarrow> sink" where
  "emit_number value1 negative base upper width zero_pad left_align plus1 space s =
     (let (dn, digits) = kfmt_u64 (\<lambda>_. NUL) 32 value1 base upper;
          sign = (if negative then ''-'' else if plus1 then ''+'' else if space then '' '' else []);
          total = dn + length sign;
          pad = (if width > total then width - total else 0);
          s = (if \<not> left_align \<and> \<not> zero_pad then fold (\<lambda>i. sink_putc (CHR '' '')) [0..<pad] s else s);
          s = sink_puts sign s;
          s = (if \<not> left_align \<and> zero_pad then fold (\<lambda>i. sink_putc (CHR ''0'')) [0..<pad] s else s);
          s = sink_puts (map digits [0..<dn]) s
      in if left_align then fold (\<lambda>i. sink_putc (CHR '' '')) [0..<pad] s else s)"

subsection \<open>The format interpreter\<close>

datatype vararg = VNum u64 | VStr "string option"

record fmt_flags =
  fl_left :: bool
  fl_zero :: bool
  fl_plus :: bool
  fl_space :: bool

fun parse_flags :: "string \<Rightarrow> fmt_flags \<Rightarrow> fmt_flags \<times> string" where
  "parse_flags [] f = (f, [])"
| "parse_flags (c # p) f =
     (if c = CHR ''-'' then parse_flags p (f\<lparr>fl_left := True\<rparr>)
      else if c = CHR ''0'' then parse_flags p (f\<lparr>fl_zero := True\<rparr>)
      else if c = CHR ''+'' then parse_flags p (f\<lparr>fl_plus := True\<rparr>)
      else if c = CHR '' '' then parse_flags p (f\<lparr>fl_space := True\<rparr>)
      else (f, c # p))"

definition is_digit :: "char \<Rightarrow> bool" where
  "is_digit c \<longleftrightarrow> of_char c \<ge> (48 :: nat) \<and> of_char c \<le> (57 :: nat)"

fun parse_width :: "string \<Rightarrow> nat \<Rightarrow> nat \<times> string" where
  "parse_width [] w = (w, [])"
| "parse_width (c # p) w = (if is_digit c then parse_width p (w * 10 + (of_char c - 48)) else (w, c # p))"

fun parse_long :: "string \<Rightarrow> nat \<Rightarrow> nat \<times> string" where
  "parse_long [] n = (n, [])"
| "parse_long (c # p) n =
     (if c = CHR ''l'' then parse_long p (Suc n) else if c = CHR ''z'' then (3, p) else (n, c # p))"

text \<open>The numeric argument as the conversion reads it: an \<open>int\<close> is 32 bits wide, the others 64.\<close>

definition signed_arg :: "nat \<Rightarrow> u64 \<Rightarrow> bool \<times> u64" where
  "signed_arg longness w =
     (let v = (if longness \<ge> 1 then w else signed_take_bit 31 w);
          neg = bit v 63
      in (neg, if neg then (- (v + 1)) + 1 else v))"

definition unsigned_arg :: "nat \<Rightarrow> u64 \<Rightarrow> u64" where
  "unsigned_arg longness w = (if longness \<ge> 1 then w else take_bit 32 w)"

definition pad_text :: "nat \<Rightarrow> bool \<Rightarrow> string \<Rightarrow> sink \<Rightarrow> sink" where
  "pad_text width left str s =
     (let pad = (if width > length str then width - length str else 0);
          s = (if \<not> left then fold (\<lambda>i. sink_putc (CHR '' '')) [0..<pad] s else s);
          s = sink_puts str s
      in if left then fold (\<lambda>i. sink_putc (CHR '' '')) [0..<pad] s else s)"

definition convert :: "char \<Rightarrow> fmt_flags \<Rightarrow> nat \<Rightarrow> nat \<Rightarrow> vararg list \<Rightarrow> sink \<Rightarrow> (vararg list \<times> sink) option" where
  "convert c f width longness ap s =
     (if c = CHR ''d'' \<or> c = CHR ''i''
      then (case ap of VNum w # ap \<Rightarrow>
              (let (neg, mag) = signed_arg longness w in
               Some (ap, emit_number mag neg 10 False width (fl_zero f) (fl_left f) (fl_plus f) (fl_space f) s))
            | _ \<Rightarrow> None)
      else if c = CHR ''u''
      then (case ap of VNum w # ap \<Rightarrow>
              Some (ap, emit_number (unsigned_arg longness w) False 10 False width (fl_zero f) (fl_left f) False False s)
            | _ \<Rightarrow> None)
      else if c = CHR ''x'' \<or> c = CHR ''X''
      then (case ap of VNum w # ap \<Rightarrow>
              Some (ap, emit_number (unsigned_arg longness w) False 16 (c = CHR ''X'') width (fl_zero f) (fl_left f) False False s)
            | _ \<Rightarrow> None)
      else if c = CHR ''p''
      then (case ap of VNum w # ap \<Rightarrow>
              Some (ap, emit_number w False 16 False width (fl_zero f) (fl_left f) False False (sink_puts ''0x'' s))
            | _ \<Rightarrow> None)
      else if c = CHR ''c''
      then (case ap of VNum w # ap \<Rightarrow> Some (ap, pad_text width (fl_left f) [char_of (unat (take_bit 8 w))] s) | _ \<Rightarrow> None)
      else if c = CHR ''s''
      then (case ap of VStr str # ap \<Rightarrow>
              Some (ap, pad_text width (fl_left f) (case str of None \<Rightarrow> ''(null)'' | Some t \<Rightarrow> t) s)
            | _ \<Rightarrow> None)
      else if c = CHR ''%'' then Some (ap, sink_putc (CHR ''%'') s)
      else Some (ap, sink_putc c (sink_putc (CHR ''%'') s)))"

lemma parse_length:
  "length (snd (parse_flags p f)) \<le> length p" "length (snd (parse_width p w)) \<le> length p"
  "length (snd (parse_long p n)) \<le> length p"
  by (induction p arbitrary: f w n) (auto intro: le_SucI)

function kv_loop :: "string \<Rightarrow> vararg list \<Rightarrow> sink \<Rightarrow> sink option" where
  "kv_loop p ap s =
     (case p of
        [] \<Rightarrow> Some s
      | c # p \<Rightarrow>
          if c \<noteq> CHR ''%'' then kv_loop p ap (sink_putc c s)
          else if p = [] then Some s
          else
            (let (f, p1) = parse_flags p \<lparr>fl_left = False, fl_zero = False, fl_plus = False, fl_space = False\<rparr>;
                 (width, p2) = parse_width p1 0;
                 (longness, p3) = parse_long p2 0
             in case p3 of
                  [] \<Rightarrow> None
                | d # p4 \<Rightarrow>
                    (case convert d f width longness ap s of
                       None \<Rightarrow> None
                     | Some (ap, s) \<Rightarrow> kv_loop p4 ap s)))"
  by pat_completeness auto
termination
proof (relation "measure (\<lambda>(p, ap, s). length p)", goal_cases)
  case (3 p ap s c q z f p1 z' width p2 z'' longness p3 d p4 a ap1 s1)
  have "snd (parse_flags q \<lparr>fl_left = False, fl_zero = False, fl_plus = False, fl_space = False\<rparr>) = p1"
    "snd (parse_width p1 0) = p2" "snd (parse_long p2 0) = d # p4" using 3 by (metis snd_conv)+
  then have "length (d # p4) \<le> length q"
    using parse_length(1) [of q "\<lparr>fl_left = False, fl_zero = False, fl_plus = False, fl_space = False\<rparr>"]
      parse_length(2) [of p1 0] parse_length(3) [of p2 0] by simp
  then show ?case using 3 by simp
qed auto

declare kv_loop.simps [simp del]

definition kvsnprintf :: "cbuf option \<Rightarrow> u64 \<Rightarrow> string \<Rightarrow> vararg list \<Rightarrow> (int \<times> cbuf option) option" where
  "kvsnprintf buf size1 fmt ap =
     map_option
       (\<lambda>s. (sint (ucast (s_len s) :: u32),
          if s_size s > 0
          then map_option (\<lambda>b. b(unat (if s_len s < s_size s then s_len s else s_size s - 1) := NUL)) (s_buf s)
          else s_buf s))
       (kv_loop fmt ap \<lparr>s_buf = buf, s_size = size1, s_len = 0\<rparr>)"

definition ksnprintf :: "cbuf option \<Rightarrow> u64 \<Rightarrow> string \<Rightarrow> vararg list \<Rightarrow> (int \<times> cbuf option) option" where
  "ksnprintf buf size1 fmt ap = kvsnprintf buf size1 fmt ap"


subsection \<open>The text a sink receives\<close>

text \<open>Every function above only appends to its sink: what it appends does not depend on the sink.\<close>

lemma fold_putc_replicate: "fold (\<lambda>i. sink_putc c) [0..<n] s = fold sink_putc (replicate n c) s"
  by (induction n arbitrary: s) (simp_all add: replicate_append_same [symmetric] del: replicate_Suc)

lemma emit_number_text: "\<exists>t. \<forall>s. emit_number v ng b u w z l pl sp s = fold sink_putc t s"
proof -
  obtain dn digits where k: "kfmt_u64 (\<lambda>_. NUL) 32 v b u = (dn, digits)" by (cases "kfmt_u64 (\<lambda>_. NUL) 32 v b u") auto
  define sign where "sign = (if ng then ''-'' else if pl then ''+'' else if sp then '' '' else [])"
  define pad where "pad = (if w > dn + length sign then w - (dn + length sign) else 0)"
  have "emit_number v ng b u w z l pl sp s = fold sink_putc ((if \<not> l \<and> \<not> z then replicate pad (CHR '' '') else []) @ sign
      @ (if \<not> l \<and> z then replicate pad (CHR ''0'') else []) @ map digits [0..<dn]
      @ (if l then replicate pad (CHR '' '') else [])) s" for s
    unfolding emit_number_def Let_def k prod.case sign_def [symmetric] pad_def [symmetric] fold_putc_replicate
    by (simp add: sink_puts_def)
  then show ?thesis by blast
qed

lemma pad_text_text: "\<exists>t. \<forall>s. pad_text w l str s = fold sink_putc t s"
proof -
  have "pad_text w l str s = fold sink_putc ((if \<not> l then replicate (w - length str) (CHR '' '') else []) @ str
      @ (if l then replicate (w - length str) (CHR '' '') else [])) s" for s
    by (simp add: pad_text_def Let_def fold_putc_replicate sink_puts_def)
  then show ?thesis by blast
qed

lemma text_after:
  assumes "\<exists>t. \<forall>s. g s = fold sink_putc t s"
  shows "\<exists>t. \<forall>s. g (fold sink_putc u s) = fold sink_putc t s"
proof -
  obtain t where "\<forall>s. g s = fold sink_putc t s" using assms by blast
  then have "\<forall>s. g (fold sink_putc u s) = fold sink_putc (u @ t) s" by simp
  then show ?thesis by blast
qed

text \<open>A conversion is either undefined for every sink or appends the same text to every sink.\<close>

definition uniform :: "(sink \<Rightarrow> (vararg list \<times> sink) option) \<Rightarrow> bool" where
  "uniform g \<longleftrightarrow> (\<forall>s. g s = None) \<or> (\<exists>ap t. \<forall>s. g s = Some (ap, fold sink_putc t s))"

lemma uniform_None: "uniform (\<lambda>s. None)"
  by (simp add: uniform_def)

lemma uniform_Some: "\<exists>t. \<forall>s. g s = fold sink_putc t s \<Longrightarrow> uniform (\<lambda>s. Some (ap, g s))"
  by (auto simp: uniform_def)

lemma uniform_if: "uniform f \<Longrightarrow> uniform g \<Longrightarrow> uniform (\<lambda>s. if P then f s else g s)"
  by (cases P) simp_all

lemma uniform_num:
  "(\<And>w ap. uniform (\<lambda>s. f w ap s)) \<Longrightarrow> uniform (\<lambda>s. case args of VNum w # ap \<Rightarrow> f w ap s | _ \<Rightarrow> None)"
  by (cases args; cases "hd args") (auto simp: uniform_None)

lemma uniform_str:
  "(\<And>w ap. uniform (\<lambda>s. f w ap s)) \<Longrightarrow> uniform (\<lambda>s. case args of VStr w # ap \<Rightarrow> f w ap s | _ \<Rightarrow> None)"
  by (cases args; cases "hd args") (auto simp: uniform_None)

lemma uniform_pair: "(\<And>a b. uniform (\<lambda>s. f a b s)) \<Longrightarrow> uniform (\<lambda>s. case q of (a, b) \<Rightarrow> f a b s)"
  by (cases q) simp

lemma convert_uniform: "uniform (convert c f w l ap)"
proof -
  have lit: "\<exists>t. \<forall>s. sink_putc a s = fold sink_putc t s" "\<exists>t. \<forall>s. sink_putc a (sink_putc b s) = fold sink_putc t s" for a b
  proof -
    have "\<forall>s. sink_putc a s = fold sink_putc [a] s" by simp
    then show "\<exists>t. \<forall>s. sink_putc a s = fold sink_putc t s" by blast
    have "\<forall>s. sink_putc a (sink_putc b s) = fold sink_putc [b, a] s" by simp
    then show "\<exists>t. \<forall>s. sink_putc a (sink_putc b s) = fold sink_putc t s" by blast
  qed
  have px: "\<exists>t. \<forall>s. emit_number v ng b u w z l1 pl sp (sink_puts x s) = fold sink_putc t s" for v ng b u z l1 pl sp x
    unfolding sink_puts_def by (rule text_after [OF emit_number_text])
  show ?thesis
    unfolding convert_def Let_def
    by (intro uniform_if uniform_num uniform_str uniform_pair uniform_Some emit_number_text pad_text_text lit px)
qed


lemma kv_loop_Nil: "kv_loop [] ap s = Some s"
  by (subst kv_loop.simps) simp

lemma kv_loop_plain: "c \<noteq> CHR ''%'' \<Longrightarrow> kv_loop (c # q) ap s = kv_loop q ap (sink_putc c s)"
  by (subst kv_loop.simps) simp

lemma kv_loop_last: "kv_loop [CHR ''%''] ap s = Some s"
  by (subst kv_loop.simps) simp

lemma kv_loop_conv:
  assumes "q \<noteq> []" and "parse_flags q \<lparr>fl_left = False, fl_zero = False, fl_plus = False, fl_space = False\<rparr> = (f, p1)"
    and "parse_width p1 0 = (w, p2)" and "parse_long p2 0 = (l, p3)"
  shows "kv_loop (CHR ''%'' # q) ap s = (case p3 of [] \<Rightarrow> None | d # p4 \<Rightarrow> (case convert d f w l ap s of
          None \<Rightarrow> None | Some (ap, s) \<Rightarrow> kv_loop p4 ap s))"
  using assms by (subst kv_loop.simps) simp

lemma kv_loop_text: "(\<forall>s. kv_loop p ap s = None) \<or> (\<exists>t. \<forall>s. kv_loop p ap s = Some (fold sink_putc t s))"
proof (induction "length p" arbitrary: p ap rule: less_induct)
  case less
  show ?case
  proof (cases p)
    case Nil
    then have "\<forall>s. kv_loop p ap s = Some (fold sink_putc [] s)" by (simp add: kv_loop_Nil)
    then show ?thesis by blast
  next
    case p: (Cons c q)
    consider "c \<noteq> CHR ''%''" | "c = CHR ''%''" "q = []" | "c = CHR ''%''" "q \<noteq> []" by blast
    then show ?thesis
    proof cases
      case 1
      have st: "kv_loop p ap s = kv_loop q ap (sink_putc c s)" for s using p 1 by (simp add: kv_loop_plain)
      have "length q < length p" using p by simp
      from less [OF this, of ap] show ?thesis
      proof
        assume "\<exists>t. \<forall>s. kv_loop q ap s = Some (fold sink_putc t s)"
        then obtain t where "\<forall>s. kv_loop q ap s = Some (fold sink_putc t s)" by blast
        then have "\<forall>s. kv_loop p ap s = Some (fold sink_putc (c # t) s)" by (simp add: st)
        then show ?thesis by blast
      qed (simp add: st)
    next
      case 2
      then have "\<forall>s. kv_loop p ap s = Some (fold sink_putc [] s)" using p by (simp add: kv_loop_last)
      then show ?thesis by blast
    next
      case 3
      define f0 where "f0 = \<lparr>fl_left = False, fl_zero = False, fl_plus = False, fl_space = False\<rparr>"
      obtain f p1 where f: "parse_flags q f0 = (f, p1)" by (cases "parse_flags q f0") auto
      obtain w p2 where w: "parse_width p1 0 = (w, p2)" by (cases "parse_width p1 0") auto
      obtain l p3 where l: "parse_long p2 0 = (l, p3)" by (cases "parse_long p2 0") auto
      have st: "kv_loop p ap s = (case p3 of [] \<Rightarrow> None | d # p4 \<Rightarrow> (case convert d f w l ap s of
          None \<Rightarrow> None | Some (ap, s) \<Rightarrow> kv_loop p4 ap s))" for s
        unfolding p 3(1) by (rule kv_loop_conv [OF 3(2) f [unfolded f0_def] w l])
      show ?thesis
      proof (cases p3)
        case Nil
        then show ?thesis by (simp add: st)
      next
        case (Cons d p4)
        have "length p4 < length p"
          using parse_length(1) [of q f0] parse_length(2) [of p1 0] parse_length(3) [of p2 0] f w l Cons p by simp
        note ih = less [OF this]
        from convert_uniform [of d f w l ap, unfolded uniform_def] show ?thesis
        proof
          assume "\<exists>ap' t. \<forall>s. convert d f w l ap s = Some (ap', fold sink_putc t s)"
          then obtain ap' t where c: "\<forall>s. convert d f w l ap s = Some (ap', fold sink_putc t s)" by blast
          have eq: "kv_loop p ap s = kv_loop p4 ap' (fold sink_putc t s)" for s using st Cons c by simp
          from ih [of ap'] show ?thesis
          proof
            assume "\<exists>u. \<forall>s. kv_loop p4 ap' s = Some (fold sink_putc u s)"
            then obtain u where "\<forall>s. kv_loop p4 ap' s = Some (fold sink_putc u s)" by blast
            then have "\<forall>s. kv_loop p ap s = Some (fold sink_putc (t @ u) s)" by (simp add: eq)
            then show ?thesis by blast
          qed (simp add: eq)
        qed (simp add: st Cons)
      qed
    qed
  qed
qed

lemma sint_small: "n < 2 ^ 31 \<Longrightarrow> sint (ucast (of_nat n :: u64) :: u32) = int n"
proof -
  assume n: "n < 2 ^ 31"
  have u: "uint (ucast (of_nat n :: u64) :: u32) = int n"
    using n by (simp add: unsigned_ucast_eq take_bit_int_eq_self unsigned_of_nat take_bit_nat_eq_self)
  have nb: "\<not> bit (int n) 31" using n by (simp add: bit_iff_odd)
  show ?thesis using n u nb unfolding sint_uint u by (simp add: signed_take_bit_eq_if_positive take_bit_int_eq_self)
qed

lemma sink_fold:
  assumes "length t < 2 ^ 63"
  shows "fold sink_putc t \<lparr>s_buf = Some b, s_size = n, s_len = 0\<rparr>
     = \<lparr>s_buf = Some (\<lambda>i. if i < length t \<and> i + 1 < unat n then t ! i else b i), s_size = n, s_len = of_nat (length t)\<rparr>"
  using assms
proof (induction t rule: rev_induct)
  case Nil
  then show ?case by simp
next
  case (snoc c t)
  have l: "unat (of_nat (length t) :: u64) = length t" using snoc.prems by simp
  have l1: "unat (of_nat (length t) + 1 :: u64) = length t + 1"
    using snoc.prems unat_plus_no_wrap [of "of_nat (length t) :: u64" 1] l by simp
  have g: "(of_nat (length t) + 1 < n) = (length t + 1 < unat n)" by (simp add: word_less_unat l1)
  have "(\<lambda>i. if i < length t \<and> i + 1 < unat n then t ! i else b i)(length t := c)
      = (\<lambda>i. if i < length (t @ [c]) \<and> i + 1 < unat n then (t @ [c]) ! i else b i)" if "length t + 1 < unat n"
    using that by (auto simp: fun_eq_iff nth_append)
  moreover have "(\<lambda>i. if i < length t \<and> i + 1 < unat n then t ! i else b i)
      = (\<lambda>i. if i < length (t @ [c]) \<and> i + 1 < unat n then (t @ [c]) ! i else b i)" if "\<not> length t + 1 < unat n"
    using that by (auto simp: fun_eq_iff nth_append)
  ultimately show ?case
    using snoc by (simp add: sink_putc_def g l)
qed


subsection \<open>Digits\<close>

text \<open>Reading a number back: the position of a digit and the value of a digit string.\<close>

definition digit_val :: "bool \<Rightarrow> char \<Rightarrow> nat" where
  "digit_val upper c = length (takeWhile (\<lambda>x. x \<noteq> c) (digit_chars upper))"

definition parse_num :: "nat \<Rightarrow> bool \<Rightarrow> string \<Rightarrow> nat" where
  "parse_num base upper ds = foldl (\<lambda>a c. a * base + digit_val upper c) 0 ds"

lemma digit_chars_props: "length (digit_chars upper) = 16" "distinct (digit_chars upper)"
  by (cases upper; simp add: digit_chars_def)+

lemma digit_val_nth: "k < 16 \<Longrightarrow> digit_val upper (digit_chars upper ! k) = k"
proof -
  assume k: "k < 16"
  have "takeWhile (\<lambda>x. x \<noteq> digit_chars upper ! k) (digit_chars upper) = take k (digit_chars upper)"
    using k digit_chars_props by (intro takeWhile_eq_take_P_nth) (auto simp: nth_eq_iff_index_eq)
  then show ?thesis using k digit_chars_props(1) by (simp add: digit_val_def)
qed

lemma digit_zero: "k < 16 \<Longrightarrow> digit_chars upper ! k = CHR ''0'' \<longleftrightarrow> k = 0"
proof -
  assume k: "k < 16"
  have "digit_chars upper ! 0 = CHR ''0''" by (simp add: digit_chars_def)
  then show ?thesis using k digit_chars_props [of upper] by (metis nth_eq_iff_index_eq zero_less_numeral)
qed

lemma fmt_digits_value:
  assumes "1 < unat base" and "unat base \<le> 16" and "length tmp < 32" and "unat v < unat base ^ (32 - length tmp)"
  shows "\<exists>ds. fmt_digits v base upper tmp = tmp @ ds \<and> ds \<noteq> [] \<and> length ds \<le> 32 - length tmp
     \<and> foldr (\<lambda>c a. a * unat base + digit_val upper c) ds 0 = unat v
     \<and> (last ds = CHR ''0'' \<longrightarrow> v = 0 \<and> length ds = 1)"
  using assms(3,4)
proof (induction "32 - length tmp" arbitrary: tmp v)
  case 0
  then show ?case by simp
next
  case (Suc k)
  define c where "c = digit_chars upper ! unat (v mod base)"
  have vm: "unat (v mod base) = unat v mod unat base" "unat (v div base) = unat v div unat base"
    by (simp_all add: unat_mod unat_div)
  have lt: "unat (v mod base) < 16" using assms(1,2) vm by (metis less_le_trans mod_less_divisor less_trans zero_less_one)
  have cv: "digit_val upper c = unat v mod unat base" using digit_val_nth [OF lt] vm by (simp add: c_def)
  show ?case
  proof (cases "v div base \<noteq> 0 \<and> length (tmp @ [c]) < 32")
    case True
    then have st: "fmt_digits v base upper tmp = fmt_digits (v div base) base upper (tmp @ [c])"
      by (simp add: fmt_digits.simps [of v base upper tmp] c_def Let_def)
    have k: "k = 32 - length (tmp @ [c])" using Suc.hyps(2) by simp
    have "32 - length tmp = Suc (32 - length (tmp @ [c]))" using Suc.prems(1) unfolding length_append by (simp add: Suc_diff_le)
    then have "unat v < unat base ^ (32 - length (tmp @ [c])) * unat base" using Suc.prems(2) by (simp add: mult.commute)
    then have "unat (v div base) < unat base ^ (32 - length (tmp @ [c]))"
      unfolding vm using assms(1) by (simp add: div_less_iff_less_mult)
    from Suc.hyps(1) [OF k _ this] True obtain ds where d: "fmt_digits (v div base) base upper (tmp @ [c]) = (tmp @ [c]) @ ds"
      "ds \<noteq> []" "length ds \<le> 32 - length (tmp @ [c])" "foldr (\<lambda>c a. a * unat base + digit_val upper c) ds 0 = unat (v div base)"
      "last ds = CHR ''0'' \<longrightarrow> v div base = 0 \<and> length ds = 1" by blast
    have "foldr (\<lambda>c a. a * unat base + digit_val upper c) (c # ds) 0 = unat v"
      using d(4) cv vm(2) by simp
    moreover have "length (c # ds) \<le> 32 - length tmp"
    proof -
      have "length tmp < 31" "length ds \<le> 31 - length tmp" using True d(3) by simp_all
      then show ?thesis by simp
    qed
    ultimately show ?thesis using st d(1,2,5) True by (intro exI [of _ "c # ds"]) simp
  next
    case False
    then have st: "fmt_digits v base upper tmp = tmp @ [c]"
      by (auto simp: fmt_digits.simps [of v base upper tmp] c_def Let_def)
    have "unat v < unat base"
    proof (cases "v div base = 0")
      case True
      then have "unat v div unat base = 0" using vm by simp
      then show ?thesis using assms(1) by (auto simp: div_eq_0_iff)
    next
      case d: False
      then have "32 - length tmp = 1" using False Suc.prems(1) by simp
      then show ?thesis using Suc.prems(2) by simp
    qed
    then have "unat v mod unat base = unat v" by simp
    then show ?thesis
      using st cv lt vm digit_zero [OF lt, of upper] Suc.prems(1)
      by (intro exI [of _ "[c]"]) (auto simp: c_def unat_eq_zero)
  qed
qed

lemma fmt_out_all:
  "out + n < size1 \<Longrightarrow> n \<le> length tmp \<Longrightarrow>
     fmt_out n tmp size1 out buf = (out + n, \<lambda>i. if out \<le> i \<and> i < out + n then tmp ! (n - 1 - (i - out)) else buf i)"
proof (induction n arbitrary: out buf)
  case 0
  then show ?case by (auto simp: fun_eq_iff)
next
  case (Suc n)
  have "(\<lambda>i. if Suc out \<le> i \<and> i < Suc out + n then tmp ! (n - 1 - (i - Suc out)) else (buf(out := tmp ! n)) i)
      = (\<lambda>i. if out \<le> i \<and> i < out + Suc n then tmp ! (Suc n - 1 - (i - out)) else buf i)"
  proof (rule ext)
    fix i
    have "n - 1 - (i - Suc out) = n - (i - out)" if "Suc out \<le> i" using that by simp
    then show "(if Suc out \<le> i \<and> i < Suc out + n then tmp ! (n - 1 - (i - Suc out)) else (buf(out := tmp ! n)) i)
      = (if out \<le> i \<and> i < out + Suc n then tmp ! (Suc n - 1 - (i - out)) else buf i)" by auto
  qed
  then show ?case using Suc by simp
qed


lemma kfmt_u64_digits:
  assumes "2 \<le> base" and "base \<le> 16" and "unat v < unat base ^ 32" and "32 < size1"
  shows "\<exists>out b. kfmt_u64 buf size1 v base upper = (out, b) \<and> 0 < out \<and> out \<le> 32 \<and> b out = NUL
     \<and> parse_num (unat base) upper (map b [0..<out]) = unat v \<and> (b 0 = CHR ''0'' \<longrightarrow> v = 0 \<and> out = 1)"
proof -
  have ub: "unat (ucast base :: u64) = unat base"
    using assms(2) unat_lt_pow [of base] by (simp add: unsigned_ucast_eq take_bit_nat_eq_self)
  have b2: "1 < unat (ucast base :: u64)" "unat (ucast base :: u64) \<le> 16" using assms(1,2) by (simp_all add: ub word_le_unat)
  obtain ds where d: "fmt_digits v (ucast base) upper [] = ds" "ds \<noteq> []" "length ds \<le> 32"
    "foldr (\<lambda>c a. a * unat base + digit_val upper c) ds 0 = unat v" "last ds = CHR ''0'' \<longrightarrow> v = 0 \<and> length ds = 1"
    using fmt_digits_value [OF b2, of "[]" v upper] assms(3) by (auto simp: ub)
  define b where "b = (\<lambda>i. if i < length ds then ds ! (length ds - 1 - i) else buf i)"
  have fo: "fmt_out (length ds) ds size1 0 buf = (length ds, b)"
    using fmt_out_all [of 0 "length ds" size1 ds buf] d(3) assms(4) by (simp add: b_def cong: if_cong)
  have k: "kfmt_u64 buf size1 v base upper = (length ds, b(length ds := NUL))"
    using assms d(1) fo by (auto simp: kfmt_u64_def Let_def not_less [symmetric])
  have str1: "map (b(length ds := NUL)) [0..<length ds] = rev ds"
    by (rule nth_equalityI) (auto simp: b_def rev_nth)
  have "parse_num (unat base) upper (rev ds) = unat v" using d(4) by (simp add: parse_num_def foldl_conv_foldr)
  moreover have "(b(length ds := NUL)) 0 = last ds" using d(2) by (simp add: b_def last_conv_nth)
  ultimately show ?thesis
    using k d(2,3,5) str1 by (intro exI [of _ "length ds"] exI [of _ "b(length ds := NUL)"]) simp
qed

text \<open>The text that a format with its arguments appends to a sink.\<close>

definition prints :: "string \<Rightarrow> vararg list \<Rightarrow> string \<Rightarrow> bool" where
  "prints fmt ap text1 \<longleftrightarrow> (\<forall>s. kv_loop fmt ap s = Some (fold sink_putc text1 s))"

subsection \<open>Properties\<close>

text \<open>
  C31. Printing a number and reading it back gives the number: for every base from 2 to 16 and
  every value of at most 32 digits, the string is zero terminated, has no superfluous leading
  zero, and its value is the number printed.
\<close>

theorem kfmt_u64_roundtrip:
  assumes "2 \<le> base" and "base \<le> 16" and "unat v < unat base ^ 32" and "32 < size1"
  shows "case kfmt_u64 buf size1 v base upper of (out, b) \<Rightarrow>
     parse_num (unat base) upper (map b [0..<out]) = unat v \<and> b out = NUL \<and> 0 < out \<and> out \<le> 32
     \<and> (b 0 = CHR ''0'' \<longrightarrow> v = 0 \<and> out = 1)"
  using kfmt_u64_digits [OF assms, of buf upper] by (elim exE conjE) simp

theorem kfmt_u64_roundtrip_witness:
  "case kfmt_u64 (\<lambda>_. NUL) 33 1234567 10 False of (out, b) \<Rightarrow> parse_num 10 False (map b [0..<out]) = 1234567 \<and> b out = NUL"
proof -
  have h: "(2 :: u32) \<le> 10" "(10 :: u32) \<le> 16" "unat (1234567 :: u64) < unat (10 :: u32) ^ 32" "(32 :: nat) < 33" by simp_all
  show ?thesis using kfmt_u64_roundtrip [where buf = "\<lambda>_. NUL" and upper = False, OF h] by (simp add: split_beta)
qed

text \<open>
  C32. A formatted print never writes past its buffer: a format with its arguments is either
  undefined for every buffer, or there is one text such that for every buffer size the call
  returns the length of the text, stores the longest prefix of it that fits, terminates it, and
  leaves the rest of the buffer as it was.
\<close>

theorem kvsnprintf_bounded:
  "((\<forall>buf size1. kvsnprintf buf size1 fmt ap = None) \<or> (\<exists>t. prints fmt ap t)) \<and>
   (\<forall>t buf size1. prints fmt ap t \<and> length t < 2 ^ 31 \<and> 0 < size1 \<longrightarrow>
      (\<exists>b. kvsnprintf (Some buf) size1 fmt ap = Some (int (length t), Some b)
         \<and> (\<forall>i. b i = (if i < min (length t) (unat size1 - 1) then t ! i
                     else if i = min (length t) (unat size1 - 1) then NUL else buf i))))"
proof (intro conjI allI impI)
  show "(\<forall>buf size1. kvsnprintf buf size1 fmt ap = None) \<or> (\<exists>t. prints fmt ap t)"
    using kv_loop_text [of fmt ap] by (auto simp: kvsnprintf_def prints_def)
  fix t buf n
  assume h: "prints fmt ap t \<and> length t < 2 ^ 31 \<and> 0 < (n :: u64)"
  then have l: "unat (of_nat (length t) :: u64) = length t" by simp
  have n1: "0 < unat n" using h by (simp add: word_less_unat)
  then have nz: "n \<noteq> 0" by force
  have "unat (if of_nat (length t) < n then of_nat (length t) else n - 1) = min (length t) (unat n - 1)"
    using n1 unat_dec [OF nz] by (auto simp: word_less_unat l)
  then show "\<exists>b. kvsnprintf (Some buf) n fmt ap = Some (int (length t), Some b)
      \<and> (\<forall>i. b i = (if i < min (length t) (unat n - 1) then t ! i else if i = min (length t) (unat n - 1) then NUL else buf i))"
    using h n1 by (auto simp: kvsnprintf_def prints_def sink_fold sint_small)
qed

theorem kvsnprintf_bounded_witness:
  "\<exists>b. kvsnprintf (Some (\<lambda>_. CHR ''?'')) 3 ''id%%'' [] = Some (3, Some b) \<and> b 0 = CHR ''i'' \<and> b 1 = CHR ''d'' \<and> b 2 = NUL \<and> b 3 = CHR ''?''"
proof -
  have "kv_loop ''id%%'' [] s = Some (fold sink_putc ''id%'' s)" for s
    by (simp add: kv_loop_plain kv_loop_conv [of "''%''"] kv_loop_Nil is_digit_def convert_def)
  then have p: "prints ''id%%'' [] ''id%''" by (simp add: prints_def)
  show ?thesis
    using kvsnprintf_bounded [THEN conjunct2, rule_format, of "''id%%''" "[]" "''id%''" 3 "\<lambda>_. CHR ''?''"] p by auto
qed

end
