(* ===== verification/Strbuf.thy ===== *)
theory Strbuf
  imports Fmt
begin

text \<open>
  \<open>kernel/lib/strbuf.c\<close>: the bounded string builder, over the number and format printers.
\<close>

record strbuf =
  sb_buf :: cbuf
  sb_cap :: u64
  sb_len :: u64
  sb_truncated :: bool

definition strbuf_init :: "cbuf \<Rightarrow> u64 \<Rightarrow> strbuf" where
  "strbuf_init buf cap = \<lparr>sb_buf = (if cap > 0 then buf(0 := NUL) else buf), sb_cap = cap, sb_len = 0, sb_truncated = False\<rparr>"

definition strbuf_reset :: "strbuf \<Rightarrow> strbuf" where
  "strbuf_reset sb = sb\<lparr>sb_len := 0, sb_truncated := False,
     sb_buf := (if sb_cap sb > 0 then (sb_buf sb)(0 := NUL) else sb_buf sb)\<rparr>"

definition strbuf_putc :: "char \<Rightarrow> strbuf \<Rightarrow> strbuf" where
  "strbuf_putc c sb =
     (if sb_len sb + 1 < sb_cap sb
      then sb\<lparr>sb_buf := (sb_buf sb)(unat (sb_len sb) := c, unat (sb_len sb + 1) := NUL), sb_len := sb_len sb + 1\<rparr>
      else sb\<lparr>sb_truncated := True\<rparr>)"

text \<open>The characters \<open>s[0..n)\<close> as a list; the early return leaves the buffer without a terminator.\<close>

fun strbuf_putn :: "string \<Rightarrow> strbuf \<Rightarrow> strbuf" where
  "strbuf_putn [] sb = (if sb_cap sb > 0 then sb\<lparr>sb_buf := (sb_buf sb)(unat (sb_len sb) := NUL)\<rparr> else sb)"
| "strbuf_putn (c # cs) sb =
     (if sb_len sb + 1 \<ge> sb_cap sb then sb\<lparr>sb_truncated := True\<rparr>
      else strbuf_putn cs (sb\<lparr>sb_buf := (sb_buf sb)(unat (sb_len sb) := c), sb_len := sb_len sb + 1\<rparr>))"

definition strbuf_puts :: "string \<Rightarrow> strbuf \<Rightarrow> strbuf" where
  "strbuf_puts s sb = strbuf_putn s sb"

text \<open>The string a character array of the given size holds.\<close>

definition held_string :: "cbuf \<Rightarrow> nat \<Rightarrow> string" where
  "held_string b n = takeWhile (\<lambda>c. c \<noteq> NUL) (map b [0..<n])"

definition strbuf_put_u64 :: "u64 \<Rightarrow> strbuf \<Rightarrow> strbuf" where
  "strbuf_put_u64 v sb = (case kfmt_u64 (\<lambda>_. NUL) 24 v 10 False of (out, tmp) \<Rightarrow> strbuf_puts (held_string tmp 24) sb)"

definition strbuf_put_i64 :: "u64 \<Rightarrow> strbuf \<Rightarrow> strbuf" where
  "strbuf_put_i64 v sb =
     (if v <s 0 then strbuf_put_u64 ((- (v + 1)) + 1) (strbuf_putc (CHR ''-'') sb) else strbuf_put_u64 v sb)"

definition strbuf_put_hex :: "u64 \<Rightarrow> strbuf \<Rightarrow> strbuf" where
  "strbuf_put_hex v sb =
     (case kfmt_u64 (\<lambda>_. NUL) 20 v 16 False of (out, tmp) \<Rightarrow> strbuf_puts (held_string tmp 20) (strbuf_puts ''0x'' sb))"

definition strbuf_printf :: "string \<Rightarrow> vararg list \<Rightarrow> strbuf \<Rightarrow> strbuf option" where
  "strbuf_printf fmt ap sb =
     (case kvsnprintf (Some (\<lambda>_. NUL)) 256 fmt ap of
        Some (n, Some tmp) \<Rightarrow>
          Some (strbuf_puts (held_string tmp 256) (if n \<ge> 256 then sb\<lparr>sb_truncated := True\<rparr> else sb))
      | _ \<Rightarrow> None)"

subsection \<open>What the builder holds\<close>

definition sb_inv :: "strbuf \<Rightarrow> bool" where
  "sb_inv sb \<longleftrightarrow> sb_len sb < sb_cap sb"

definition sb_text :: "strbuf \<Rightarrow> string" where
  "sb_text sb = map (sb_buf sb) [0..<unat (sb_len sb)]"

definition sb_room :: "strbuf \<Rightarrow> nat" where
  "sb_room sb = unat (sb_cap sb) - 1 - unat (sb_len sb)"

lemma sb_succ:
  assumes "sb_inv sb"
  shows "unat (sb_len sb + 1) = Suc (unat (sb_len sb))" "sb_len sb + 1 < sb_cap sb \<longleftrightarrow> 0 < sb_room sb"
proof -
  have "unat (sb_len sb) < unat (sb_cap sb)" using assms by (simp add: sb_inv_def word_less_unat)
  then show s: "unat (sb_len sb + 1) = Suc (unat (sb_len sb))"
    using unat_lt_pow [of "sb_cap sb"] unat_plus_no_wrap [of "sb_len sb" 1] by simp
  show "sb_len sb + 1 < sb_cap sb \<longleftrightarrow> 0 < sb_room sb" using s by (auto simp: word_less_unat sb_room_def)
qed

lemma sb_push:
  fixes c :: char
  assumes "sb_inv sb" and "0 < sb_room sb"
  defines "sb1 \<equiv> sb\<lparr>sb_buf := (sb_buf sb)(unat (sb_len sb) := c), sb_len := sb_len sb + 1\<rparr>"
  shows "sb_inv sb1" "sb_text sb1 = sb_text sb @ [c]" "sb_room sb1 = sb_room sb - 1" "sb_truncated sb1 = sb_truncated sb"
    "sb_cap sb1 = sb_cap sb"
  using assms(2) sb_succ [OF assms(1)] by (simp_all add: sb1_def sb_inv_def sb_text_def sb_room_def)

lemma strbuf_putn_spec:
  assumes "sb_inv sb"
  shows "sb_inv (strbuf_putn s sb) \<and> sb_text (strbuf_putn s sb) = sb_text sb @ take (sb_room sb) s
     \<and> sb_truncated (strbuf_putn s sb) = (sb_truncated sb \<or> sb_room sb < length s)
     \<and> sb_buf (strbuf_putn s sb) (unat (sb_len (strbuf_putn s sb)))
        = (if length s \<le> sb_room sb then NUL else sb_buf sb (unat (sb_cap sb) - 1))"
  using assms
proof (induction s arbitrary: sb)
  case Nil
  have "sb_cap sb \<noteq> 0"
  proof
    assume "sb_cap sb = 0"
    then show False using Nil by (simp add: sb_inv_def)
  qed
  then have st: "strbuf_putn [] sb = sb\<lparr>sb_buf := (sb_buf sb)(unat (sb_len sb) := NUL)\<rparr>" by (simp add: word_neq_0_conv)
  show ?case unfolding st using Nil by (simp add: sb_inv_def sb_text_def)
next
  case (Cons c s)
  note sc = sb_succ [OF Cons.prems]
  show ?case
  proof (cases "0 < sb_room sb")
    case True
    define sb1 where "sb1 = sb\<lparr>sb_buf := (sb_buf sb)(unat (sb_len sb) := c), sb_len := sb_len sb + 1\<rparr>"
    note p = sb_push [OF Cons.prems True, of c, folded sb1_def]
    have "\<not> sb_cap sb \<le> sb_len sb + 1" using True sc(2) by (simp add: not_le)
    then have st: "strbuf_putn (c # s) sb = strbuf_putn s sb1" by (simp add: sb1_def)
    have tk: "take (sb_room sb) (c # s) = c # take (sb_room sb - 1) s" using True by (cases "sb_room sb") simp_all
    have last: "sb_buf sb1 (unat (sb_cap sb) - 1) = sb_buf sb (unat (sb_cap sb) - 1)"
      using True by (auto simp: sb1_def sb_room_def)
    have len: "(sb_room sb1 < length s) = (sb_room sb < length (c # s))" "(length s \<le> sb_room sb1) = (length (c # s) \<le> sb_room sb)"
      using True p(3) by auto
    show ?thesis unfolding st tk using Cons.IH [OF p(1)] unfolding p(2,3,4,5) last len [unfolded p(3)] by simp
  next
    case False
    then have st: "strbuf_putn (c # s) sb = sb\<lparr>sb_truncated := True\<rparr>" using sc(2) by (simp add: not_less)
    have "unat (sb_len sb) = unat (sb_cap sb) - 1"
      using False Cons.prems by (simp add: sb_room_def sb_inv_def word_less_unat)
    then show ?thesis unfolding st using Cons.prems False by (simp add: sb_inv_def sb_text_def)
  qed
qed

lemma strbuf_putn_frame:
  assumes "sb_inv sb"
  shows "sb_cap (strbuf_putn s sb) = sb_cap sb \<and> (\<forall>x \<ge> unat (sb_cap sb). sb_buf (strbuf_putn s sb) x = sb_buf sb x)"
  using assms
proof (induction s arbitrary: sb)
  case Nil
  then show ?case by (auto simp: sb_inv_def word_less_unat)
next
  case (Cons c s)
  show ?case
  proof (cases "0 < sb_room sb")
    case True
    define sb1 where "sb1 = sb\<lparr>sb_buf := (sb_buf sb)(unat (sb_len sb) := c), sb_len := sb_len sb + 1\<rparr>"
    have "\<not> sb_cap sb \<le> sb_len sb + 1" using True sb_succ(2) [OF Cons.prems] by (simp add: not_le)
    then have st: "strbuf_putn (c # s) sb = strbuf_putn s sb1" by (simp add: sb1_def)
    have "sb_cap sb1 = sb_cap sb" "\<forall>x \<ge> unat (sb_cap sb). sb_buf sb1 x = sb_buf sb x"
      using Cons.prems by (auto simp: sb1_def sb_inv_def word_less_unat)
    then show ?thesis unfolding st using Cons.IH [OF sb_push(1) [OF Cons.prems True, of c, folded sb1_def]] by simp
  next
    case False
    then show ?thesis using sb_succ(2) [OF Cons.prems] by (simp add: not_less)
  qed
qed

text \<open>
  What an append of \<open>s\<close> has done to a builder: the text has grown by the longest prefix that fits, truncation
  is recorded exactly when something was cut off, and no byte at or beyond the capacity was written.
\<close>

definition appended :: "string \<Rightarrow> strbuf \<Rightarrow> strbuf \<Rightarrow> bool" where
  "appended s sb sb' \<longleftrightarrow> sb_inv sb' \<and> sb_cap sb' = sb_cap sb \<and> sb_text sb' = sb_text sb @ take (sb_room sb) s
     \<and> sb_truncated sb' = (sb_truncated sb \<or> sb_room sb < length s)
     \<and> (\<forall>x \<ge> unat (sb_cap sb). sb_buf sb' x = sb_buf sb x)"

text \<open>
  C33. Appending to a string builder, a character or a string, never overflows it: the text grows by the
  longest prefix that fits, truncation is recorded exactly when something was cut off, and
  nothing is written at or beyond the capacity.  Appending a character
  terminates the text, or leaves the whole buffer as it is when there is no room; appending a string that fits
  terminates the text, but when the string is cut
  off the byte after the text keeps its old value, so the builder may be left unterminated.
\<close>

theorem strbuf_append:
  assumes "sb_inv sb"
  shows "appended s sb (strbuf_puts s sb) \<and> appended [c] sb (strbuf_putc c sb)
     \<and> sb_buf (strbuf_puts s sb) (unat (sb_len (strbuf_puts s sb)))
        = (if length s \<le> sb_room sb then NUL else sb_buf sb (unat (sb_cap sb) - 1))
     \<and> (if 0 < sb_room sb then sb_buf (strbuf_putc c sb) (unat (sb_len (strbuf_putc c sb))) = NUL
        else strbuf_putc c sb = sb\<lparr>sb_truncated := True\<rparr>)"
proof -
  note sc = sb_succ [OF assms]
  have lt: "unat (sb_len sb) < unat (sb_cap sb)" "sb_room sb = unat (sb_cap sb) - 1 - unat (sb_len sb)"
    using assms by (simp_all add: sb_inv_def word_less_unat sb_room_def)
  have "appended [c] sb (strbuf_putc c sb)
     \<and> (if 0 < sb_room sb then sb_buf (strbuf_putc c sb) (unat (sb_len (strbuf_putc c sb))) = NUL
        else strbuf_putc c sb = sb\<lparr>sb_truncated := True\<rparr>)"
  proof (cases "0 < sb_room sb")
    case True
    then show ?thesis using sc lt by (auto simp: strbuf_putc_def appended_def sb_inv_def sb_text_def)
  next
    case False
    then have "strbuf_putc c sb = sb\<lparr>sb_truncated := True\<rparr>" using sc(2) by (simp add: strbuf_putc_def)
    then show ?thesis using False assms by (simp add: appended_def sb_inv_def sb_text_def)
  qed
  then show ?thesis
    using strbuf_putn_spec [OF assms, of s] strbuf_putn_frame [OF assms, of s] by (simp add: strbuf_puts_def appended_def)
qed

theorem strbuf_append_witness:
  "let sb = strbuf_puts ''abcdef'' (strbuf_init (\<lambda>_. CHR ''?'') 4)
   in sb_text sb = ''abc'' \<and> sb_truncated sb \<and> sb_buf sb 3 = CHR ''?''"
proof -
  define sb where "sb = strbuf_init (\<lambda>_. CHR ''?'') 4"
  have i: "sb_inv sb" "sb_room sb = 3" "sb_text sb = []" "sb_buf sb 3 = CHR ''?''" "unat (sb_cap sb) = 4"
    by (simp_all add: sb_def strbuf_init_def sb_inv_def sb_room_def sb_text_def)
  define sb1 where "sb1 = strbuf_puts ''abcdef'' sb"
  have t: "sb_text sb1 = ''abc''" "sb_truncated sb1" "sb_buf sb1 (unat (sb_len sb1)) = CHR ''?''"
    using strbuf_append [OF i(1), of "''abcdef''" NUL] i by (simp_all add: sb1_def numeral_3_eq_3 appended_def)
  have "length (sb_text sb1) = unat (sb_len sb1)" by (simp add: sb_text_def)
  then have "unat (sb_len sb1) = 3" using t(1) by simp
  then show ?thesis using t unfolding sb_def [symmetric] sb1_def [symmetric] Let_def by simp
qed

end
