(* ===== verification/Path.thy ===== *)
theory Path
  imports Prelude
begin

text \<open>
  Path normalisation (\<open>kernel/fs/path.c\<close>).  A C string is the list of its characters without
  the terminator; the output buffer is the list of its characters, and the functions return the
  result code with the buffer after the call.  The working copy of the path is the rest of the
  string from the scan position on, and the component stack is a list with its top at the end.
\<close>

definition VFS_PATH_MAX :: nat where "VFS_PATH_MAX = 256"
definition MAX_COMPONENTS :: nat where "MAX_COMPONENTS = 32"
definition SYS_EINVAL :: int where "SYS_EINVAL = 22"
definition SYS_ENAMETOOLONG :: int where "SYS_ENAMETOOLONG = 36"

definition NUL :: char where "NUL = CHR 0x00"

function resolve_loop :: "string \<Rightarrow> string list \<Rightarrow> string list option" where
  "resolve_loop w comps =
     (if w = [] then Some comps
      else let r = dropWhile (\<lambda>c. c = CHR ''/'') w;
               comp = takeWhile (\<lambda>c. c \<noteq> CHR ''/'') r;
               w = dropWhile (\<lambda>c. c \<noteq> CHR ''/'') r
           in if comp = [] then resolve_loop w comps
              else if comp = ''.'' then resolve_loop w comps
              else if comp = ''..'' then resolve_loop w (butlast comps)
              else if MAX_COMPONENTS \<le> length comps then None
              else resolve_loop w (comps @ [comp]))"
  by auto

lemma scan_shorter:
  assumes "w \<noteq> []"
  shows "length (dropWhile (\<lambda>c. c \<noteq> CHR ''/'') (dropWhile (\<lambda>c. c = CHR ''/'') w)) < length w"
proof (cases "dropWhile (\<lambda>c. c = CHR ''/'') w")
  case Nil
  show ?thesis unfolding Nil using assms by simp
next
  case (Cons c r)
  have "c \<noteq> CHR ''/''"
    using hd_dropWhile [of "\<lambda>c. c = CHR ''/''" w] Cons by simp
  then have "length (dropWhile (\<lambda>c. c \<noteq> CHR ''/'') (c # r)) \<le> length r"
    by (simp add: length_dropWhile_le)
  also have "\<dots> < length w"
    using length_dropWhile_le [of "\<lambda>c. c = CHR ''/''" w] Cons by simp
  finally show ?thesis
    by (simp only: Cons)
qed

termination resolve_loop
  by (relation "measure (\<lambda>(w, _). length w)") (simp_all add: scan_shorter)

declare resolve_loop.simps [simp del]

text \<open>Storing a string at offset \<open>n\<close> of the buffer.\<close>

definition buf_store :: "nat \<Rightarrow> string \<Rightarrow> string \<Rightarrow> string" where
  "buf_store n s out = take n out @ s @ drop (n + length s) out"

primrec rebuild_loop :: "string list \<Rightarrow> nat \<Rightarrow> string \<Rightarrow> u64 \<Rightarrow> int \<times> string" where
  "rebuild_loop [] n out out_size = (0, buf_store n [NUL] out)"
| "rebuild_loop (c # cs) n out out_size =
     (if unat out_size \<le> n + 1 + length c then (- SYS_ENAMETOOLONG, out)
      else rebuild_loop cs (n + 1 + length c) (buf_store n (CHR ''/'' # c) out) out_size)"

text \<open>The working copy: the current directory is put in front of a relative path.\<close>

definition path_work :: "string option \<Rightarrow> string \<Rightarrow> int + string" where
  "path_work cwd path =
     (let wcap = VFS_PATH_MAX * 2;
          base = (case cwd of None \<Rightarrow> ''/'' | Some d \<Rightarrow> if d = [] then ''/'' else d);
          relative = (case path of [] \<Rightarrow> True | c # _ \<Rightarrow> c \<noteq> CHR ''/'')
      in if relative \<and> wcap - 2 \<le> length base then Inl (- SYS_ENAMETOOLONG)
         else let w = (if relative then base @ ''/'' else [])
              in if wcap \<le> length w + length path then Inl (- SYS_ENAMETOOLONG) else Inr (w @ path))"

definition path_resolve :: "string option \<Rightarrow> string option \<Rightarrow> string option \<Rightarrow> u64 \<Rightarrow> int \<times> string option" where
  "path_resolve cwd path out out_size =
     (case (path, out) of
        (Some path, Some out) \<Rightarrow>
          if out_size < 2 then (- SYS_EINVAL, Some out)
          else (case path_work cwd path of
                  Inl e \<Rightarrow> (e, Some out)
                | Inr w \<Rightarrow>
                    (case resolve_loop w [] of
                       None \<Rightarrow> (- SYS_ENAMETOOLONG, Some out)
                     | Some [] \<Rightarrow> (0, Some (buf_store 0 [CHR ''/'', NUL] out))
                     | Some (c # cs) \<Rightarrow>
                         let (rc, out) = rebuild_loop (c # cs) 0 out out_size in (rc, Some out)))
      | _ \<Rightarrow> (- SYS_EINVAL, out))"

definition path_basename :: "string \<Rightarrow> string" where
  "path_basename path =
     (if CHR ''/'' \<in> set path then rev (takeWhile (\<lambda>c. c \<noteq> CHR ''/'') (rev path)) else path)"

primrec strip_name :: "string \<Rightarrow> nat \<Rightarrow> nat" where
  "strip_name p 0 = 0"
| "strip_name p (Suc n) = (if p ! n \<noteq> CHR ''/'' then strip_name p n else Suc n)"

fun strip_slashes :: "string \<Rightarrow> nat \<Rightarrow> nat" where
  "strip_slashes p (Suc (Suc n)) = (if p ! Suc n = CHR ''/'' then strip_slashes p (Suc n) else Suc (Suc n))"
| "strip_slashes p n = n"

definition path_parent :: "string \<Rightarrow> string \<Rightarrow> u64 \<Rightarrow> int \<times> string" where
  "path_parent abspath out out_size =
     (let n = length abspath
      in if n = 0 \<or> out_size < 2 then (- SYS_EINVAL, out)
         else let n = strip_slashes abspath (strip_name abspath n);
                  n = (if n = 0 then 1 else n)
              in if unat out_size \<le> n then (- SYS_ENAMETOOLONG, out)
                 else (0, buf_store 0 (take n abspath @ [NUL]) out))"

subsection \<open>Specification: the names of a path and their normal form\<close>

fun split_slash :: "string \<Rightarrow> string list" where
  "split_slash [] = [[]]"
| "split_slash (c # s) = (if c = CHR ''/'' then [] # split_slash s
     else (c # hd (split_slash s)) # tl (split_slash s))"

definition components :: "string \<Rightarrow> string list" where
  "components w = filter (\<lambda>c. c \<noteq> []) (split_slash w)"

definition norm_step :: "string list \<Rightarrow> string \<Rightarrow> string list" where
  "norm_step st c = (if c = ''.'' then st else if c = ''..'' then butlast st else st @ [c])"

definition render :: "string list \<Rightarrow> string" where
  "render cs = (if cs = [] then ''/'' else concat (map (\<lambda>c. CHR ''/'' # c) cs))"

definition good_name :: "string \<Rightarrow> bool" where
  "good_name c \<longleftrightarrow> c \<noteq> [] \<and> CHR ''/'' \<notin> set c \<and> c \<noteq> ''.'' \<and> c \<noteq> ''..''"

lemma split_slash_append:
  "CHR ''/'' \<notin> set a \<Longrightarrow> split_slash (a @ s) = (a @ hd (split_slash s)) # tl (split_slash s)"
proof (induction a)
  case Nil
  have "split_slash s \<noteq> []" by (cases s) auto
  then show ?case by simp
qed auto

lemma components_slash [simp]: "components (CHR ''/'' # s) = components s"
  by (simp add: components_def)

lemma components_Nil [simp]: "components [] = []"
  by (simp add: components_def)

lemma components_name:
  assumes "CHR ''/'' \<notin> set a" "a \<noteq> []" and "s = [] \<or> hd s = CHR ''/''"
  shows "components (a @ s) = a # components s"
  using assms(2,3) split_slash_append [OF assms(1), of s] by (cases s) (auto simp: components_def)

lemma components_drop: "components (dropWhile (\<lambda>c. c = CHR ''/'') w) = components w"
  by (induction w) auto

lemma components_rec:
  assumes "r = dropWhile (\<lambda>c. c = CHR ''/'') w"
  shows "components w = (if takeWhile (\<lambda>c. c \<noteq> CHR ''/'') r = [] then []
     else takeWhile (\<lambda>c. c \<noteq> CHR ''/'') r # components (dropWhile (\<lambda>c. c \<noteq> CHR ''/'') r))"
proof (cases r)
  case Nil
  have "components w = []" using components_drop [of w, folded assms] by (simp add: Nil)
  then show ?thesis by (simp add: Nil)
next
  case (Cons c r')
  let ?a = "takeWhile (\<lambda>c. c \<noteq> CHR ''/'') r" and ?s = "dropWhile (\<lambda>c. c \<noteq> CHR ''/'') r"
  have "c \<noteq> CHR ''/''"
    using hd_dropWhile [of "\<lambda>c. c = CHR ''/''" w, folded assms] by (simp add: Cons)
  then have a: "?a \<noteq> []" by (simp add: Cons)
  have n: "CHR ''/'' \<notin> set ?a"
    using set_takeWhileD by fastforce
  have s: "?s = [] \<or> hd ?s = CHR ''/''"
    using hd_dropWhile [of "\<lambda>c. c \<noteq> CHR ''/''" r] by blast
  have "components w = components (?a @ ?s)"
    using components_drop [of w, folded assms] by simp
  then show ?thesis
    using components_name [OF n a s] a by simp
qed

text \<open>The stack never needs more than \<open>MAX_COMPONENTS\<close> places on the way.\<close>

primrec walk :: "string list \<Rightarrow> string list \<Rightarrow> string list option" where
  "walk [] st = Some st"
| "walk (c # cs) st =
     (if good_name c \<and> MAX_COMPONENTS \<le> length st then None else walk cs (norm_step st c))"

lemma components_no_slash: "c \<in> set (components w) \<Longrightarrow> c \<noteq> [] \<and> CHR ''/'' \<notin> set c"
proof -
  have "\<forall>c \<in> set (split_slash w). CHR ''/'' \<notin> set c"
  proof (induction w rule: split_slash.induct)
    case (2 c s)
    have "split_slash s \<noteq> []" by (cases s) auto
    with 2 show ?case by (cases "split_slash s") auto
  qed simp
  then show "c \<in> set (components w) \<Longrightarrow> c \<noteq> [] \<and> CHR ''/'' \<notin> set c"
    by (auto simp: components_def)
qed

lemma resolve_loop_walk: "resolve_loop w st = walk (components w) st"
proof (induction w st rule: resolve_loop.induct)
  case (1 w st)
  show ?case
  proof (cases "w = []")
    case True
    then show ?thesis by (simp add: resolve_loop.simps)
  next
    case False
    define r where "r = dropWhile (\<lambda>c. c = CHR ''/'') w"
    define a where "a = takeWhile (\<lambda>c. c \<noteq> CHR ''/'') r"
    define v where "v = dropWhile (\<lambda>c. c \<noteq> CHR ''/'') r"
    note c = components_rec [OF r_def, folded a_def v_def]
    note ih = "1.IH" [OF False r_def a_def v_def]
    have sp: "resolve_loop w st = (if a = [] then resolve_loop v st else if a = ''.'' then resolve_loop v st
       else if a = ''..'' then resolve_loop v (butlast st)
       else if MAX_COMPONENTS \<le> length st then None else resolve_loop v (st @ [a]))"
      using False by (subst resolve_loop.simps) (simp add: Let_def r_def a_def v_def)
    have "CHR ''/'' \<notin> set a"
      unfolding a_def using set_takeWhileD by fastforce
    moreover have "v = []" if "a = []"
    proof -
      have "r = []"
        using that hd_dropWhile [of "\<lambda>c. c = CHR ''/''" w, folded r_def]
        unfolding a_def by (cases r) (auto split: if_splits)
      then show ?thesis by (simp add: v_def)
    qed
    ultimately show ?thesis
      using ih unfolding sp by (auto simp: c good_name_def norm_step_def resolve_loop.simps [of "[]"])
  qed
qed

lemma walk_good:
  "\<lbrakk>walk cs st = Some r; \<forall>c \<in> set cs. c \<noteq> [] \<and> CHR ''/'' \<notin> set c; \<forall>c \<in> set st. good_name c; length st \<le> MAX_COMPONENTS\<rbrakk>
   \<Longrightarrow> r = foldl norm_step st cs \<and> (\<forall>c \<in> set r. good_name c) \<and> length r \<le> MAX_COMPONENTS"
proof (induction cs arbitrary: st)
  case (Cons c cs)
  have "\<forall>c \<in> set (norm_step st c). good_name c"
    using Cons.prems by (auto simp: norm_step_def good_name_def dest: in_set_butlastD)
  moreover have "length (norm_step st c) \<le> MAX_COMPONENTS"
    using Cons.prems by (auto simp: norm_step_def good_name_def split: if_splits)
  moreover have "walk cs (norm_step st c) = Some r"
    using Cons.prems by (auto split: if_splits)
  ultimately show ?case
    using Cons.IH [of "norm_step st c"] Cons.prems(2) unfolding foldl.simps(2) by (meson list.set_intros(2))
qed simp

lemma all_prefixes_Cons:
  "(\<forall>k \<le> length (c # cs). P (take k (c # cs))) \<longleftrightarrow> P [] \<and> (\<forall>k \<le> length cs. P (c # take k cs))"
  unfolding less_Suc_eq_le [symmetric] list.size(4) add_0_right add_Suc_right by (subst All_less_Suc2) simp

lemma walk_iff:
  assumes "\<forall>c \<in> set cs. c \<noteq> [] \<and> CHR ''/'' \<notin> set c" and "length st \<le> MAX_COMPONENTS"
  shows "walk cs st = (if \<forall>k \<le> length cs. length (foldl norm_step st (take k cs)) \<le> MAX_COMPONENTS
     then Some (foldl norm_step st cs) else None)"
  using assms
proof (induction cs arbitrary: st)
  case (Cons c cs)
  have k: "(\<forall>k \<le> length (c # cs). length (foldl norm_step st (take k (c # cs))) \<le> MAX_COMPONENTS)
      \<longleftrightarrow> (\<forall>k \<le> length cs. length (foldl norm_step (norm_step st c) (take k cs)) \<le> MAX_COMPONENTS)"
    using Cons.prems(2) all_prefixes_Cons [of c cs "\<lambda>ds. length (foldl norm_step st ds) \<le> MAX_COMPONENTS"] by simp
  show ?case
  proof (cases "good_name c \<and> MAX_COMPONENTS \<le> length st")
    case True
    then have "MAX_COMPONENTS < length (norm_step st c)" by (simp add: good_name_def norm_step_def)
    then have "\<not> (\<forall>k \<le> length cs. length (foldl norm_step (norm_step st c) (take k cs)) \<le> MAX_COMPONENTS)"
      by (intro notI) (drule spec [of _ 0], simp)
    then show ?thesis unfolding k using True by simp
  next
    case False
    then have "length (norm_step st c) \<le> MAX_COMPONENTS"
      using Cons.prems by (auto simp: norm_step_def good_name_def)
    then have ih: "walk cs (norm_step st c) = (if \<forall>k \<le> length cs. length (foldl norm_step (norm_step st c) (take k cs)) \<le> MAX_COMPONENTS
        then Some (foldl norm_step (norm_step st c) cs) else None)"
      using Cons.prems(1) by (intro Cons.IH) auto
    show ?thesis unfolding k walk.simps if_not_P [OF False] ih foldl.simps(2) ..
  qed
qed simp

lemma split_slash_join: "split_slash (a @ CHR ''/'' # b) = split_slash a @ split_slash b"
proof (induction a)
  case (Cons c a)
  have "split_slash a \<noteq> []" by (cases a) auto
  then show ?case using Cons by simp
qed simp

lemma components_join: "components (a @ CHR ''/'' # b) = components a @ components b"
  by (simp add: components_def split_slash_join)

lemma walk_names:
  "\<lbrakk>\<forall>c \<in> set cs. good_name c; length st + length cs \<le> MAX_COMPONENTS\<rbrakk> \<Longrightarrow> walk cs st = Some (st @ cs)"
  by (induction cs arbitrary: st) (auto simp: norm_step_def good_name_def)

lemma components_render:
  "\<forall>c \<in> set cs. good_name c \<Longrightarrow> components (render cs) = cs"
proof (induction cs)
  case (Cons c cs)
  have "components (c @ concat (map (\<lambda>c. CHR ''/'' # c) cs)) = c # components (concat (map (\<lambda>c. CHR ''/'' # c) cs))"
  proof (rule components_name)
    show "concat (map (\<lambda>c. CHR ''/'' # c) cs) = [] \<or> hd (concat (map (\<lambda>c. CHR ''/'' # c) cs)) = CHR ''/''"
      by (cases cs) simp_all
  qed (use Cons.prems in \<open>simp_all add: good_name_def\<close>)
  moreover have "components (concat (map (\<lambda>c. CHR ''/'' # c) cs)) = cs"
    using Cons by (cases cs) (auto simp: render_def)
  ultimately show ?case
    by (simp add: render_def)
qed (simp add: render_def)

lemma buf_store_append:
  assumes "n \<le> length out"
  shows "buf_store (n + length a) b (buf_store n a out) = buf_store n (a @ b) out"
  using assms by (simp add: buf_store_def ac_simps)

lemma rebuild_loop_eq:
  assumes "n + length (concat (map (\<lambda>c. CHR ''/'' # c) cs)) < unat out_size" and "n \<le> length out"
    and "unat out_size \<le> length out"
  shows "rebuild_loop cs n out out_size = (0, buf_store n (concat (map (\<lambda>c. CHR ''/'' # c) cs) @ [NUL]) out)"
  using assms
proof (induction cs arbitrary: n out)
  case (Cons c cs)
  have l: "length (buf_store n (CHR ''/'' # c) out) = length out"
    using Cons.prems by (simp add: buf_store_def)
  have "rebuild_loop (c # cs) n out out_size =
      rebuild_loop cs (n + 1 + length c) (buf_store n (CHR ''/'' # c) out) out_size"
    using Cons.prems by simp
  also have "\<dots> = (0, buf_store (n + 1 + length c) (concat (map (\<lambda>c. CHR ''/'' # c) cs) @ [NUL]) (buf_store n (CHR ''/'' # c) out))"
    using Cons.prems l by (intro Cons.IH) auto
  also have "\<dots> = (0, buf_store n (concat (map (\<lambda>c. CHR ''/'' # c) (c # cs)) @ [NUL]) out)"
    using buf_store_append [of n out "CHR ''/'' # c" "concat (map (\<lambda>c. CHR ''/'' # c) cs) @ [NUL]"] Cons.prems by simp
  finally show ?case .
qed simp

lemma rebuild_loop_fails:
  "unat out_size \<le> n + length (concat (map (\<lambda>c. CHR ''/'' # c) cs)) \<Longrightarrow> n < unat out_size
   \<Longrightarrow> fst (rebuild_loop cs n out out_size) = - SYS_ENAMETOOLONG"
  by (induction cs arbitrary: n out) auto

text \<open>No call writes at or beyond \<open>out_size\<close>.\<close>

definition in_bounds :: "nat \<Rightarrow> string \<Rightarrow> string \<Rightarrow> bool" where
  "in_bounds n out out' \<longleftrightarrow> length out' = length out \<and> drop n out' = drop n out"

lemma buf_store_in_bounds: "n + length s \<le> k \<Longrightarrow> k \<le> length out \<Longrightarrow> in_bounds k out (buf_store n s out)"
  by (auto simp: in_bounds_def buf_store_def)

lemma rebuild_loop_in_bounds:
  "n < unat out_size \<Longrightarrow> unat out_size \<le> length out \<Longrightarrow> in_bounds (unat out_size) out (snd (rebuild_loop cs n out out_size))"
proof (induction cs arbitrary: n out)
  case Nil
  then show ?case by (simp add: buf_store_in_bounds)
next
  case (Cons c cs)
  show ?case
  proof (cases "unat out_size \<le> n + 1 + length c")
    case True
    then show ?thesis by (simp add: in_bounds_def)
  next
    case False
    then have b: "in_bounds (unat out_size) out (buf_store n (CHR ''/'' # c) out)"
      using Cons.prems by (intro buf_store_in_bounds) auto
    then show ?thesis
      using Cons.IH [of "n + 1 + length c" "buf_store n (CHR ''/'' # c) out"] False Cons.prems(2) by (auto simp: in_bounds_def)
  qed
qed

lemma path_resolve_in_bounds:
  assumes "2 \<le> unat out_size" and "unat out_size \<le> length out"
  shows "\<exists>out'. snd (path_resolve cwd (Some path) (Some out) out_size) = Some out' \<and> in_bounds (unat out_size) out out'"
proof -
  have refl: "in_bounds (unat out_size) out out" by (simp add: in_bounds_def)
  have root: "in_bounds (unat out_size) out (buf_store 0 [CHR ''/'', NUL] out)"
    using assms by (intro buf_store_in_bounds) auto
  have rb: "in_bounds (unat out_size) out (snd (rebuild_loop cs 0 out out_size))" for cs
    using assms by (intro rebuild_loop_in_bounds) auto
  show ?thesis
    using refl root rb by (auto simp: path_resolve_def case_prod_unfold Let_def simp del: rebuild_loop.simps
        split: sum.split option.split list.split)
qed

lemma path_resolve_eq:
  assumes "2 \<le> out_size" and "unat out_size \<le> length out" and w: "path_work cwd path = Inr w"
    and cs: "walk (components w) [] = Some cs"
  shows "if length (render cs) < unat out_size
    then path_resolve cwd (Some path) (Some out) out_size = (0, Some (buf_store 0 (render cs @ [NUL]) out))
    else fst (path_resolve cwd (Some path) (Some out) out_size) = - SYS_ENAMETOOLONG"
proof -
  have two: "2 \<le> unat out_size"
    using assms(1) by (simp add: word_le_nat_alt)
  show ?thesis
  proof (cases cs)
    case Nil
    then show ?thesis
      using two assms(1) by (simp add: path_resolve_def w resolve_loop_walk cs render_def not_less [symmetric])
  next
    case (Cons c cs')
    then show ?thesis
      using two assms(1,2) rebuild_loop_eq [of 0 cs out_size out] rebuild_loop_fails [of out_size 0 cs out]
      by (auto simp: path_resolve_def w resolve_loop_walk cs render_def not_less split: prod.splits)
  qed
qed

text \<open>
  The specification of a call: the names of a path are its own, after those of the current directory when it does not start with
  a slash; a directory that is missing or empty stands for the root, a name that takes one character of the 512 of the working copy.
\<close>

definition is_absolute :: "string \<Rightarrow> bool" where
  "is_absolute path \<longleftrightarrow> (\<exists>p. path = CHR ''/'' # p)"

definition directory :: "string option \<Rightarrow> string" where
  "directory cwd = (if cwd = None \<or> cwd = Some [] then ''/'' else the cwd)"

definition path_names :: "string option \<Rightarrow> string \<Rightarrow> string list" where
  "path_names cwd path = (if is_absolute path then [] else components (directory cwd)) @ components path"

definition normal_names :: "string list \<Rightarrow> string list" where
  "normal_names ns = foldl norm_step [] ns"

definition input_fits :: "string option \<Rightarrow> string \<Rightarrow> bool" where
  "input_fits cwd path \<longleftrightarrow>
     (if is_absolute path then length path < 512
      else length (directory cwd) < 510 \<and> length (directory cwd) + 1 + length path < 512)"

definition depth_fits :: "string list \<Rightarrow> bool" where
  "depth_fits ns \<longleftrightarrow> (\<forall>k \<le> length ns. length (normal_names (take k ns)) \<le> 32)"

lemma path_work_spec:
  "(if input_fits cwd path then \<exists>w. path_work cwd path = Inr w \<and> components w = path_names cwd path
    else path_work cwd path = Inl (- SYS_ENAMETOOLONG))"
proof -
  define base where "base = (case cwd of None \<Rightarrow> ''/'' | Some d \<Rightarrow> if d = [] then ''/'' else d)"
  have d: "directory cwd = base" by (cases cwd) (auto simp: directory_def base_def)
  have rel: "(case path of [] \<Rightarrow> True | c # _ \<Rightarrow> c \<noteq> CHR ''/'') \<longleftrightarrow> \<not> is_absolute path"
    by (cases path) (auto simp: is_absolute_def)
  show ?thesis
  proof (cases "is_absolute path")
    case True
    then show ?thesis
      by (simp add: path_work_def rel base_def [symmetric] input_fits_def path_names_def VFS_PATH_MAX_def not_le)
  next
    case False
    then show ?thesis
      using components_join [of base path]
      by (auto simp: path_work_def rel base_def [symmetric] input_fits_def path_names_def VFS_PATH_MAX_def d not_le Let_def)
  qed
qed

lemma path_names_plain: "c \<in> set (path_names cwd path) \<Longrightarrow> c \<noteq> [] \<and> CHR ''/'' \<notin> set c"
  using components_no_slash by (auto simp: path_names_def split: if_splits)

lemma walk_path_names:
  "walk (path_names cwd path) [] = (if depth_fits (path_names cwd path) then Some (normal_names (path_names cwd path)) else None)"
  unfolding depth_fits_def normal_names_def
  using walk_iff [of "path_names cwd path" "[]"] path_names_plain by (simp add: MAX_COMPONENTS_def)

lemma path_resolve_refused:
  assumes "2 \<le> out_size" and "\<not> (input_fits cwd path \<and> depth_fits (path_names cwd path))"
  shows "path_resolve cwd (Some path) (Some out) out_size = (- SYS_ENAMETOOLONG, Some out)"
proof (cases "input_fits cwd path")
  case True
  then obtain w where w: "path_work cwd path = Inr w" "components w = path_names cwd path"
    using path_work_spec [of cwd path] by auto
  have "resolve_loop w [] = None" unfolding resolve_loop_walk w(2) walk_path_names using assms(2) True by simp
  then show ?thesis using assms(1) w(1) by (simp add: path_resolve_def flip: not_less)
next
  case False
  then show ?thesis using assms(1) path_work_spec [of cwd path] by (simp add: path_resolve_def flip: not_less)
qed

lemma path_work_absolute:
  assumes "length p < 2 * VFS_PATH_MAX" and "p = CHR ''/'' # p'"
  shows "path_work cwd p = Inr p"
  using assms by (auto simp: path_work_def Let_def)

lemma render_hd: "\<exists>p. render cs = CHR ''/'' # p"
  by (cases cs) (simp_all add: render_def)

lemma strip_name_last:
  assumes "CHR ''/'' \<notin> set c"
  shows "k \<le> length c \<Longrightarrow> strip_name (a @ CHR ''/'' # c) (Suc (length a) + k) = Suc (length a)"
proof (induction k)
  case (Suc k)
  have "(a @ CHR ''/'' # c) ! (Suc (length a) + k) = c ! k"
    by (simp add: nth_append)
  moreover have "c ! k \<noteq> CHR ''/''"
    using assms Suc.prems by (metis Suc_le_lessD nth_mem)
  ultimately show ?case
    using Suc by simp
qed (simp add: nth_append)

lemma strip_slashes_last:
  assumes "a \<noteq> []" "last a \<noteq> CHR ''/''"
  shows "strip_slashes (a @ CHR ''/'' # c) (Suc (length a)) = length a"
proof -
  obtain n where n: "length a = Suc n"
    using assms(1) by (cases a) simp_all
  have l: "(a @ CHR ''/'' # c) ! n \<noteq> CHR ''/''" and m: "(a @ CHR ''/'' # c) ! Suc n = CHR ''/''"
    using assms n by (simp_all add: nth_append last_conv_nth)
  show ?thesis
    using l m n by (cases n) simp_all
qed

lemma render_snoc:
  "render (cs @ [c]) = concat (map (\<lambda>c. CHR ''/'' # c) cs) @ CHR ''/'' # c"
  by (simp add: render_def)

subsection \<open>Correctness\<close>

text \<open>
  C9. Path resolution computes the normal form.  The names of a path are those between its
  slashes, after the names of the current directory for a relative one; \<open>.\<close> is skipped, \<open>..\<close> removes the
  last name and never leaves the root.  The call succeeds exactly when the path (with the directory in front)
  fits the working copy of 512 bytes, no part of the walk goes deeper than 32 names, and the result fits the
  output; it then stores exactly the rendered names with their terminator, names that are ordinary (not empty, no slash,
  neither \<open>.\<close> nor \<open>..\<close>).  Otherwise it fails with \<open>-ENAMETOOLONG\<close>.  Nothing is
  ever written at or beyond the size of the output.  A missing argument or an output of less than two bytes is
  \<open>-EINVAL\<close>.  A path in normal form resolves to itself, whatever the current directory is.
\<close>

theorem path_resolve_normal_form:
  fixes cwd :: "string option" and path :: string
  assumes size: "2 \<le> out_size" "unat out_size \<le> length out"
  defines "cs \<equiv> normal_names (path_names cwd path)"
  shows "(if input_fits cwd path \<and> depth_fits (path_names cwd path) \<and> length (render cs) < unat out_size
      then path_resolve cwd (Some path) (Some out) out_size
             = (0, Some (render cs @ NUL # drop (length (render cs) + 1) out)) \<and> (\<forall>c \<in> set cs. good_name c)
      else fst (path_resolve cwd (Some path) (Some out) out_size) = - 36)
    \<and> (\<exists>out'. snd (path_resolve cwd (Some path) (Some out) out_size) = Some out' \<and> in_bounds (unat out_size) out out')
    \<and> path_resolve cwd None o1 sz = (- 22, o1) \<and> path_resolve cwd p1 None sz = (- 22, None)
    \<and> path_resolve cwd p1 o1 1 = (- 22, o1)
    \<and> (\<forall>ns. (\<forall>c \<in> set ns. good_name c) \<longrightarrow> length ns \<le> 32 \<longrightarrow> length (render ns) < 512
        \<longrightarrow> length (render ns) < unat out_size \<longrightarrow>
        path_resolve cwd (Some (render ns)) (Some out) out_size = (0, Some (render ns @ NUL # drop (length (render ns) + 1) out)))"
proof (intro conjI allI impI)
  have store: "buf_store 0 (r @ [NUL]) out = r @ NUL # drop (length r + 1) out" for r by (simp add: buf_store_def)
  show "if input_fits cwd path \<and> depth_fits (path_names cwd path) \<and> length (render cs) < unat out_size
      then path_resolve cwd (Some path) (Some out) out_size
             = (0, Some (render cs @ NUL # drop (length (render cs) + 1) out)) \<and> (\<forall>c \<in> set cs. good_name c)
      else fst (path_resolve cwd (Some path) (Some out) out_size) = - 36"
  proof (cases "input_fits cwd path \<and> depth_fits (path_names cwd path)")
    case True
    then obtain w where w: "path_work cwd path = Inr w" "components w = path_names cwd path"
      using path_work_spec [of cwd path] by auto
    have wk: "walk (components w) [] = Some cs" unfolding w(2) walk_path_names cs_def using True by simp
    have "\<forall>c \<in> set cs. good_name c"
      using walk_good [OF wk] components_no_slash by simp
    then show ?thesis using path_resolve_eq [OF size w(1) wk] True by (simp add: store SYS_ENAMETOOLONG_def)
  next
    case False
    then show ?thesis using path_resolve_refused [OF size(1) False] by (auto simp: SYS_ENAMETOOLONG_def)
  qed
  show "\<exists>out'. snd (path_resolve cwd (Some path) (Some out) out_size) = Some out' \<and> in_bounds (unat out_size) out out'"
    using size by (intro path_resolve_in_bounds) (simp_all add: word_le_nat_alt)
  show "path_resolve cwd None o1 sz = (- 22, o1)" "path_resolve cwd p1 None sz = (- 22, None)" "path_resolve cwd p1 o1 1 = (- 22, o1)"
    by (simp_all add: path_resolve_def SYS_EINVAL_def split: option.split)
  fix ns
  assume good: "\<forall>c \<in> set ns. good_name c" and n: "length ns \<le> 32"
    and short: "length (render ns) < 512" and fits: "length (render ns) < unat out_size"
  have w: "path_work cwd (render ns) = Inr (render ns)"
    using path_work_absolute [of "render ns"] short render_hd [of ns] by (auto simp: VFS_PATH_MAX_def)
  have "walk (components (render ns)) [] = Some ns"
    using walk_names [OF good, of "[]"] n by (simp add: components_render [OF good] MAX_COMPONENTS_def)
  then show "path_resolve cwd (Some (render ns)) (Some out) out_size
      = (0, Some (render ns @ NUL # drop (length (render ns) + 1) out))"
    using path_resolve_eq [OF size w] fits by (simp add: store)
qed

theorem path_resolve_normal_form_witness:
  "path_resolve (Some ''/usr'') (Some ''../bin/./sh'') (Some (replicate 16 NUL)) 16
     = (0, Some (''/bin/sh'' @ replicate 9 NUL))"
proof -
  have n: "path_names (Some ''/usr'') ''../bin/./sh'' = [''usr'', ''..'', ''bin'', ''.'', ''sh'']"
    by (simp add: path_names_def is_absolute_def directory_def components_def)
  have cs: "normal_names [''usr'', ''..'', ''bin'', ''.'', ''sh''] = [''bin'', ''sh'']"
    by (simp add: normal_names_def norm_step_def)
  have "input_fits (Some ''/usr'') ''../bin/./sh''"
    by (simp add: input_fits_def is_absolute_def directory_def)
  moreover have "depth_fits [''usr'', ''..'', ''bin'', ''.'', ''sh'']"
    by (simp add: depth_fits_def normal_names_def norm_step_def le_Suc_eq all_conj_distrib disj_imp
        take_Cons' numeral_eq_Suc)
  moreover have size: "(2 :: u64) \<le> 16" "unat (16 :: u64) \<le> length (replicate 16 NUL)"
    by simp_all
  moreover have r: "render [''bin'', ''sh''] = ''/bin/sh''"
    by (simp add: render_def)
  moreover have "NUL # drop (7 + 1) (replicate 16 NUL) = replicate 9 NUL"
    by (simp flip: replicate_Suc)
  ultimately show ?thesis
    using path_resolve_normal_form [OF size, of "Some ''/usr''" "''../bin/./sh''"] unfolding n cs by simp
qed

text \<open>
  Parent and last name of a normal path take it apart: for the normal form of a non-empty name
  list, \<open>path_basename\<close> is the last name and \<open>path_parent\<close> stores the normal form of the other
  names; the parent of the root is the root.
\<close>

theorem path_parent_basename:
  assumes good: "\<forall>c \<in> set cs. good_name c" and size: "2 \<le> out_size" "length (render cs) < unat out_size"
  shows "path_parent (render cs) out out_size = (0, buf_store 0 (render (butlast cs) @ [NUL]) out)
    \<and> (cs \<noteq> [] \<longrightarrow> path_basename (render cs) = last cs)"
proof (cases cs rule: rev_cases)
  case Nil
  then show ?thesis
    using size by (simp add: render_def path_parent_def flip: not_less)
next
  case (snoc ds c)
  define a where "a = concat (map (\<lambda>c. CHR ''/'' # c) ds)"
  have r: "render cs = a @ CHR ''/'' # c" and c: "CHR ''/'' \<notin> set c"
    using good by (simp_all add: snoc render_snoc a_def good_name_def)
  have n: "strip_name (render cs) (length (render cs)) = Suc (length a)"
    using strip_name_last [OF c, of "length c" a] by (simp add: r)
  have p: "strip_slashes (render cs) (Suc (length a)) = length (render ds) \<and> take (length (render ds)) (render cs) = render ds"
  proof (cases ds rule: rev_cases)
    case Nil
    then show ?thesis unfolding r by (simp add: a_def render_def)
  next
    case (snoc es d)
    have "good_name d"
      using good \<open>cs = ds @ [c]\<close> snoc by simp
    then have "d \<noteq> []" "last d \<noteq> CHR ''/''"
      unfolding good_name_def using last_in_set [of d] by metis+
    then have "a \<noteq> []" "last a \<noteq> CHR ''/''" "render ds = a"
      by (simp_all add: a_def snoc render_def)
    then show ?thesis
      using strip_slashes_last [of a c] by (simp add: r)
  qed
  have le: "length (render ds) \<le> length (render cs)"
    using arg_cong [OF conjunct2 [OF p], of length] unfolding length_take by linarith
  have ne: "length (render cs) \<noteq> 0" "length (render ds) \<noteq> 0"
    using render_hd [of ds] render_hd [of cs] by auto
  have ok: "\<not> out_size < 2"
    using size(1) by (simp only: not_less)
  have ok2: "\<not> unat out_size \<le> length (render ds)"
    using size(2) le by linarith
  have b: "render (butlast cs) = take (length (render ds)) (render cs)"
    using p unfolding snoc by simp
  have "path_parent (render cs) out out_size = (0, buf_store 0 (render (butlast cs) @ [NUL]) out)"
    unfolding path_parent_def Let_def n conjunct1 [OF p] b using ne ok ok2 by simp
  moreover have "path_basename (render cs) = c"
  proof -
    have "takeWhile (\<lambda>c. c \<noteq> CHR ''/'') (rev c @ CHR ''/'' # rev a) = rev c"
      using c by (subst takeWhile_append2) auto
    then show ?thesis
      unfolding path_basename_def r by simp
  qed
  ultimately show ?thesis
    by (simp add: snoc)
qed

theorem path_parent_basename_witness:
  "path_parent ''/bin/sh'' (replicate 16 NUL) 16 = (0, ''/bin'' @ replicate 12 NUL)
   \<and> path_basename ''/bin/sh'' = ''sh''"
proof -
  have g: "\<forall>c \<in> set [''bin'', ''sh'']. good_name c" and r: "render [''bin'', ''sh''] = ''/bin/sh''"
    by (simp_all add: good_name_def render_def)
  have p: "path_parent ''/bin/sh'' (replicate 16 NUL) 16 = (0, buf_store 0 (''/bin'' @ [NUL]) (replicate 16 NUL))
      \<and> path_basename ''/bin/sh'' = ''sh''"
    using path_parent_basename [OF g, of 16 "replicate 16 NUL", unfolded r] by (simp add: render_def)
  have "replicate 12 NUL = NUL # replicate 11 NUL"
    by (simp flip: replicate_Suc)
  then show ?thesis
    using p by (simp add: buf_store_def)
qed

end
