(* ===== verification/Net_Endian.thy ===== *)
theory Net_Endian
  imports Prelude
begin

text \<open>
  Byte order and addresses: \<open>kernel/net/net_endian.h\<close> and \<open>kernel/net/net_addr.h\<close>.

  A packet is a list of bytes and a pointer into it is the list from that byte on.  The
  unaligned big-endian accessors are written as in the source; the native (little-endian)
  accesses the stack makes to \<open>u16\<close> and \<open>u32\<close> members of a packed header are the \<open>host\<close>
  functions.  The locale \<open>wire_field\<close> is the contract of a fixed-width field: reading what
  was written gives the value back, whatever follows it.
\<close>

subsection \<open>Byte order (net_endian.h)\<close>

definition net_bswap16 :: "u16 \<Rightarrow> u16" where
  "net_bswap16 v = (push_bit 8 v OR drop_bit 8 v)"

definition net_bswap32 :: "u32 \<Rightarrow> u32" where
  "net_bswap32 v =
     (push_bit 24 (v AND 0x000000FF) OR push_bit 8 (v AND 0x0000FF00)
      OR drop_bit 8 (v AND 0x00FF0000) OR drop_bit 24 (v AND 0xFF000000))"

definition net_htons :: "u16 \<Rightarrow> u16" where
  "net_htons v = net_bswap16 v"

definition net_ntohs :: "u16 \<Rightarrow> u16" where
  "net_ntohs v = net_bswap16 v"

definition net_htonl :: "u32 \<Rightarrow> u32" where
  "net_htonl v = net_bswap32 v"

definition net_ntohl :: "u32 \<Rightarrow> u32" where
  "net_ntohl v = net_bswap32 v"

definition net_get_be16 :: "u8 list \<Rightarrow> u16" where
  "net_get_be16 b = (push_bit 8 (ucast (b ! 0)) OR ucast (b ! 1))"

definition net_get_be32 :: "u8 list \<Rightarrow> u32" where
  "net_get_be32 b =
     (push_bit 24 (ucast (b ! 0)) OR push_bit 16 (ucast (b ! 1))
      OR push_bit 8 (ucast (b ! 2)) OR ucast (b ! 3))"

definition net_put_be16 :: "u16 \<Rightarrow> u8 list" where
  "net_put_be16 v = [ucast (drop_bit 8 v), ucast v]"

definition net_put_be32 :: "u32 \<Rightarrow> u8 list" where
  "net_put_be32 v =
     [ucast (drop_bit 24 v), ucast (drop_bit 16 v), ucast (drop_bit 8 v), ucast v]"

text \<open>The native accesses of the target, which is little-endian.\<close>

definition host_get16 :: "u8 list \<Rightarrow> u16" where
  "host_get16 b = (ucast (b ! 0) OR push_bit 8 (ucast (b ! 1)))"

definition host_put16 :: "u16 \<Rightarrow> u8 list" where
  "host_put16 v = [ucast v, ucast (drop_bit 8 v)]"

definition host_get32 :: "u8 list \<Rightarrow> u32" where
  "host_get32 b =
     (ucast (b ! 0) OR push_bit 8 (ucast (b ! 1))
      OR push_bit 16 (ucast (b ! 2)) OR push_bit 24 (ucast (b ! 3)))"

definition host_put32 :: "u32 \<Rightarrow> u8 list" where
  "host_put32 v =
     [ucast v, ucast (drop_bit 8 v), ucast (drop_bit 16 v), ucast (drop_bit 24 v)]"

subsection \<open>IPv4 addresses (net_addr.h)\<close>

record ip_addr =
  be :: u32

definition ip_make :: "u8 \<Rightarrow> u8 \<Rightarrow> u8 \<Rightarrow> u8 \<Rightarrow> ip_addr" where
  "ip_make a b c d =
     \<lparr> be = ucast a OR push_bit 8 (ucast b) OR push_bit 16 (ucast c) OR push_bit 24 (ucast d) \<rparr>"

definition ip_from_host :: "u32 \<Rightarrow> ip_addr" where
  "ip_from_host host = \<lparr> be = net_htonl host \<rparr>"

definition ip_to_host :: "ip_addr \<Rightarrow> u32" where
  "ip_to_host ip = net_ntohl (be ip)"

definition ip_equal :: "ip_addr \<Rightarrow> ip_addr \<Rightarrow> bool" where
  "ip_equal a b = (be a = be b)"

definition ip_is_zero :: "ip_addr \<Rightarrow> bool" where
  "ip_is_zero a = (be a = 0)"

definition IP_ADDR_ANY :: ip_addr where
  "IP_ADDR_ANY = ip_from_host 0"

definition IP_ADDR_BROADCAST :: ip_addr where
  "IP_ADDR_BROADCAST = ip_from_host 0xFFFFFFFF"

definition IP_ADDR_LOOPBACK :: ip_addr where
  "IP_ADDR_LOOPBACK = ip_from_host 0x7F000001"

definition ip_is_broadcast :: "ip_addr \<Rightarrow> bool" where
  "ip_is_broadcast a = (be a = 0xFFFFFFFF)"

definition ip_same_subnet :: "ip_addr \<Rightarrow> ip_addr \<Rightarrow> ip_addr \<Rightarrow> bool" where
  "ip_same_subnet a net nmask = (be a AND be nmask = be net AND be nmask)"

subsection \<open>Fields of a packed header\<close>

locale wire_field =
  fixes enc :: "'v \<Rightarrow> u8 list"
    and dec :: "u8 list \<Rightarrow> 'v"
    and width :: nat
  assumes enc_length: "length (enc v) = width"
    and dec_enc: "dec (enc v @ rest) = v"
begin

lemma read_at: "length pre = n \<Longrightarrow> dec (drop n (pre @ enc v @ rest)) = v"
  by (simp add: dec_enc)

lemma enc_inject: "enc v @ r = enc w @ s \<longleftrightarrow> v = w \<and> r = s"
proof
  assume eq: "enc v @ r = enc w @ s"
  then have "v = w"
    using dec_enc [of v r] dec_enc [of w s] by simp
  then show "v = w \<and> r = s"
    using eq by simp
qed simp

end

lemma bit_shift_back: "bit v (k + (n - k)) = (if k \<le> n then bit v n else bit v k)"
  by simp

lemma be16_bytes: "net_get_be16 (net_put_be16 v @ r) = v"
  by (rule bit_word_eqI) (auto simp: net_get_be16_def net_put_be16_def bit_simps)

lemma be32_bytes: "net_get_be32 (net_put_be32 v @ r) = v"
  by (rule bit_word_eqI) (auto simp: net_get_be32_def net_put_be32_def bit_simps bit_shift_back)

lemma host16_bytes: "host_get16 (host_put16 v @ r) = v"
  by (rule bit_word_eqI) (auto simp: host_get16_def host_put16_def bit_simps)

lemma host32_bytes: "host_get32 (host_put32 v @ r) = v"
  by (rule bit_word_eqI) (auto simp: host_get32_def host_put32_def bit_simps bit_shift_back)

interpretation be16: wire_field net_put_be16 net_get_be16 2
  by unfold_locales (simp_all add: be16_bytes, simp add: net_put_be16_def)

interpretation be32: wire_field net_put_be32 net_get_be32 4
  by unfold_locales (simp_all add: be32_bytes, simp add: net_put_be32_def)

interpretation host16: wire_field host_put16 host_get16 2
  by unfold_locales (simp_all add: host16_bytes, simp add: host_put16_def)

interpretation host32: wire_field host_put32 host_get32 4
  by unfold_locales (simp_all add: host32_bytes, simp add: host_put32_def)

lemmas field_simps_wire =
  be16.enc_length be32.enc_length host16.enc_length host32.enc_length
  be16.dec_enc be32.dec_enc host16.dec_enc host32.dec_enc

lemma bswap16_involutive [simp]: "net_bswap16 (net_bswap16 v) = v"
  by (rule bit_word_eqI) (auto simp: net_bswap16_def bit_simps)

lemma and_byte_masks:
  "(v :: u32) AND 0x000000FF = take_bit 8 v"
  "(v :: u32) AND 0x0000FF00 = push_bit 8 (take_bit 8 (drop_bit 8 v))"
  "(v :: u32) AND 0x00FF0000 = push_bit 16 (take_bit 8 (drop_bit 16 v))"
  "(v :: u32) AND 0xFF000000 = push_bit 24 (take_bit 8 (drop_bit 24 v))"
proof -
  have m: "(0xFF :: u32) = mask 8" "(0xFF00 :: u32) = push_bit 8 (mask 8)"
    "(0xFF0000 :: u32) = push_bit 16 (mask 8)" "(0xFF000000 :: u32) = push_bit 24 (mask 8)"
    by (simp_all add: mask_eq_exp_minus_1 push_bit_eq_mult)
  show "(v :: u32) AND 0x000000FF = take_bit 8 v"
    unfolding m by (simp add: take_bit_eq_mask)
  show "(v :: u32) AND 0x0000FF00 = push_bit 8 (take_bit 8 (drop_bit 8 v))"
    unfolding m by (rule bit_word_eqI) (auto simp: bit_simps)
  show "(v :: u32) AND 0x00FF0000 = push_bit 16 (take_bit 8 (drop_bit 16 v))"
    unfolding m by (rule bit_word_eqI) (auto simp: bit_simps)
  show "(v :: u32) AND 0xFF000000 = push_bit 24 (take_bit 8 (drop_bit 24 v))"
    unfolding m by (rule bit_word_eqI) (auto simp: bit_simps)
qed

lemma bit_bswap32:
  assumes "n < 32"
  shows "bit (net_bswap32 v) n =
     bit v (if n < 8 then n + 24 else if n < 16 then n + 8 else if n < 24 then n - 8 else n - 24)"
proof -
  consider "n < 8" | "8 \<le> n" "n < 16" | "16 \<le> n" "n < 24" | "24 \<le> n"
    by linarith
  then show ?thesis
    using assms
    by cases (auto simp: net_bswap32_def and_byte_masks bit_simps add.commute)
qed

lemma bswap32_involutive [simp]: "net_bswap32 (net_bswap32 v) = v"
proof (rule bit_word_eqI)
  fix n assume "n < LENGTH(32)"
  then have n: "n < 32" by simp
  consider "n < 8" | "8 \<le> n" "n < 16" | "16 \<le> n" "n < 24" | "24 \<le> n"
    by linarith
  then show "bit (net_bswap32 (net_bswap32 v)) n = bit v n"
    using n by cases (auto simp: bit_bswap32)
qed

lemma ip_host_roundtrip [simp]: "ip_from_host (ip_to_host ip) = ip"
  by (simp add: ip_from_host_def ip_to_host_def net_htonl_def net_ntohl_def)

lemma ip_equal_iff [simp]: "ip_equal a b \<longleftrightarrow> a = b"
  by (cases a, cases b) (simp add: ip_equal_def)

text \<open>The two ways the stack writes an address into a packet produce the same bytes.\<close>

lemma be32_to_host: "net_put_be32 (ip_to_host ip) = host_put32 (be ip)"
proof -
  have "(ucast (drop_bit 24 (net_bswap32 x)) :: u8) = ucast x"
    "(ucast (drop_bit 16 (net_bswap32 x)) :: u8) = ucast (drop_bit 8 x)"
    "(ucast (drop_bit 8 (net_bswap32 x)) :: u8) = ucast (drop_bit 16 x)"
    "(ucast (net_bswap32 x) :: u8) = ucast (drop_bit 24 x)" for x
    by (rule bit_word_eqI; simp add: bit_simps bit_bswap32 add.commute)+
  then show ?thesis
    by (simp add: net_put_be32_def host_put32_def ip_to_host_def net_ntohl_def)
qed

lemma ip_any_be [simp]: "be IP_ADDR_ANY = 0"
  by (simp add: IP_ADDR_ANY_def ip_from_host_def net_htonl_def net_bswap32_def)

lemma ip_is_zero_iff: "ip_is_zero a \<longleftrightarrow> a = IP_ADDR_ANY"
  unfolding ip_is_zero_def ip_equal_iff [symmetric] ip_equal_def by simp

lemma ip_loopback_make: "IP_ADDR_LOOPBACK = ip_make 127 0 0 1"
  by (simp add: IP_ADDR_LOOPBACK_def ip_from_host_def net_htonl_def net_bswap32_def ip_make_def
      push_bit_eq_mult drop_bit_eq_div)

end
