(* ===== verification/Checksum.thy ===== *)
theory Checksum
  imports Net_Endian
begin

text \<open>
  The internet checksum of RFC 1071: \<open>kernel/net/checksum.c\<close>.

  The accumulator is the 32-bit word of the source.  The specification is the natural number
  \<open>word_sum\<close>, the sum of the big-endian 16-bit words of the data; the lemmas show that the
  accumulator holds it while it does not wrap, that the folding loop keeps it modulo 65535 and
  ends, and hence which packets pass the test \<open>checksum == 0\<close> of the receivers.
\<close>

fun net_csum_partial :: "u8 list \<Rightarrow> u32 \<Rightarrow> u32" where
  "net_csum_partial (p0 # p1 # p) acc =
     net_csum_partial p (acc + (push_bit 8 (ucast p0) OR ucast p1))"
| "net_csum_partial [p0] acc = acc + push_bit 8 (ucast p0)"
| "net_csum_partial [] acc = acc"

lemma fold_step_unat:
  "unat ((s AND 0xFFFF) + drop_bit 16 (s :: u32)) = unat s mod 65536 + unat s div 65536"
proof -
  have m: "(0xFFFF :: u32) = mask 16"
    by (simp add: mask_eq_exp_minus_1)
  have lo: "unat (s AND 0xFFFF) = unat s mod 65536"
    unfolding m unat_and_mask by simp
  have hi: "unat (drop_bit 16 s) = unat s div 65536"
    by (simp add: unat_shift_right)
  have "unat s < 4294967296"
    using unat_lt_pow [of s] by simp
  then have "unat s mod 65536 + unat s div 65536 < 4294967296"
    by linarith
  then show ?thesis
    using unat_plus_no_wrap [of "s AND 0xFFFF" "drop_bit 16 s"] lo hi by simp
qed

lemma drop_16_zero: "drop_bit 16 (s :: u32) = 0 \<longleftrightarrow> unat s < 65536"
proof -
  have "drop_bit 16 s = 0 \<longleftrightarrow> unat (drop_bit 16 s) = 0"
    by (simp add: unat_eq_zero)
  also have "\<dots> \<longleftrightarrow> unat s div 65536 = 0"
    by (simp add: unat_shift_right)
  finally show ?thesis by (simp add: div_eq_0_iff)
qed

lemma fold_step_less: "65536 \<le> (n :: nat) \<Longrightarrow> n mod 65536 + n div 65536 < n"
proof -
  assume "65536 \<le> n"
  then have "1 \<le> n div 65536"
    by (simp add: Suc_le_eq div_greater_zero_iff)
  then show ?thesis
    using div_mult_mod_eq [of n 65536] by linarith
qed

function csum_fold_loop :: "u32 \<Rightarrow> u32" where
  "csum_fold_loop acc =
     (if drop_bit 16 acc \<noteq> 0 then csum_fold_loop ((acc AND 0xFFFF) + drop_bit 16 acc) else acc)"
  by pat_completeness auto
termination
proof (relation "measure unat")
  fix acc :: u32
  assume "drop_bit 16 acc \<noteq> 0"
  then have "65536 \<le> unat acc"
    using drop_16_zero [of acc] by linarith
  then show "((acc AND 0xFFFF) + drop_bit 16 acc, acc) \<in> measure unat"
    using fold_step_less [of "unat acc"] by (simp only: in_measure fold_step_unat)
qed simp

declare csum_fold_loop.simps [simp del]

definition net_csum_fold :: "u32 \<Rightarrow> u16" where
  "net_csum_fold acc = net_htons (ucast (NOT (csum_fold_loop acc)))"

definition net_checksum :: "u8 list \<Rightarrow> u16" where
  "net_checksum data = net_csum_fold (net_csum_partial data 0)"

definition net_pseudo_header_sum :: "u32 \<Rightarrow> u32 \<Rightarrow> u8 \<Rightarrow> u16 \<Rightarrow> u32" where
  "net_pseudo_header_sum src_be dst_be proto transport_len =
     (let acc = net_csum_partial (host_put32 src_be) 0;
          acc = net_csum_partial (host_put32 dst_be) acc
      in acc + ucast proto + ucast transport_len)"

definition net_transport_checksum :: "u32 \<Rightarrow> u32 \<Rightarrow> u8 \<Rightarrow> u8 list \<Rightarrow> u16 \<Rightarrow> u16" where
  "net_transport_checksum src_be dst_be proto l4 l4_len =
     net_csum_fold (net_csum_partial (take (unat l4_len) l4)
       (net_pseudo_header_sum src_be dst_be proto l4_len))"

subsection \<open>The sum the accumulator stands for\<close>

fun word_sum :: "u8 list \<Rightarrow> nat" where
  "word_sum (p0 # p1 # p) = 256 * unat p0 + unat p1 + word_sum p"
| "word_sum [p0] = 256 * unat p0"
| "word_sum [] = 0"

lemma hi_lo_word: "push_bit 8 (ucast (a :: u8)) OR ucast (b :: u8) = (of_nat (256 * unat a + unat b) :: u32)"
proof -
  have "push_bit 8 (ucast a :: u32) + ucast b = push_bit 8 (ucast a) OR ucast b"
    by (rule disjunctive_add) (auto simp: bit_simps dest: bit_imp_le_length)
  then show ?thesis
    by (simp add: push_bit_eq_mult mult.commute)
qed

lemma net_csum_partial_sum: "net_csum_partial data s = s + of_nat (word_sum data)"
proof (induction data s rule: net_csum_partial.induct)
  case (1 p0 p1 p s)
  then show ?case
    by (simp only: net_csum_partial.simps word_sum.simps hi_lo_word) (simp add: algebra_simps)
next
  case (2 p0 s)
  then show ?case
    by (simp add: push_bit_eq_mult mult.commute)
qed simp

lemma word_sum_append: "even (length p) \<Longrightarrow> word_sum (p @ q) = word_sum p + word_sum q"
  by (induction p rule: word_sum.induct) auto

lemma word_sum_bound: "2 * word_sum data \<le> 65535 * (length data + 1)"
proof (induction data rule: word_sum.induct)
  case (1 p0 p1 p)
  then show ?case
    using unat_lt_pow [of p0] unat_lt_pow [of p1] by simp
next
  case (2 p0)
  then show ?case
    using unat_lt_pow [of p0] by simp
qed simp

lemma word_sum_be16 [simp]: "word_sum (net_put_be16 v) = unat v"
proof -
  have hi: "unat (ucast (drop_bit 8 v) :: u8) = unat v div 256"
    using unat_lt_pow [of v]
    by (simp add: unsigned_ucast_eq take_bit_eq_mod unat_shift_right)
  have lo: "unat (ucast v :: u8) = unat v mod 256"
    by (simp add: unsigned_ucast_eq take_bit_eq_mod)
  show ?thesis
    by (simp only: net_put_be16_def word_sum.simps hi lo) simp
qed

lemma host_put16_htons: "host_put16 (net_htons v) = net_put_be16 v"
proof -
  have "(ucast (net_bswap16 v) :: u8) = ucast (drop_bit 8 v)"
    "(ucast (drop_bit 8 (net_bswap16 v)) :: u8) = ucast v"
    by (rule bit_word_eqI; auto simp: net_bswap16_def bit_simps)+
  then show ?thesis
    by (simp add: host_put16_def net_put_be16_def net_htons_def)
qed

subsection \<open>The fold\<close>

lemma csum_fold_loop_mod:
  "unat (csum_fold_loop s) < 65536 \<and> unat (csum_fold_loop s) mod 65535 = unat s mod 65535
     \<and> (unat (csum_fold_loop s) = 0 \<longleftrightarrow> unat s = 0)"
proof (induction s rule: csum_fold_loop.induct)
  case (1 s)
  let ?t = "(s AND 0xFFFF) + drop_bit 16 s"
  show ?case
  proof (cases "drop_bit 16 s = 0")
    case True
    then show ?thesis
      by (simp add: csum_fold_loop.simps [of s] drop_16_zero)
  next
    case False
    have t: "unat ?t = unat s mod 65536 + unat s div 65536"
      by (rule fold_step_unat)
    have "unat s = 65535 * (unat s div 65536) + unat ?t"
      unfolding t using div_mult_mod_eq [of "unat s" 65536] by linarith
    then have m: "unat ?t mod 65535 = unat s mod 65535"
      by (metis mod_mult_self4)
    have z: "unat ?t = 0 \<longleftrightarrow> unat s = 0"
      unfolding t using div_mult_mod_eq [of "unat s" 65536] by linarith
    have "csum_fold_loop s = csum_fold_loop ?t"
      using False by (simp add: csum_fold_loop.simps [of s])
    then show ?thesis
      using "1.IH" [OF False] m z by simp
  qed
qed

text \<open>The value the fold leaves is the residue in the range 1 to 65535, or 0 for the sum 0.\<close>

definition folded :: "nat \<Rightarrow> nat" where
  "folded n = (if n = 0 then 0 else (n - 1) mod 65535 + 1)"

lemma folded_eqI:
  assumes "r < 65536" and "r mod 65535 = n mod 65535" and "r = 0 \<longleftrightarrow> n = 0"
  shows "r = folded n"
proof (cases "n = 0")
  case True
  then show ?thesis using assms by (simp add: folded_def)
next
  case False
  then obtain k where k: "n = Suc k"
    using not0_implies_Suc by blast
  then obtain j where j: "r = Suc j"
    using assms(3) not0_implies_Suc by blast
  have "j < 65535"
    using assms(1) j by simp
  moreover have "j mod 65535 = k mod 65535"
    using assms(2) unfolding j k nat_mod_eq_iff by simp
  ultimately show ?thesis
    using k j by (simp add: folded_def)
qed

lemma csum_fold_loop_folded: "unat (csum_fold_loop s) = folded (unat s)"
  using csum_fold_loop_mod [of s] by (intro folded_eqI) auto

lemma folded_bound: "folded n \<le> 65535"
proof (cases "n = 0")
  case False
  have "(n - 1) mod 65535 < 65535"
    by simp
  then have "(n - 1) mod 65535 + 1 \<le> 65535"
    by linarith
  then show ?thesis
    unfolding folded_def if_not_P [OF False] .
qed (simp add: folded_def)

lemma net_csum_fold_value: "net_csum_fold s = net_htons (of_nat (65535 - folded (unat s)))"
proof -
  let ?f = "csum_fold_loop s"
  have lt: "unat ?f < 65536"
    using csum_fold_loop_mod by blast
  have "unat (ucast ?f :: u16) = unat ?f"
    using lt by (simp add: unsigned_ucast_eq take_bit_eq_mod)
  moreover have "(ucast (NOT ?f) :: u16) = NOT (ucast ?f)"
    by (rule bit_word_eqI) (auto simp: bit_simps)
  moreover have "unat (NOT (w :: u16)) = 65535 - unat w" for w
  proof -
    have "NOT w = - 1 - w"
      by (simp add: not_eq_complement)
    then show ?thesis
      by (simp add: unat_minus_no_wrap unsigned_minus_1_eq_mask mask_eq_exp_minus_1)
  qed
  ultimately have "unat (ucast (NOT ?f) :: u16) = 65535 - folded (unat s)"
    by (simp add: csum_fold_loop_folded)
  then have "(ucast (NOT ?f) :: u16) = of_nat (65535 - folded (unat s))"
    by (intro of_nat_unat_eq [symmetric]) (rule sym)
  then show ?thesis
    by (simp add: net_csum_fold_def)
qed

lemma htons_zero_iff [simp]: "net_htons v = 0 \<longleftrightarrow> v = 0"
proof
  assume "net_htons v = 0"
  then have "net_bswap16 (net_bswap16 v) = net_bswap16 0"
    by (simp add: net_htons_def)
  then show "v = 0"
    by (simp add: net_bswap16_def [of 0])
qed (simp add: net_htons_def net_bswap16_def)

lemma folded_full_iff: "folded n = 65535 \<longleftrightarrow> n \<noteq> 0 \<and> 65535 dvd n"
proof (cases n)
  case 0
  then show ?thesis by (simp add: folded_def)
next
  case (Suc k)
  have "65535 dvd Suc k \<longleftrightarrow> k mod 65535 = 65534"
    unfolding dvd_eq_mod_eq_0 mod_Suc by simp
  then show ?thesis
    using Suc by (simp add: folded_def)
qed

lemma net_csum_fold_zero_iff:
  assumes "n < 2 ^ 32"
  shows "net_csum_fold (of_nat n) = 0 \<longleftrightarrow> n \<noteq> 0 \<and> 65535 dvd n"
proof -
  have "unat (of_nat n :: u32) = n"
    using assms by simp
  then have "net_csum_fold (of_nat n) = 0 \<longleftrightarrow> (of_nat (65535 - folded n) :: u16) = of_nat 0"
    by (simp add: net_csum_fold_value)
  also have "\<dots> \<longleftrightarrow> 65535 - folded n = 0"
    by (rule of_nat_eq_iff_word) simp_all
  also have "\<dots> \<longleftrightarrow> folded n = 65535"
    using folded_bound [of n] by linarith
  finally show ?thesis
    by (simp only: folded_full_iff)
qed

text \<open>Writing the folded value into a zeroed field makes the whole sum a multiple of 65535.\<close>

lemma word_sum_stored:
  assumes "n < 2 ^ 32"
  shows "word_sum (host_put16 (net_csum_fold (of_nat n)) @ post) = 65535 - folded n + word_sum post"
proof -
  have u: "unat (of_nat n :: u32) = n"
    using assms by simp
  have "word_sum (host_put16 (net_csum_fold (of_nat n))) = 65535 - folded n"
    by (simp add: net_csum_fold_value u host_put16_htons)
  then show ?thesis
    by (simp add: word_sum_append host16.enc_length)
qed

lemma folded_dvd: "65535 dvd n + (65535 - folded n)" and folded_pos: "n + (65535 - folded n) \<noteq> 0"
proof -
  show "65535 dvd n + (65535 - folded n)"
  proof (cases n)
    case (Suc k)
    define q r where "q = k div 65535" and "r = k mod 65535"
    have k: "k = 65535 * q + r" and r: "r < 65535"
      by (simp_all add: q_def r_def)
    have "Suc k + (65535 - (r + 1)) = 65535 * (q + 1)"
      using k r by simp
    then have "65535 dvd Suc k + (65535 - (r + 1))"
      by (simp only: dvd_triv_left)
    then show ?thesis
      by (simp add: Suc folded_def r_def)
  qed (simp add: folded_def)
  show "n + (65535 - folded n) \<noteq> 0"
    by (cases n) (simp_all add: folded_def)
qed

lemma csum_store_verifies:
  assumes even: "even (length pre)"
    and small: "base + word_sum pre + word_sum post + 65535 < 2 ^ 32"
  defines "c \<equiv> net_csum_fold (of_nat (base + word_sum (pre @ [0, 0] @ post)))"
  shows "net_csum_fold (of_nat (base + word_sum (pre @ host_put16 c @ post))) = 0"
proof -
  define n where "n = base + word_sum pre + word_sum post"
  have n: "base + word_sum (pre @ [0, 0] @ post) = n"
    using even by (simp add: word_sum_append n_def)
  have eq: "base + word_sum (pre @ host_put16 c @ post) = n + (65535 - folded n)"
  proof -
    have "n < 2 ^ 32"
      using small by (simp add: n_def)
    then have "word_sum (host_put16 c @ post) = 65535 - folded n + word_sum post"
      unfolding c_def n by (rule word_sum_stored)
    then show ?thesis
      using even by (simp only: word_sum_append) (simp add: n_def)
  qed
  have "n + (65535 - folded n) < 2 ^ 32"
    using small by (simp add: n_def)
  then show ?thesis
    unfolding eq using net_csum_fold_zero_iff folded_dvd [of n] folded_pos [of n] by blast
qed

lemma word_sum_small: "length data < 65538 \<Longrightarrow> word_sum data < 2200000000"
  using word_sum_bound [of data] by simp

definition pseudo_sum :: "u32 \<Rightarrow> u32 \<Rightarrow> u8 \<Rightarrow> u16 \<Rightarrow> nat" where
  "pseudo_sum src dst proto len =
     word_sum (host_put32 src) + word_sum (host_put32 dst) + unat proto + unat len"

lemma net_pseudo_header_sum_eq:
  "net_pseudo_header_sum src dst proto len = of_nat (pseudo_sum src dst proto len)"
  by (simp add: net_pseudo_header_sum_def net_csum_partial_sum pseudo_sum_def Let_def)

lemma net_transport_checksum_eq:
  assumes "length l4 < 65536"
  shows "net_transport_checksum src dst proto l4 (of_nat (length l4)) =
     net_csum_fold (of_nat (pseudo_sum src dst proto (of_nat (length l4)) + word_sum l4))"
  using assms by (simp add: net_transport_checksum_def net_pseudo_header_sum_eq net_csum_partial_sum)

lemma net_checksum_eq: "net_checksum data = net_csum_fold (of_nat (word_sum data))"
  by (simp add: net_checksum_def net_csum_partial_sum)

lemma pseudo_sum_bound: "pseudo_sum src dst proto len \<le> 400000"
proof -
  have "2 * word_sum (host_put32 x) \<le> 65535 * (4 + 1)" for x
    using word_sum_bound [of "host_put32 x"] by (simp add: host32.enc_length)
  from this [of src] this [of dst] show ?thesis
    using unat_lt_pow [of proto] unat_lt_pow [of len] by (simp add: pseudo_sum_def)
qed

lemma transport_store_verifies:
  assumes even: "even (length pre)" and len: "length pre + 2 + length post < 65536"
  defines "n \<equiv> of_nat (length pre + 2 + length post)"
  shows "net_transport_checksum src dst proto
           (pre @ host_put16 (net_transport_checksum src dst proto (pre @ [0, 0] @ post) n) @ post) n = 0"
proof -
  let ?b = "pseudo_sum src dst proto n"
  have sm: "?b + word_sum pre + word_sum post + 65535 < 2 ^ 32"
    using pseudo_sum_bound [of src dst proto n] word_sum_small [of "pre @ post"] len even
    by (simp add: word_sum_append)
  have eq: "net_transport_checksum src dst proto (pre @ x @ post) n
      = net_csum_fold (of_nat (?b + word_sum (pre @ x @ post)))" if "length x = 2" for x
    using net_transport_checksum_eq [of "pre @ x @ post" src dst proto] len that
    by (simp add: n_def add.commute add.left_commute)
  show ?thesis
    using csum_store_verifies [OF even sm] eq [of "[0, 0]"] eq [OF host16.enc_length] by simp
qed

lemma transport_ffff_verifies:
  assumes even: "even (length pre)" and len: "length pre + 2 + length post < 65536"
  defines "n \<equiv> of_nat (length pre + 2 + length post)"
  assumes zero: "net_transport_checksum src dst proto (pre @ [0, 0] @ post) n = 0"
  shows "net_transport_checksum src dst proto (pre @ host_put16 0xFFFF @ post) n = 0"
proof -
  let ?b = "pseudo_sum src dst proto n"
  define k where "k = ?b + word_sum pre + word_sum post"
  have sm: "k + 65535 < 2 ^ 32"
    using pseudo_sum_bound [of src dst proto n] word_sum_small [of "pre @ post"] len even
    by (simp add: word_sum_append k_def)
  have eq: "net_transport_checksum src dst proto (pre @ x @ post) n
      = net_csum_fold (of_nat (?b + word_sum (pre @ x @ post)))" if "length x = 2" for x
    using net_transport_checksum_eq [of "pre @ x @ post" src dst proto] len that
    by (simp add: n_def add.commute add.left_commute)
  have "?b + word_sum (pre @ [0, 0] @ post) = k"
    using even by (simp add: word_sum_append k_def)
  then have "net_csum_fold (of_nat k) = 0"
    using zero eq [of "[0, 0]"] by simp
  then have "k \<noteq> 0 \<and> 65535 dvd k"
    using net_csum_fold_zero_iff [of k] sm by simp
  then have "net_csum_fold (of_nat (k + 65535)) = 0"
    using net_csum_fold_zero_iff [OF sm] by simp
  moreover have "host_put16 0xFFFF = [0xFF, 0xFF]"
    by (simp add: host_put16_def drop_bit_eq_div)
  then have "?b + word_sum (pre @ host_put16 0xFFFF @ post) = k + 65535"
    using even by (simp add: word_sum_append k_def)
  ultimately show ?thesis
    unfolding eq [OF host16.enc_length] by simp
qed

subsection \<open>What the receivers check\<close>

text \<open>
  C15. The internet checksum does what its users rely on.  A receiver's test \<open>checksum == 0\<close>
  holds exactly when the sum of the 16-bit words is a positive multiple of 65535; a sender that
  zeroes the field, computes the checksum and stores it produces data that passes, for a header
  alone and with the pseudo-header, wherever the field is (at an even offset); and the
  substitution of 0xFFFF for 0 that UDP makes keeps the datagram valid.
\<close>

theorem net_checksum_correct:
  assumes "even (length pre)" and "length pre + length post + 2 < 65536"
  shows "(net_checksum data = 0 \<longleftrightarrow> word_sum data mod 2 ^ 32 \<noteq> 0 \<and> 65535 dvd word_sum data mod 2 ^ 32)
    \<and> (net_checksum (pre @ host_put16 (net_checksum (pre @ [0, 0] @ post)) @ post) = 0)
    \<and> (let n = of_nat (length pre + 2 + length post);
             c = net_transport_checksum src dst proto (pre @ [0, 0] @ post) n
         in net_transport_checksum src dst proto (pre @ host_put16 c @ post) n = 0
            \<and> (c = 0 \<longrightarrow> net_transport_checksum src dst proto (pre @ host_put16 0xFFFF @ post) n = 0))"
proof -
  have "(of_nat (word_sum data mod 2 ^ 32) :: u32) = of_nat (word_sum data)"
    by (simp add: word_of_nat_eq_iff take_bit_eq_mod)
  then have c1: "net_checksum data = 0 \<longleftrightarrow> word_sum data mod 2 ^ 32 \<noteq> 0 \<and> 65535 dvd word_sum data mod 2 ^ 32"
    using net_csum_fold_zero_iff [of "word_sum data mod 2 ^ 32"] by (simp add: net_checksum_eq)
  have "word_sum pre + word_sum post + 65535 < 2 ^ 32"
    using word_sum_small [of "pre @ post"] assms by (simp add: word_sum_append)
  then have c2: "net_checksum (pre @ host_put16 (net_checksum (pre @ [0, 0] @ post)) @ post) = 0"
    using csum_store_verifies [of pre 0 post] assms(1) by (simp add: net_checksum_eq)
  have len: "length pre + 2 + length post < 65536"
    using assms(2) by simp
  have c3: "let n = of_nat (length pre + 2 + length post);
             c = net_transport_checksum src dst proto (pre @ [0, 0] @ post) n
         in net_transport_checksum src dst proto (pre @ host_put16 c @ post) n = 0
            \<and> (c = 0 \<longrightarrow> net_transport_checksum src dst proto (pre @ host_put16 0xFFFF @ post) n = 0)"
    unfolding Let_def
    using transport_store_verifies [OF assms(1) len] transport_ffff_verifies [OF assms(1) len] by blast
  show ?thesis
    by (rule conjI [OF c1 conjI [OF c2 c3]])
qed

theorem net_checksum_correct_witness:
  "even (length [0x45, 0, 0, 20 :: u8])
     \<and> length [0x45, 0, 0, 20 :: u8] + length [192, 168, 0 :: u8] + 2 < 65536
     \<and> net_checksum ([0x45, 0, 0, 20] @ host_put16 (net_checksum ([0x45, 0, 0, 20] @ [0, 0] @ [192, 168, 0]))
          @ [192, 168, 0]) = 0
     \<and> net_transport_checksum 1 2 17 ([0x45, 0, 0, 20] @ host_put16
          (net_transport_checksum 1 2 17 ([0x45, 0, 0, 20] @ [0, 0] @ [192, 168, 0]) (of_nat 9))
          @ [192, 168, 0]) (of_nat 9) = 0"
  using net_checksum_correct [of "[0x45, 0, 0, 20]" "[192, 168, 0]" "[]" 1 2 17]
  by (simp add: Let_def)

end
