(* ===== verification/Netbuf.thy ===== *)
theory Netbuf
  imports Checksum
begin

text \<open>
  Packet buffers and Ethernet framing: \<open>kernel/net/netbuf.c\<close>, \<open>kernel/net/netbuf.h\<close>,
  \<open>kernel/net/ethernet.c\<close> and \<open>kernel/net/ethernet.h\<close>.

  The backing region of a buffer is the list \<open>nb_mem\<close>; \<open>head\<close> is its first byte and \<open>end\<close> the
  position after its last, so the other pointers are offsets from \<open>head\<close>.  A difference of
  pointers cast to \<open>size_t\<close> is \<open>ptr_sub\<close>, which wraps.  The object allocator the buffers come
  from enters through its results: \<open>kmem_grant n\<close> is what the n-th allocation returns, \<open>None\<close>
  for a failure and otherwise the bytes found in the memory.  \<open>nb_live\<close> counts the buffers
  that have been allocated and not freed.
\<close>

record kmem =
  kmem_grant :: "nat \<Rightarrow> (nat \<Rightarrow> u8) option"
  kmem_calls :: nat
  nb_live :: int

definition kmem_take :: "'a kmem_scheme \<Rightarrow> (nat \<Rightarrow> u8) option \<times> 'a kmem_scheme" where
  "kmem_take s = (kmem_grant s (kmem_calls s), s\<lparr>kmem_calls := kmem_calls s + 1\<rparr>)"


subsection \<open>The buffer (netbuf.h, netbuf.c)\<close>

definition NETBUF_DEFAULT_HEADROOM :: nat where
  "NETBUF_DEFAULT_HEADROOM = 64"

record netbuf =
  nb_mem :: "u8 list"
  nb_data :: nat
  nb_tail :: nat
  nb_eth :: "nat option"
  nb_net :: "nat option"
  nb_xport :: "nat option"
  nb_netif :: "nat option"

definition nb_end :: "netbuf \<Rightarrow> nat" where
  "nb_end nb = length (nb_mem nb)"

definition ptr_sub :: "nat \<Rightarrow> nat \<Rightarrow> nat" where
  "ptr_sub a b = nat ((int a - int b) mod 2 ^ 64)"

definition netbuf_len :: "netbuf \<Rightarrow> nat" where
  "netbuf_len nb = ptr_sub (nb_tail nb) (nb_data nb)"

definition netbuf_headroom :: "netbuf \<Rightarrow> nat" where
  "netbuf_headroom nb = ptr_sub (nb_data nb) 0"

definition netbuf_tailroom :: "netbuf \<Rightarrow> nat" where
  "netbuf_tailroom nb = ptr_sub (nb_end nb) (nb_tail nb)"

definition netbuf_alloc_headroom ::
    "nat \<Rightarrow> nat \<Rightarrow> 'a kmem_scheme \<Rightarrow> netbuf option \<times> 'a kmem_scheme" where
  "netbuf_alloc_headroom capacity headroom s =
     (let total = (capacity + headroom) mod 2 ^ 64;
          total = (if total = 0 then 1 else total)
      in case kmem_take s of
           (None, s) \<Rightarrow> (None, s)
         | (Some _, s) \<Rightarrow>
             (case kmem_take s of
                (None, s) \<Rightarrow> (None, s)
              | (Some c, s) \<Rightarrow>
                  (Some \<lparr> nb_mem = map c [0..<total], nb_data = headroom, nb_tail = headroom,
                          nb_eth = None, nb_net = None, nb_xport = None, nb_netif = None \<rparr>,
                   s\<lparr>nb_live := nb_live s + 1\<rparr>)))"

definition netbuf_alloc :: "nat \<Rightarrow> 'a kmem_scheme \<Rightarrow> netbuf option \<times> 'a kmem_scheme" where
  "netbuf_alloc capacity s = netbuf_alloc_headroom capacity NETBUF_DEFAULT_HEADROOM s"

definition netbuf_free :: "netbuf option \<Rightarrow> 'a kmem_scheme \<Rightarrow> 'a kmem_scheme" where
  "netbuf_free nb s = (case nb of None \<Rightarrow> s | Some _ \<Rightarrow> s\<lparr>nb_live := nb_live s - 1\<rparr>)"

definition netbuf_reserve :: "netbuf \<Rightarrow> nat \<Rightarrow> int \<times> netbuf" where
  "netbuf_reserve nb len =
     (if netbuf_len nb \<noteq> 0 then (- 1, nb)
      else if ptr_sub (nb_end nb) (nb_data nb) < len then (- 1, nb)
      else (0, nb\<lparr>nb_data := nb_data nb + len, nb_tail := nb_data nb + len\<rparr>))"

definition netbuf_push :: "netbuf \<Rightarrow> nat \<Rightarrow> netbuf option" where
  "netbuf_push nb len =
     (if netbuf_headroom nb < len then None else Some (nb\<lparr>nb_data := nb_data nb - len\<rparr>))"

definition netbuf_pull :: "netbuf \<Rightarrow> nat \<Rightarrow> netbuf option" where
  "netbuf_pull nb len =
     (if netbuf_len nb < len then None else Some (nb\<lparr>nb_data := nb_data nb + len\<rparr>))"

definition netbuf_put :: "netbuf \<Rightarrow> nat \<Rightarrow> (nat \<times> netbuf) option" where
  "netbuf_put nb len =
     (if netbuf_tailroom nb < len then None
      else Some (nb_tail nb, nb\<lparr>nb_tail := nb_tail nb + len\<rparr>))"

definition netbuf_trim :: "netbuf \<Rightarrow> nat \<Rightarrow> netbuf" where
  "netbuf_trim nb len = (if len < netbuf_len nb then nb\<lparr>nb_tail := nb_data nb + len\<rparr> else nb)"

definition netbuf_reset :: "netbuf \<Rightarrow> nat \<Rightarrow> netbuf" where
  "netbuf_reset nb headroom =
     (let headroom = (if nb_end nb < headroom then 0 else headroom)
      in nb\<lparr>nb_data := headroom, nb_tail := headroom,
            nb_eth := None, nb_net := None, nb_xport := None\<rparr>)"

text \<open>A store of bytes through a pointer into the region, and the bytes a pointer reads.\<close>

definition nb_write :: "nat \<Rightarrow> u8 list \<Rightarrow> netbuf \<Rightarrow> netbuf" where
  "nb_write p bs nb =
     nb\<lparr>nb_mem := take p (nb_mem nb) @ bs @ drop (p + length bs) (nb_mem nb)\<rparr>"

definition nb_at :: "netbuf \<Rightarrow> u8 list" where
  "nb_at nb = drop (nb_data nb) (nb_mem nb)"

definition netbuf_put_data :: "netbuf \<Rightarrow> u8 list \<Rightarrow> nat \<Rightarrow> (nat \<times> netbuf) option" where
  "netbuf_put_data nb src len =
     (case netbuf_put nb len of
        None \<Rightarrow> None
      | Some (dst, nb) \<Rightarrow> Some (dst, if len \<noteq> 0 then nb_write dst (take len src) nb else nb))"

subsection \<open>Ethernet framing (ethernet.h, ethernet.c)\<close>

definition ETH_ALEN :: nat where "ETH_ALEN = 6"

definition ETH_HLEN :: nat where "ETH_HLEN = 14"

definition ETH_P_IPV4 :: u16 where "ETH_P_IPV4 = 0x0800"

definition ETH_P_ARP :: u16 where "ETH_P_ARP = 0x0806"

record mac_addr =
  addr :: "u8 list"

definition eth_broadcast :: mac_addr where
  "eth_broadcast = \<lparr> addr = [0xFF, 0xFF, 0xFF, 0xFF, 0xFF, 0xFF] \<rparr>"

definition eth_zero :: mac_addr where
  "eth_zero = \<lparr> addr = [0, 0, 0, 0, 0, 0] \<rparr>"

definition mac_equal :: "mac_addr \<Rightarrow> mac_addr \<Rightarrow> bool" where
  "mac_equal a b = (scan_from (\<lambda>i. addr a ! i \<noteq> addr b ! i) 0 ETH_ALEN = None)"

definition mac_is_broadcast :: "mac_addr \<Rightarrow> bool" where
  "mac_is_broadcast m = mac_equal m eth_broadcast"

definition mac_is_multicast :: "mac_addr \<Rightarrow> bool" where
  "mac_is_multicast m = (addr m ! 0 AND 0x01 \<noteq> 0)"

definition mac_is_zero :: "mac_addr \<Rightarrow> bool" where
  "mac_is_zero m = mac_equal m eth_zero"

definition mac_copy :: "mac_addr \<Rightarrow> mac_addr" where
  "mac_copy src = \<lparr> addr = take ETH_ALEN (addr src) \<rparr>"

definition mac_make :: "u8 \<Rightarrow> u8 \<Rightarrow> u8 \<Rightarrow> u8 \<Rightarrow> u8 \<Rightarrow> u8 \<Rightarrow> mac_addr" where
  "mac_make a b c d e f = \<lparr> addr = [a, b, c, d, e, f] \<rparr>"

definition eth_header :: "mac_addr \<Rightarrow> mac_addr \<Rightarrow> u16 \<Rightarrow> u8 list" where
  "eth_header dst src ethertype =
     take ETH_ALEN (addr dst) @ take ETH_ALEN (addr src) @ net_put_be16 ethertype"

definition eth_build :: "netbuf \<Rightarrow> mac_addr \<Rightarrow> mac_addr \<Rightarrow> u16 \<Rightarrow> int \<times> netbuf" where
  "eth_build nb dst src ethertype =
     (case netbuf_push nb ETH_HLEN of
        None \<Rightarrow> (- 1, nb)
      | Some nb \<Rightarrow>
          (0, (nb_write (nb_data nb) (eth_header dst src ethertype) nb)\<lparr>nb_eth := Some (nb_data nb)\<rparr>))"

definition eth_parse :: "netbuf \<Rightarrow> (mac_addr \<times> mac_addr \<times> u16 \<times> netbuf) option" where
  "eth_parse nb =
     (if netbuf_len nb < ETH_HLEN then None
      else let eh = nb_at nb;
               nb = nb\<lparr>nb_eth := Some (nb_data nb)\<rparr>;
               dst = \<lparr> addr = take ETH_ALEN eh \<rparr>;
               src = \<lparr> addr = take ETH_ALEN (drop 6 eh) \<rparr>;
               ethertype = net_get_be16 (drop 12 eh)
           in Some (dst, src, ethertype,
                case netbuf_pull nb ETH_HLEN of None \<Rightarrow> nb | Some nb \<Rightarrow> nb))"

subsection \<open>Well-formed buffers\<close>

definition netbuf_wf :: "netbuf \<Rightarrow> bool" where
  "netbuf_wf nb \<longleftrightarrow> nb_data nb \<le> nb_tail nb \<and> nb_tail nb \<le> length (nb_mem nb)
     \<and> length (nb_mem nb) < 2 ^ 64"

definition nb_bytes :: "netbuf \<Rightarrow> u8 list" where
  "nb_bytes nb = take (nb_tail nb - nb_data nb) (nb_at nb)"

lemma ptr_sub_exact: "b \<le> a \<Longrightarrow> a < 2 ^ 64 \<Longrightarrow> ptr_sub a b = a - b"
  unfolding ptr_sub_def by simp

lemma wf_sizes:
  assumes "netbuf_wf nb"
  shows "netbuf_len nb = nb_tail nb - nb_data nb"
    and "netbuf_headroom nb = nb_data nb"
    and "netbuf_tailroom nb = length (nb_mem nb) - nb_tail nb"
    and "length (nb_bytes nb) = nb_tail nb - nb_data nb"
    and "ptr_sub (nb_end nb) (nb_data nb) = length (nb_mem nb) - nb_data nb"
  using assms
  by (auto simp: netbuf_wf_def netbuf_len_def netbuf_headroom_def netbuf_tailroom_def nb_end_def
      nb_bytes_def nb_at_def ptr_sub_exact)

lemma nb_write_wf [simp]:
  "p + length bs \<le> length (nb_mem nb) \<Longrightarrow> netbuf_wf (nb_write p bs nb) = netbuf_wf nb"
  by (simp add: netbuf_wf_def nb_write_def)

lemma nb_write_fields [simp]:
  "nb_data (nb_write p bs nb) = nb_data nb" "nb_tail (nb_write p bs nb) = nb_tail nb"
  by (simp_all add: nb_write_def)

lemma push_bytes:
  assumes "netbuf_wf nb" and "length h \<le> nb_data nb"
  shows "netbuf_push nb (length h) = Some (nb\<lparr>nb_data := nb_data nb - length h\<rparr>)"
    and "nb_bytes (nb_write (nb_data nb - length h) h (nb\<lparr>nb_data := nb_data nb - length h\<rparr>))
         = h @ nb_bytes nb"
  using assms
  by (auto simp: netbuf_push_def wf_sizes nb_bytes_def nb_at_def nb_write_def netbuf_wf_def)

lemma put_bytes:
  assumes "netbuf_wf nb" and "nb_tail nb + length b \<le> length (nb_mem nb)"
  shows "netbuf_put nb (length b) = Some (nb_tail nb, nb\<lparr>nb_tail := nb_tail nb + length b\<rparr>)"
    and "nb_bytes (nb_write (nb_tail nb) b (nb\<lparr>nb_tail := nb_tail nb + length b\<rparr>)) = nb_bytes nb @ b"
  using assms
  by (auto simp: netbuf_put_def wf_sizes nb_bytes_def nb_at_def nb_write_def netbuf_wf_def take_drop)

lemma pull_bytes:
  assumes "netbuf_wf nb" and "n \<le> length (nb_bytes nb)"
  shows "netbuf_pull nb n = Some (nb\<lparr>nb_data := nb_data nb + n\<rparr>)"
    and "nb_bytes (nb\<lparr>nb_data := nb_data nb + n\<rparr>) = drop n (nb_bytes nb)"
    and "netbuf_wf (nb\<lparr>nb_data := nb_data nb + n\<rparr>)"
  using assms
  by (auto simp: netbuf_pull_def wf_sizes nb_bytes_def nb_at_def netbuf_wf_def drop_take add.commute)

lemma trim_bytes:
  assumes "netbuf_wf nb"
  shows "netbuf_wf (netbuf_trim nb n)" and "nb_bytes (netbuf_trim nb n) = take n (nb_bytes nb)"
  using assms
  by (auto simp: netbuf_trim_def wf_sizes netbuf_wf_def nb_bytes_def nb_at_def min_def)

lemma nb_at_bytes: "nb_at nb = nb_bytes nb @ drop (nb_tail nb - nb_data nb) (nb_at nb)"
  by (simp add: nb_bytes_def)

lemma alloc_headroom_result:
  assumes "netbuf_alloc_headroom capacity headroom s = (Some nb, s')"
    and "capacity + headroom < 2 ^ 64"
  shows "netbuf_wf nb" and "nb_bytes nb = []" and "nb_data nb = headroom" and "nb_tail nb = headroom"
    and "capacity + headroom \<le> length (nb_mem nb)" and "nb_live s' = nb_live s + 1"
  using assms
  by (auto simp: netbuf_alloc_headroom_def kmem_take_def netbuf_wf_def nb_bytes_def nb_at_def Let_def
      split: option.splits if_splits)

lemma alloc_headroom_granted:
  assumes "kmem_grant s (kmem_calls s) \<noteq> None" and "kmem_grant s (kmem_calls s + 1) \<noteq> None"
  obtains nb where "netbuf_alloc_headroom capacity headroom s =
     (Some nb, s\<lparr>kmem_calls := kmem_calls s + 2, nb_live := nb_live s + 1\<rparr>)"
  using assms
  by (auto simp: netbuf_alloc_headroom_def kmem_take_def Let_def split: option.splits)

lemma netbuf_push_spec:
  assumes wf: "netbuf_wf nb"
  shows "case netbuf_push nb n of
           None \<Rightarrow> netbuf_headroom nb < n
         | Some nb' \<Rightarrow> netbuf_wf nb' \<and> netbuf_headroom nb' + n = netbuf_headroom nb
             \<and> netbuf_len nb' = n + netbuf_len nb \<and> drop n (nb_bytes nb') = nb_bytes nb"
proof (cases "netbuf_headroom nb < n")
  case False
  have wf': "netbuf_wf (nb\<lparr>nb_data := nb_data nb - n\<rparr>)"
    using wf by (auto simp: netbuf_wf_def)
  show ?thesis
    using False wf wf' by (simp add: netbuf_push_def wf_sizes)
      (auto simp: netbuf_wf_def nb_bytes_def nb_at_def drop_take)
qed (simp add: netbuf_push_def)

lemma netbuf_pull_spec:
  assumes wf: "netbuf_wf nb"
  shows "case netbuf_pull nb n of
           None \<Rightarrow> netbuf_len nb < n
         | Some nb' \<Rightarrow> netbuf_wf nb' \<and> nb_bytes nb' = drop n (nb_bytes nb)"
proof (cases "netbuf_len nb < n")
  case False
  then show ?thesis
    using pull_bytes [OF wf, of n] by (simp add: wf_sizes [OF wf])
qed (simp add: netbuf_pull_def)

lemma netbuf_put_data_spec:
  assumes wf: "netbuf_wf nb"
  shows "case netbuf_put_data nb src (length src) of
           None \<Rightarrow> netbuf_tailroom nb < length src
         | Some (p, nb') \<Rightarrow> netbuf_wf nb' \<and> p = nb_tail nb \<and> nb_bytes nb' = nb_bytes nb @ src"
proof (cases "netbuf_tailroom nb < length src")
  case True
  then show ?thesis by (simp add: netbuf_put_data_def netbuf_put_def)
next
  case False
  then have room: "nb_tail nb + length src \<le> length (nb_mem nb)"
    using wf wf_sizes(3) [OF wf] unfolding netbuf_wf_def by linarith
  have "netbuf_wf (nb\<lparr>nb_tail := nb_tail nb + length src\<rparr>)"
    using wf room by (simp add: netbuf_wf_def)
  then show ?thesis
    using put_bytes [OF wf room] room by (auto simp: netbuf_put_data_def)
qed

lemma netbuf_reserve_spec:
  assumes wf: "netbuf_wf nb"
  shows "netbuf_wf (snd (netbuf_reserve nb n)) \<and>
         (if netbuf_len nb = 0 \<and> n \<le> netbuf_tailroom nb
          then fst (netbuf_reserve nb n) = 0
            \<and> netbuf_headroom (snd (netbuf_reserve nb n)) = netbuf_headroom nb + n
          else netbuf_reserve nb n = (- 1, nb))"
proof (cases "netbuf_len nb = 0 \<and> n \<le> netbuf_tailroom nb")
  case True
  then have n: "nb_data nb + n \<le> length (nb_mem nb)"
    using wf wf_sizes(1,3) [OF wf] unfolding netbuf_wf_def by linarith
  have wf': "netbuf_wf (nb\<lparr>nb_data := nb_data nb + n, nb_tail := nb_data nb + n\<rparr>)"
    using wf n by (simp add: netbuf_wf_def)
  have "netbuf_reserve nb n = (0, nb\<lparr>nb_data := nb_data nb + n, nb_tail := nb_data nb + n\<rparr>)"
    using True n wf_sizes(5) [OF wf] by (simp add: netbuf_reserve_def)
  then show ?thesis
    using True wf' wf_sizes(2) [OF wf'] wf_sizes(2) [OF wf] by simp
next
  case False
  have "netbuf_reserve nb n = (- 1, nb)"
  proof (cases "netbuf_len nb = 0")
    case True
    then have "nb_tail nb = nb_data nb"
      using wf wf_sizes(1) [OF wf] unfolding netbuf_wf_def by linarith
    then show ?thesis
      using False True wf_sizes(3,5) [OF wf] by (simp add: netbuf_reserve_def)
  qed (simp add: netbuf_reserve_def)
  then show ?thesis
    using False wf by auto
qed

lemma netbuf_reset_spec:
  "netbuf_wf nb \<Longrightarrow> netbuf_wf (netbuf_reset nb n) \<and> nb_bytes (netbuf_reset nb n) = []"
  by (auto simp: netbuf_reset_def netbuf_wf_def nb_bytes_def nb_end_def Let_def)

lemma netbuf_alloc_spec:
  assumes small: "capacity + headroom < 2 ^ 64"
  shows "case netbuf_alloc_headroom capacity headroom s of
           (None, _) \<Rightarrow> kmem_grant s (kmem_calls s) = None \<or> kmem_grant s (kmem_calls s + 1) = None
         | (Some new, s') \<Rightarrow> netbuf_wf new \<and> nb_bytes new = [] \<and> netbuf_headroom new = headroom
             \<and> capacity \<le> netbuf_tailroom new \<and> nb_live s' = nb_live s + 1"
proof (cases "netbuf_alloc_headroom capacity headroom s")
  case (Pair r s')
  show ?thesis
  proof (cases r)
    case None
    then show ?thesis
      using alloc_headroom_granted [of s capacity headroom] Pair by fastforce
  next
    case (Some new)
    note a = alloc_headroom_result [OF Pair [unfolded Some] small]
    show ?thesis
      using a by (simp add: Pair Some wf_sizes)
  qed
qed



subsection \<open>Frames\<close>

definition mac_wf :: "mac_addr \<Rightarrow> bool" where
  "mac_wf m \<longleftrightarrow> length (addr m) = 6"

lemma mac_equal_iff: "mac_wf a \<Longrightarrow> mac_wf b \<Longrightarrow> mac_equal a b \<longleftrightarrow> a = b"
  by (cases a, cases b) (auto simp: mac_equal_def mac_wf_def scan_from_None_iff ETH_ALEN_def list_eq_iff_nth_eq)

lemma mac_copy_id [simp]: "mac_wf m \<Longrightarrow> mac_copy m = m"
  by (cases m) (simp add: mac_copy_def mac_wf_def ETH_ALEN_def)

lemma mac_consts_wf [simp]: "mac_wf eth_broadcast" "mac_wf eth_zero" "mac_wf (mac_make a b c d e f)"
  by (simp_all add: mac_wf_def eth_broadcast_def eth_zero_def mac_make_def)

lemma eth_header_length: "mac_wf dst \<Longrightarrow> mac_wf src \<Longrightarrow> length (eth_header dst src t) = ETH_HLEN"
  by (simp add: eth_header_def mac_wf_def ETH_ALEN_def ETH_HLEN_def be16.enc_length)

lemma eth_build_spec:
  assumes wf: "netbuf_wf nb" and room: "ETH_HLEN \<le> nb_data nb" and m: "mac_wf dst" "mac_wf src"
  obtains nb' where "eth_build nb dst src t = (0, nb')" and "netbuf_wf nb'"
    and "nb_bytes nb' = eth_header dst src t @ nb_bytes nb" and "nb_data nb' = nb_data nb - ETH_HLEN"
proof -
  let ?h = "eth_header dst src t"
  have len: "length ?h = ETH_HLEN"
    using m by (rule eth_header_length)
  let ?nb = "nb\<lparr>nb_data := nb_data nb - ETH_HLEN\<rparr>"
  have wf': "netbuf_wf ?nb"
    using wf room by (auto simp: netbuf_wf_def)
  have fits: "nb_data nb - ETH_HLEN + length ?h \<le> length (nb_mem ?nb)"
    using wf room unfolding len netbuf_wf_def by simp
  note p = push_bytes [OF wf, of ?h, unfolded len, OF room]
  let ?r = "(nb_write (nb_data ?nb) ?h ?nb)\<lparr>nb_eth := Some (nb_data ?nb)\<rparr>"
  have "eth_build nb dst src t = (0, ?r)"
    by (simp add: eth_build_def p(1))
  moreover have "netbuf_wf ?r"
    using wf' fits nb_write_wf [of "nb_data nb - ETH_HLEN" ?h ?nb] by (simp add: netbuf_wf_def)
  moreover have "nb_bytes ?r = ?h @ nb_bytes nb"
    using p(2) by (simp add: nb_bytes_def nb_at_def)
  ultimately show ?thesis
    using that [of ?r] by simp
qed

lemma eth_parse_spec:
  assumes wf: "netbuf_wf nb" and m: "mac_wf dst" "mac_wf src"
    and bytes: "nb_bytes nb = eth_header dst src t @ p"
  obtains nb' where "eth_parse nb = Some (dst, src, t, nb')" and "netbuf_wf nb'" and "nb_bytes nb' = p"
proof -
  let ?n = "nb\<lparr>nb_eth := Some (nb_data nb)\<rparr>"
  have wf': "netbuf_wf ?n" and b': "nb_bytes ?n = eth_header dst src t @ p"
    using wf bytes by (simp_all add: netbuf_wf_def nb_bytes_def nb_at_def)
  have len: "ETH_HLEN \<le> length (nb_bytes ?n)"
    using b' eth_header_length [OF m] by simp
  have long: "\<not> netbuf_len nb < ETH_HLEN"
    using bytes wf_sizes(1,4) [OF wf] eth_header_length [OF m, of t] by (metis length_append le_add1 not_le)
  have "nb_at nb = eth_header dst src t @ p @ drop (nb_tail nb - nb_data nb) (nb_at nb)"
    using nb_at_bytes [of nb] bytes by simp
  then obtain r where at: "nb_at nb = addr dst @ addr src @ net_put_be16 t @ r"
    using m by (auto simp: eth_header_def mac_wf_def ETH_ALEN_def)
  have "eth_parse nb = Some (dst, src, t, ?n\<lparr>nb_data := nb_data ?n + ETH_HLEN\<rparr>)"
    using m long pull_bytes(1) [OF wf' len] unfolding eth_parse_def at Let_def
    by (simp add: mac_wf_def ETH_ALEN_def be16.dec_enc)
  moreover have "nb_bytes (?n\<lparr>nb_data := nb_data ?n + ETH_HLEN\<rparr>) = p"
    using pull_bytes(2) [OF wf' len] b' eth_header_length [OF m] by simp
  ultimately show ?thesis
    using that pull_bytes(3) [OF wf' len] by blast
qed

end
