(* ===== verification/Netif.thy ===== *)
theory Netif
  imports Netbuf
begin

text \<open>
  Network interfaces: the registry and the transmit path of \<open>kernel/net/net_if.c\<close> and
  \<open>kernel/net/net_if.h\<close>.  The receive path and the loopback device, which call the protocols,
  are in \<open>Net_Stack\<close>.

  Interface objects are addressed by natural numbers; \<open>g_netifs\<close> lists the registered
  addresses, the first \<open>g_netif_count\<close> entries of the array of the source.  The transmit hook
  of a driver is a function pointer in the source and an argument \<open>tx\<close> here, which receives
  the interface, the buffer and the whole state of the stack.  The state is an extensible
  record, which the protocol theories extend one after the other.
\<close>

record netif_stats =
  rx_packets :: u64
  tx_packets :: u64
  rx_bytes :: u64
  tx_bytes :: u64
  rx_dropped :: u64
  tx_dropped :: u64
  rx_errors :: u64
  tx_errors :: u64

definition NETIF_MAX :: nat where "NETIF_MAX = 4"

definition NETIF_FLAG_UP :: u32 where "NETIF_FLAG_UP = 0x01"

definition NETIF_FLAG_LOOPBACK :: u32 where "NETIF_FLAG_LOOPBACK = 0x02"

record netif =
  nif_name :: string
  nif_mac :: mac_addr
  nif_ip :: ip_addr
  nif_netmask :: ip_addr
  nif_gateway :: ip_addr
  nif_mtu :: u16
  nif_flags :: u32
  nif_has_tx :: bool
  nif_stats :: netif_stats
  nif_registered :: bool

record netdev = kmem +
  netif_obj :: "nat \<Rightarrow> netif"
  g_netifs :: "nat list"

type_synonym 's tx_fn = "nat \<Rightarrow> netbuf \<Rightarrow> 's \<Rightarrow> int \<times> 's"

definition upd_nif :: "nat \<Rightarrow> (netif \<Rightarrow> netif) \<Rightarrow> 'a netdev_scheme \<Rightarrow> 'a netdev_scheme" where
  "upd_nif i f s = s\<lparr>netif_obj := (netif_obj s)(i := f (netif_obj s i))\<rparr>"

definition upd_stats :: "nat \<Rightarrow> (netif_stats \<Rightarrow> netif_stats) \<Rightarrow> 'a netdev_scheme \<Rightarrow> 'a netdev_scheme" where
  "upd_stats i f s = upd_nif i (\<lambda>n. n\<lparr>nif_stats := f (nif_stats n)\<rparr>) s"

definition netif_registry_init :: "'a netdev_scheme \<Rightarrow> 'a netdev_scheme" where
  "netif_registry_init s = s\<lparr>g_netifs := []\<rparr>"

definition netif_register :: "nat option \<Rightarrow> 'a netdev_scheme \<Rightarrow> int \<times> 'a netdev_scheme" where
  "netif_register nif s =
     (case nif of
        None \<Rightarrow> (- 1, s)
      | Some i \<Rightarrow>
          if NETIF_MAX \<le> length (g_netifs s) then (- 1, s)
          else if nif_registered (netif_obj s i) then (0, s)
          else (0, upd_nif i (\<lambda>n. n\<lparr>nif_registered := True\<rparr>) (s\<lparr>g_netifs := g_netifs s @ [i]\<rparr>)))"

definition netif_get :: "string \<Rightarrow> 'a netdev_scheme \<Rightarrow> nat option" where
  "netif_get name s =
     map_option ((!) (g_netifs s))
       (scan_from (\<lambda>i. nif_name (netif_obj s (g_netifs s ! i)) = name) 0 (length (g_netifs s)))"

definition netif_get_by_index :: "nat \<Rightarrow> 'a netdev_scheme \<Rightarrow> nat option" where
  "netif_get_by_index idx s = (if length (g_netifs s) \<le> idx then None else Some (g_netifs s ! idx))"

definition netif_count :: "'a netdev_scheme \<Rightarrow> nat" where
  "netif_count s = length (g_netifs s)"

definition netif_is_up :: "netif \<Rightarrow> bool" where
  "netif_is_up nif = (nif_flags nif AND NETIF_FLAG_UP \<noteq> 0)"

fun default_loop :: "(nat \<Rightarrow> netif) \<Rightarrow> nat list \<Rightarrow> nat option \<Rightarrow> nat option" where
  "default_loop obj [] lo = lo"
| "default_loop obj (n # ns) lo =
     (if \<not> netif_is_up (obj n) then default_loop obj ns lo
      else if nif_flags (obj n) AND NETIF_FLAG_LOOPBACK \<noteq> 0 then default_loop obj ns (Some n)
      else Some n)"

definition netif_default :: "'a netdev_scheme \<Rightarrow> nat option" where
  "netif_default s = default_loop (netif_obj s) (g_netifs s) None"

definition netif_for_dest :: "ip_addr \<Rightarrow> 'a netdev_scheme \<Rightarrow> nat option" where
  "netif_for_dest dst s =
     map_option ((!) (g_netifs s))
       (scan_from (\<lambda>i. let n = netif_obj s (g_netifs s ! i)
                       in netif_is_up n \<and> \<not> ip_is_zero (nif_ip n)
                          \<and> ip_same_subnet dst (nif_ip n) (nif_netmask n))
          0 (length (g_netifs s)))"

definition netif_set_addr :: "nat \<Rightarrow> ip_addr \<Rightarrow> ip_addr \<Rightarrow> ip_addr \<Rightarrow> 'a netdev_scheme \<Rightarrow> 'a netdev_scheme" where
  "netif_set_addr nif ip nmask gw s =
     upd_nif nif (\<lambda>n. n\<lparr>nif_ip := ip, nif_netmask := nmask, nif_gateway := gw\<rparr>) s"

definition netif_up :: "nat \<Rightarrow> 'a netdev_scheme \<Rightarrow> 'a netdev_scheme" where
  "netif_up nif s = upd_nif nif (\<lambda>n. n\<lparr>nif_flags := nif_flags n OR NETIF_FLAG_UP\<rparr>) s"

definition netif_down :: "nat \<Rightarrow> 'a netdev_scheme \<Rightarrow> 'a netdev_scheme" where
  "netif_down nif s = upd_nif nif (\<lambda>n. n\<lparr>nif_flags := nif_flags n AND NOT NETIF_FLAG_UP\<rparr>) s"

definition netif_transmit ::
    "'a netdev_scheme tx_fn \<Rightarrow> nat option \<Rightarrow> netbuf \<Rightarrow> 'a netdev_scheme \<Rightarrow> int \<times> 'a netdev_scheme" where
  "netif_transmit tx nif nb s =
     (case nif of
        None \<Rightarrow> (- 1, netbuf_free (Some nb) s)
      | Some i \<Rightarrow>
          if \<not> nif_has_tx (netif_obj s i) then (- 1, netbuf_free (Some nb) s)
          else if \<not> netif_is_up (netif_obj s i)
          then (- 1, netbuf_free (Some nb) (upd_stats i (\<lambda>t. t\<lparr>tx_dropped := tx_dropped t + 1\<rparr>) s))
          else let len = netbuf_len nb
               in case tx i nb s of
                    (rc, s) \<Rightarrow>
                      if rc = 0
                      then (rc, upd_stats i (\<lambda>t. t\<lparr>tx_packets := tx_packets t + 1,
                                                   tx_bytes := tx_bytes t + of_nat len\<rparr>) s)
                      else (rc, upd_stats i (\<lambda>t. t\<lparr>tx_errors := tx_errors t + 1\<rparr>) s))"

lemma upd_nif_obj [simp]: "netif_obj (upd_nif i f s) j = (if j = i then f (netif_obj s i) else netif_obj s j)"
  by (simp add: upd_nif_def)

lemma upd_nif_more [simp]:
  "g_netifs (upd_nif i f s) = g_netifs s" "netdev.more (upd_nif i f s) = netdev.more s"
  "kmem_grant (upd_nif i f s) = kmem_grant s" "kmem_calls (upd_nif i f s) = kmem_calls s"
  "nb_live (upd_nif i f s) = nb_live s"
  by (simp_all add: upd_nif_def)

lemma netif_up_down:
  "netif_is_up (netif_obj (netif_up i s) i)" "\<not> netif_is_up (netif_obj (netif_down i s) i)"
proof -
  have "bit (x OR 1 :: u32) 0" "\<not> bit (x AND NOT 1 :: u32) 0" for x
    by (simp_all add: bit_simps)
  then show "netif_is_up (netif_obj (netif_up i s) i)" "\<not> netif_is_up (netif_obj (netif_down i s) i)"
    by (simp_all add: netif_up_def netif_down_def netif_is_up_def NETIF_FLAG_UP_def and_one_zero_eq_bit
        del: bit_0)
qed

text \<open>
  The default interface is the first one that is up and not a loopback device, else the last
  loopback device that is up.
\<close>

lemma default_loop_spec:
  "default_loop obj ns lo =
     (case find (\<lambda>n. netif_is_up (obj n) \<and> nif_flags (obj n) AND NETIF_FLAG_LOOPBACK = 0) ns of
        Some n \<Rightarrow> Some n
      | None \<Rightarrow> (case filter (\<lambda>n. netif_is_up (obj n)) ns of [] \<Rightarrow> lo | us \<Rightarrow> Some (last us)))"
  by (induction ns arbitrary: lo) (auto split: option.splits list.splits)

end
