(* ===== verification/Arp.thy ===== *)
theory Arp
  imports Netif
begin

text \<open>
  Address resolution: \<open>kernel/net/arp.c\<close> and \<open>kernel/net/arp.h\<close>.  The cache is the array of
  the source, an entry is addressed by its index, and \<open>age\<close> and the clock are 32-bit words.
\<close>

definition ARP_HTYPE_ETHER :: u16 where "ARP_HTYPE_ETHER = 1"

definition ARP_PTYPE_IPV4 :: u16 where "ARP_PTYPE_IPV4 = 0x0800"

definition ARP_OP_REQUEST :: u16 where "ARP_OP_REQUEST = 1"

definition ARP_OP_REPLY :: u16 where "ARP_OP_REPLY = 2"

definition ARP_HDR_LEN :: nat where "ARP_HDR_LEN = 28"

datatype arp_state = ARP_FREE | ARP_INCOMPLETE | ARP_RESOLVED

record arp_entry =
  ae_state :: arp_state
  ae_ip :: ip_addr
  ae_mac :: mac_addr
  ae_age :: u32

definition ARP_CACHE_SIZE :: nat where "ARP_CACHE_SIZE = 16"

record arp = netdev +
  g_arp_cache :: "arp_entry list"
  g_arp_clock :: u32

definition arp_init :: "'a arp_scheme \<Rightarrow> 'a arp_scheme" where
  "arp_init s =
     s\<lparr>g_arp_cache := replicate ARP_CACHE_SIZE
          \<lparr> ae_state = ARP_FREE, ae_ip = IP_ADDR_ANY, ae_mac = eth_zero, ae_age = 0 \<rparr>,
       g_arp_clock := 0\<rparr>"

definition arp_find :: "ip_addr \<Rightarrow> 'a arp_scheme \<Rightarrow> nat option" where
  "arp_find ip s =
     scan_from (\<lambda>i. ae_state (g_arp_cache s ! i) \<noteq> ARP_FREE \<and> ip_equal (ae_ip (g_arp_cache s ! i)) ip)
       0 ARP_CACHE_SIZE"

fun alloc_slot_loop :: "arp_entry list \<Rightarrow> nat list \<Rightarrow> nat \<Rightarrow> nat" where
  "alloc_slot_loop cache [] oldest = oldest"
| "alloc_slot_loop cache (i # js) oldest =
     (if ae_state (cache ! i) = ARP_FREE then i
      else if ae_age (cache ! i) < ae_age (cache ! oldest) then alloc_slot_loop cache js i
      else alloc_slot_loop cache js oldest)"

definition arp_alloc_slot :: "'a arp_scheme \<Rightarrow> nat" where
  "arp_alloc_slot s = alloc_slot_loop (g_arp_cache s) [0..<ARP_CACHE_SIZE] 0"

definition upd_arp :: "nat \<Rightarrow> (arp_entry \<Rightarrow> arp_entry) \<Rightarrow> 'a arp_scheme \<Rightarrow> 'a arp_scheme" where
  "upd_arp i f s = s\<lparr>g_arp_cache := (g_arp_cache s)[i := f (g_arp_cache s ! i)]\<rparr>"

text \<open>The slot of an address: its entry, or else a new slot that is given the address.\<close>

definition arp_slot_for :: "ip_addr \<Rightarrow> 'a arp_scheme \<Rightarrow> nat \<times> 'a arp_scheme" where
  "arp_slot_for ip s =
     (case arp_find ip s of
        Some i \<Rightarrow> (i, s)
      | None \<Rightarrow> let i = arp_alloc_slot s in (i, upd_arp i (\<lambda>e. e\<lparr>ae_ip := ip\<rparr>) s))"

definition arp_cache_insert :: "ip_addr \<Rightarrow> mac_addr \<Rightarrow> 'a arp_scheme \<Rightarrow> 'a arp_scheme" where
  "arp_cache_insert ip mac s =
     (if ip_is_zero ip then s
      else case arp_slot_for ip s of
             (i, s) \<Rightarrow>
               let s = upd_arp i (\<lambda>e. e\<lparr>ae_state := ARP_RESOLVED, ae_mac := mac_copy mac\<rparr>) s;
                   s = s\<lparr>g_arp_clock := g_arp_clock s + 1\<rparr>
               in upd_arp i (\<lambda>e. e\<lparr>ae_age := g_arp_clock s\<rparr>) s)"

definition arp_cache_lookup :: "ip_addr \<Rightarrow> 'a arp_scheme \<Rightarrow> mac_addr option" where
  "arp_cache_lookup ip s =
     (case arp_find ip s of
        Some i \<Rightarrow>
          if ae_state (g_arp_cache s ! i) = ARP_RESOLVED
          then Some (mac_copy (ae_mac (g_arp_cache s ! i))) else None
      | None \<Rightarrow> None)"

definition arp_cache_count :: "'a arp_scheme \<Rightarrow> nat" where
  "arp_cache_count s =
     fold (\<lambda>i n. if ae_state (g_arp_cache s ! i) \<noteq> ARP_FREE then n + 1 else n) [0..<ARP_CACHE_SIZE] 0"

definition arp_header :: "u16 \<Rightarrow> mac_addr \<Rightarrow> ip_addr \<Rightarrow> mac_addr \<Rightarrow> ip_addr \<Rightarrow> u8 list" where
  "arp_header oper sha spa tha tpa =
     net_put_be16 ARP_HTYPE_ETHER @ net_put_be16 ARP_PTYPE_IPV4 @ [6, 4] @ net_put_be16 oper
     @ take ETH_ALEN (addr sha) @ net_put_be32 (ip_to_host spa)
     @ take ETH_ALEN (addr tha) @ net_put_be32 (ip_to_host tpa)"

definition arp_build ::
    "nat \<Rightarrow> u16 \<Rightarrow> ip_addr \<Rightarrow> mac_addr \<Rightarrow> mac_addr \<Rightarrow> 'a arp_scheme \<Rightarrow> netbuf option \<times> 'a arp_scheme" where
  "arp_build nif oper tpa tha eth_dst s =
     (case netbuf_alloc (ARP_HDR_LEN + ETH_HLEN) s of
        (None, s) \<Rightarrow> (None, s)
      | (Some nb, s) \<Rightarrow>
          let nb = snd (netbuf_reserve nb ETH_HLEN)
          in case netbuf_put nb ARP_HDR_LEN of
               None \<Rightarrow> (None, netbuf_free (Some nb) s)
             | Some (p, nb) \<Rightarrow>
                 let me = netif_obj s nif;
                     nb = nb_write p (arp_header oper (nif_mac me) (nif_ip me) tha tpa) nb
                 in case eth_build nb eth_dst (nif_mac me) ETH_P_ARP of
                      (rc, nb) \<Rightarrow> if rc \<noteq> 0 then (None, netbuf_free (Some nb) s) else (Some nb, s))"

definition arp_send_request :: "'a arp_scheme tx_fn \<Rightarrow> nat \<Rightarrow> ip_addr \<Rightarrow> 'a arp_scheme \<Rightarrow> int \<times> 'a arp_scheme" where
  "arp_send_request tx nif target s =
     (case arp_build nif ARP_OP_REQUEST target eth_zero eth_broadcast s of
        (None, s) \<Rightarrow> (- 1, s)
      | (Some nb, s) \<Rightarrow> netif_transmit tx (Some nif) nb s)"

definition arp_announce :: "'a arp_scheme tx_fn \<Rightarrow> nat \<Rightarrow> 'a arp_scheme \<Rightarrow> int \<times> 'a arp_scheme" where
  "arp_announce tx nif s =
     (case arp_build nif ARP_OP_REQUEST (nif_ip (netif_obj s nif)) eth_broadcast eth_broadcast s of
        (None, s) \<Rightarrow> (- 1, s)
      | (Some nb, s) \<Rightarrow> netif_transmit tx (Some nif) nb s)"

definition directed_bcast :: "netif \<Rightarrow> ip_addr \<Rightarrow> bool" where
  "directed_bcast nif ip \<longleftrightarrow> be (nif_netmask nif) \<noteq> 0
     \<and> ip_same_subnet ip (nif_ip nif) (nif_netmask nif)
     \<and> be ip AND NOT (be (nif_netmask nif)) = NOT (be (nif_netmask nif))"

definition arp_resolve ::
    "'a arp_scheme tx_fn \<Rightarrow> nat option \<Rightarrow> ip_addr \<Rightarrow> 'a arp_scheme \<Rightarrow> int \<times> mac_addr option \<times> 'a arp_scheme" where
  "arp_resolve tx nif ip s =
     (case nif of
        None \<Rightarrow> (- 1, None, s)
      | Some n \<Rightarrow>
          if nif_flags (netif_obj s n) AND NETIF_FLAG_LOOPBACK \<noteq> 0
          then (0, Some (mac_copy (nif_mac (netif_obj s n))), s)
          else if ip_is_broadcast ip \<or> directed_bcast (netif_obj s n) ip
          then (0, Some (mac_copy eth_broadcast), s)
          else case arp_cache_lookup ip s of
                 Some m \<Rightarrow> (0, Some m, s)
               | None \<Rightarrow>
                   (case arp_slot_for ip s of
                      (i, s) \<Rightarrow>
                        let s = s\<lparr>g_arp_clock := g_arp_clock s + 1\<rparr>;
                            s = upd_arp i (\<lambda>e. e\<lparr>ae_state := ARP_INCOMPLETE, ae_age := g_arp_clock s\<rparr>) s
                        in (1, None, snd (arp_send_request tx n ip s))))"

definition arp_input :: "'a arp_scheme tx_fn \<Rightarrow> nat \<Rightarrow> netbuf \<Rightarrow> 'a arp_scheme \<Rightarrow> 'a arp_scheme" where
  "arp_input tx nif nb s =
     (if netbuf_len nb < ARP_HDR_LEN then s
      else let ah = nb_at nb
           in if net_get_be16 ah \<noteq> ARP_HTYPE_ETHER \<or> net_get_be16 (drop 2 ah) \<noteq> ARP_PTYPE_IPV4
                 \<or> ah ! 4 \<noteq> 6 \<or> ah ! 5 \<noteq> 4
              then s
              else let oper = net_get_be16 (drop 6 ah);
                       spa = ip_from_host (net_get_be32 (drop 14 ah));
                       tpa = ip_from_host (net_get_be32 (drop 24 ah));
                       sha = \<lparr> addr = take ETH_ALEN (drop 8 ah) \<rparr>;
                       s = (if \<not> ip_is_zero spa then arp_cache_insert spa sha s else s)
                   in if oper = ARP_OP_REQUEST \<and> \<not> ip_is_zero (nif_ip (netif_obj s nif))
                         \<and> ip_equal tpa (nif_ip (netif_obj s nif))
                      then case arp_build nif ARP_OP_REPLY spa sha sha s of
                             (None, s) \<Rightarrow> s
                           | (Some reply, s) \<Rightarrow> snd (netif_transmit tx (Some nif) reply s)
                      else s)"

subsection \<open>The cache as a map\<close>

definition used :: "arp_entry \<Rightarrow> bool" where
  "used e \<longleftrightarrow> ae_state e \<noteq> ARP_FREE"

definition arp_inv :: "'a arp_scheme \<Rightarrow> bool" where
  "arp_inv s \<longleftrightarrow> length (g_arp_cache s) = ARP_CACHE_SIZE
     \<and> (\<forall>i < ARP_CACHE_SIZE. \<forall>j < ARP_CACHE_SIZE. used (g_arp_cache s ! i) \<and> used (g_arp_cache s ! j)
          \<and> ae_ip (g_arp_cache s ! i) = ae_ip (g_arp_cache s ! j) \<longrightarrow> i = j)"

lemma arp_find_Some_iff:
  assumes "arp_inv s"
  shows "arp_find ip s = Some i \<longleftrightarrow>
     i < ARP_CACHE_SIZE \<and> used (g_arp_cache s ! i) \<and> ae_ip (g_arp_cache s ! i) = ip"
proof
  assume "arp_find ip s = Some i"
  then show "i < ARP_CACHE_SIZE \<and> used (g_arp_cache s ! i) \<and> ae_ip (g_arp_cache s ! i) = ip"
    using scan_from_SomeD unfolding arp_find_def used_def by fastforce
next
  assume i: "i < ARP_CACHE_SIZE \<and> used (g_arp_cache s ! i) \<and> ae_ip (g_arp_cache s ! i) = ip"
  show "arp_find ip s = Some i"
    unfolding arp_find_def
  proof (rule scan_from_eqI)
    fix j assume "j < i"
    then show "\<not> (ae_state (g_arp_cache s ! j) \<noteq> ARP_FREE \<and> ip_equal (ae_ip (g_arp_cache s ! j)) ip)"
      using assms i unfolding arp_inv_def used_def
      by (metis ip_equal_iff less_trans nat_neq_iff)
  qed (use i in \<open>simp_all add: used_def\<close>)
qed

lemma alloc_slot_loop_cases:
  fixes cache :: "arp_entry list"
  defines "r js old \<equiv> alloc_slot_loop cache js old"
  shows "r js old \<in> set js \<and> \<not> used (cache ! r js old)
    \<or> (\<forall>i \<in> set js. used (cache ! i)) \<and> r js old \<in> insert old (set js)
        \<and> (\<forall>i \<in> insert old (set js). ae_age (cache ! r js old) \<le> ae_age (cache ! i))"
  unfolding r_def
proof (induction cache js old rule: alloc_slot_loop.induct)
  case (2 cache i js old)
  show ?case
  proof (cases "ae_state (cache ! i) = ARP_FREE")
    case True
    then show ?thesis by (simp add: used_def)
  next
    case False
    show ?thesis
    proof (cases "ae_age (cache ! i) < ae_age (cache ! old)")
      case True
      then show ?thesis
        using 2(1) [OF False True] False by (auto simp: used_def intro: order_trans less_imp_le)
    next
      case older: False
      then have "ae_age (cache ! old) \<le> ae_age (cache ! i)"
        by simp
      then show ?thesis
        using 2(2) [OF False older] False older by (auto simp: used_def intro: order_trans)
    qed
  qed
qed simp

text \<open>
  The slot chosen for an address is its own entry, or else a free slot, or else, in a full
  cache, the entry with the smallest age.
\<close>

lemma arp_slot_for_cases:
  assumes "arp_slot_for ip s = (i, s')"
  shows "i < ARP_CACHE_SIZE"
    and "arp_find ip s = Some i \<and> s' = s
      \<or> arp_find ip s = None \<and> s' = upd_arp i (\<lambda>e. e\<lparr>ae_ip := ip\<rparr>) s
        \<and> (\<not> used (g_arp_cache s ! i)
           \<or> (\<forall>j < ARP_CACHE_SIZE. used (g_arp_cache s ! j) \<and> ae_age (g_arp_cache s ! i) \<le> ae_age (g_arp_cache s ! j)))"
proof -
  have slot: "arp_alloc_slot s < ARP_CACHE_SIZE \<and> (\<not> used (g_arp_cache s ! arp_alloc_slot s)
      \<or> (\<forall>j < ARP_CACHE_SIZE. used (g_arp_cache s ! j)
           \<and> ae_age (g_arp_cache s ! arp_alloc_slot s) \<le> ae_age (g_arp_cache s ! j)))"
    using alloc_slot_loop_cases [where cache = "g_arp_cache s" and js = "[0..<ARP_CACHE_SIZE]" and old = 0]
    by (auto simp: arp_alloc_slot_def ARP_CACHE_SIZE_def)
  show "i < ARP_CACHE_SIZE"
    using assms slot scan_from_SomeD [of _ 0 ARP_CACHE_SIZE i]
    by (auto simp: arp_slot_for_def arp_find_def Let_def split: option.splits)
  show "arp_find ip s = Some i \<and> s' = s
      \<or> arp_find ip s = None \<and> s' = upd_arp i (\<lambda>e. e\<lparr>ae_ip := ip\<rparr>) s
        \<and> (\<not> used (g_arp_cache s ! i)
           \<or> (\<forall>j < ARP_CACHE_SIZE. used (g_arp_cache s ! j) \<and> ae_age (g_arp_cache s ! i) \<le> ae_age (g_arp_cache s ! j)))"
    using assms slot by (auto simp: arp_slot_for_def Let_def split: option.splits)
qed

lemma arp_set_entry:
  assumes inv: "arp_inv s" and i: "i < ARP_CACHE_SIZE"
    and own: "arp_find ip s = Some i \<or> arp_find ip s = None"
    and e: "used e" "ae_ip e = ip" and c: "g_arp_cache s' = (g_arp_cache s)[i := e]"
  shows "arp_inv s'" and "arp_find ip s' = Some i"
    and "ip' \<noteq> ip \<Longrightarrow> arp_find ip' s' = (if arp_find ip' s = Some i then None else arp_find ip' s)"
proof -
  have len: "length (g_arp_cache s) = ARP_CACHE_SIZE"
    using inv by (simp add: arp_inv_def)
  have other: "\<not> (used (g_arp_cache s ! j) \<and> ae_ip (g_arp_cache s ! j) = ip)"
    if "j < ARP_CACHE_SIZE" "j \<noteq> i" for j
    using own arp_find_Some_iff [OF inv, of ip j] that by auto
  show inv': "arp_inv s'"
    unfolding arp_inv_def c
  proof (intro conjI allI impI)
    fix a b
    assume a: "a < ARP_CACHE_SIZE" and b: "b < ARP_CACHE_SIZE"
      and ab: "used ((g_arp_cache s)[i := e] ! a) \<and> used ((g_arp_cache s)[i := e] ! b)
        \<and> ae_ip ((g_arp_cache s)[i := e] ! a) = ae_ip ((g_arp_cache s)[i := e] ! b)"
    consider "a = i" "b = i" | "a = i" "b \<noteq> i" | "a \<noteq> i" "b = i" | "a \<noteq> i" "b \<noteq> i"
      by blast
    then show "a = b"
    proof cases
      case 2
      then show ?thesis using ab other [OF b] e i len by simp
    next
      case 3
      then show ?thesis using ab other [OF a] e i len by simp
    next
      case 4
      then show ?thesis using ab inv a b unfolding arp_inv_def by simp
    qed simp
  qed (simp add: len)
  show "arp_find ip s' = Some i"
    using i e len by (simp add: arp_find_Some_iff [OF inv'] c)
  assume ne: "ip' \<noteq> ip"
  show "arp_find ip' s' = (if arp_find ip' s = Some i then None else arp_find ip' s)"
  proof -
    have key: "arp_find ip' s' = Some j \<longleftrightarrow> arp_find ip' s = Some j \<and> j \<noteq> i" for j
    proof (cases "j = i")
      case True
      then show ?thesis
        using ne e i len by (simp add: arp_find_Some_iff [OF inv'] c)
    next
      case False
      then show ?thesis
        by (simp add: arp_find_Some_iff [OF inv'] arp_find_Some_iff [OF inv] c)
    qed
    show ?thesis
    proof (cases "arp_find ip' s'")
      case None
      then show ?thesis
        using key by (cases "arp_find ip' s") auto
    next
      case (Some j)
      then show ?thesis
        using key [of j] by simp
    qed
  qed
qed

lemma arp_cache_insert_cache:
  assumes inv: "arp_inv s" and ip: "\<not> ip_is_zero ip" and slot: "arp_slot_for ip s = (i, s1)"
  shows "g_arp_cache (arp_cache_insert ip mac s) = (g_arp_cache s)[i :=
     \<lparr> ae_state = ARP_RESOLVED, ae_ip = ip, ae_mac = mac_copy mac, ae_age = g_arp_clock s + 1 \<rparr>]"
proof -
  note sl = arp_slot_for_cases [OF slot]
  have len: "length (g_arp_cache s) = ARP_CACHE_SIZE"
    using inv by (simp add: arp_inv_def)
  have own: "arp_find ip s = Some i \<Longrightarrow> ae_ip (g_arp_cache s ! i) = ip"
    by (simp add: arp_find_Some_iff [OF inv])
  from sl(2) show ?thesis
  proof (elim disjE)
    assume a: "arp_find ip s = Some i \<and> s1 = s"
    obtain st x m g where e: "g_arp_cache s ! i = \<lparr> ae_state = st, ae_ip = x, ae_mac = m, ae_age = g \<rparr>"
      by (cases "g_arp_cache s ! i")
    then show ?thesis
      using a ip sl(1) len own by (simp add: arp_cache_insert_def slot upd_arp_def Let_def)
  next
    assume "arp_find ip s = None \<and> s1 = upd_arp i (\<lambda>e. e\<lparr>ae_ip := ip\<rparr>) s
        \<and> (\<not> used (g_arp_cache s ! i)
           \<or> (\<forall>j < ARP_CACHE_SIZE. used (g_arp_cache s ! j) \<and> ae_age (g_arp_cache s ! i) \<le> ae_age (g_arp_cache s ! j)))"
    then show ?thesis
      using ip sl(1) len
      by (cases "g_arp_cache s ! i") (simp add: arp_cache_insert_def slot upd_arp_def Let_def)
  qed
qed

text \<open>
  C35. The address cache behaves as a bounded map from addresses to hardware addresses.  The
  invariant, at most one entry for an address, holds initially and is kept by insertion; an
  inserted address is found with its hardware address; every other address resolves as before
  unless the cache was full, the inserted address was not in it, and the address belonged to an
  entry whose age was the smallest; the address 0 is never inserted.
\<close>

theorem arp_cache_correct:
  assumes inv: "arp_inv s" and mac: "mac_wf mac" and ip: "\<not> ip_is_zero ip"
  defines "s' \<equiv> arp_cache_insert ip mac s"
  shows "(arp_inv (arp_init t))
    \<and> (arp_cache_lookup ip (arp_init t) = None)
    \<and> (arp_inv s')
    \<and> (arp_cache_lookup ip s' = Some mac)
    \<and> (ip' \<noteq> ip \<longrightarrow> (arp_cache_lookup ip' s' = arp_cache_lookup ip' s
       \<or> arp_cache_lookup ip' s' = None \<and> arp_find ip s = None \<and> arp_cache_count s = ARP_CACHE_SIZE
         \<and> (\<exists>i. arp_find ip' s = Some i
              \<and> (\<forall>j < ARP_CACHE_SIZE. ae_age (g_arp_cache s ! i) \<le> ae_age (g_arp_cache s ! j)))))
    \<and> (arp_cache_insert IP_ADDR_ANY mac s = s)"
proof -
  have c1: "arp_inv (arp_init t)"
    by (simp add: arp_inv_def arp_init_def used_def)
  then have c2: "arp_cache_lookup ip (arp_init t) = None"
    using arp_find_Some_iff [of "arp_init t" ip]
    by (auto simp: arp_cache_lookup_def arp_init_def used_def split: option.split)
  have c6: "arp_cache_insert IP_ADDR_ANY mac s = s"
    by (simp add: arp_cache_insert_def ip_is_zero_def)
  obtain i s1 where slot: "arp_slot_for ip s = (i, s1)"
    by fastforce
  note sl = arp_slot_for_cases [OF slot]
  define e where "e = \<lparr> ae_state = ARP_RESOLVED, ae_ip = ip, ae_mac = mac_copy mac, ae_age = g_arp_clock s + 1 \<rparr>"
  have c: "g_arp_cache s' = (g_arp_cache s)[i := e]"
    unfolding s'_def e_def by (rule arp_cache_insert_cache [OF inv ip slot])
  have e: "used e" "ae_ip e = ip"
    by (simp_all add: e_def used_def)
  have own: "arp_find ip s = Some i \<or> arp_find ip s = None"
    using sl(2) by (elim disjE conjE) simp_all
  note r = arp_set_entry [OF inv sl(1) own e c]
  have len: "length (g_arp_cache s) = ARP_CACHE_SIZE"
    using inv by (simp add: arp_inv_def)
  have c3: "arp_inv s'" by (rule r(1))
  have c4: "arp_cache_lookup ip s' = Some mac"
    using sl(1) len mac by (simp add: arp_cache_lookup_def r(2) c e_def)
  have c5: "arp_cache_lookup ip' s' = arp_cache_lookup ip' s
       \<or> arp_cache_lookup ip' s' = None \<and> arp_find ip s = None \<and> arp_cache_count s = ARP_CACHE_SIZE
         \<and> (\<exists>i. arp_find ip' s = Some i
              \<and> (\<forall>j < ARP_CACHE_SIZE. ae_age (g_arp_cache s ! i) \<le> ae_age (g_arp_cache s ! j)))"
    if ne: "ip' \<noteq> ip"
  proof (cases "arp_find ip' s = Some i")
    case False
    then have "arp_find ip' s' = arp_find ip' s"
      using r(3) [OF ne] by simp
    then have "arp_cache_lookup ip' s' = arp_cache_lookup ip' s"
      using False by (auto simp: arp_cache_lookup_def c split: option.split)
    then show ?thesis by blast
  next
    case True
    then have u: "used (g_arp_cache s ! i)" "ae_ip (g_arp_cache s ! i) = ip'"
      by (simp_all add: arp_find_Some_iff [OF inv])
    then have none: "arp_find ip s = None"
      using own ne by (auto simp: arp_find_Some_iff [OF inv])
    then have full: "\<forall>j < ARP_CACHE_SIZE. used (g_arp_cache s ! j)
        \<and> ae_age (g_arp_cache s ! i) \<le> ae_age (g_arp_cache s ! j)"
      using sl(2) u by simp
    then have "arp_cache_count s = ARP_CACHE_SIZE"
      by (simp add: arp_cache_count_def used_def ARP_CACHE_SIZE_def upt_rec)
    moreover have "arp_cache_lookup ip' s' = None"
      using r(3) [OF ne] True by (simp add: arp_cache_lookup_def)
    ultimately show ?thesis
      using none True full by blast
  qed
  show ?thesis
    by (rule conjI [OF c1 conjI [OF c2 conjI [OF c3 conjI [OF c4 conjI [OF impI [OF c5] c6]]]]])
qed

theorem arp_cache_correct_witness:
  "\<not> ip_is_zero (ip_make 10 0 2 2) \<and> mac_wf (mac_make 1 2 3 4 5 6)
   \<and> arp_inv (arp_init (undefined :: arp))
   \<and> arp_cache_lookup (ip_make 10 0 2 2)
       (arp_cache_insert (ip_make 10 0 2 2) (mac_make 1 2 3 4 5 6) (arp_init (undefined :: arp)))
     = Some (mac_make 1 2 3 4 5 6)"
proof -
  have ip: "\<not> ip_is_zero (ip_make 10 0 2 2)"
    by (simp add: ip_is_zero_def ip_make_def push_bit_eq_mult)
  have inv: "arp_inv (arp_init (undefined :: arp))"
    by (simp add: arp_inv_def arp_init_def used_def)
  show ?thesis
    using arp_cache_correct [OF inv mac_consts_wf(3) [of 1 2 3 4 5 6] ip, THEN conjunct2, THEN conjunct2,
        THEN conjunct2, THEN conjunct1] ip inv
    by (simp only: mac_consts_wf simp_thms)
qed

end
