(* ===== verification/Ipv4.thy ===== *)
theory Ipv4
  imports Arp
begin

text \<open>
  IPv4: the routing table, header construction and output of \<open>kernel/net/ipv4.c\<close> and
  \<open>kernel/net/ipv4.h\<close>.  The input path, which calls the transport protocols, is in
  \<open>Net_Stack\<close>.  A route is addressed by its index in the table.
\<close>

definition IP_PROTO_ICMP :: u8 where "IP_PROTO_ICMP = 1"

definition IP_PROTO_TCP :: u8 where "IP_PROTO_TCP = 6"

definition IP_PROTO_UDP :: u8 where "IP_PROTO_UDP = 17"

definition IPV4_VERSION :: u8 where "IPV4_VERSION = 4"

definition IPV4_IHL_MIN :: u8 where "IPV4_IHL_MIN = 5"

definition IPV4_HDR_LEN :: nat where "IPV4_HDR_LEN = 20"

definition IPV4_FLAG_DF :: u16 where "IPV4_FLAG_DF = 0x4000"

definition IP_ROUTE_MAX :: nat where "IP_ROUTE_MAX = 8"

record ip_route =
  rt_dest :: ip_addr
  rt_netmask :: ip_addr
  rt_gateway :: ip_addr
  rt_nif :: nat
  rt_valid :: bool
  rt_prefix_len :: u32

record ipv4 = arp +
  g_routes :: "ip_route list"
  g_route_count :: nat
  g_ip_id :: u16

definition ipv4_version :: "u8 list \<Rightarrow> u8" where
  "ipv4_version h = drop_bit 4 (h ! 0)"

definition ipv4_ihl :: "u8 list \<Rightarrow> u8" where
  "ipv4_ihl h = (h ! 0 AND 0x0F)"

definition ipv4_hdr_bytes :: "u8 list \<Rightarrow> u16" where
  "ipv4_hdr_bytes h = ucast (ipv4_ihl h) * 4"

fun prefix_loop :: "u32 \<Rightarrow> nat \<Rightarrow> u32 \<Rightarrow> u32" where
  "prefix_loop host 0 n = n"
| "prefix_loop host (Suc i) n =
     (if host AND push_bit i 1 \<noteq> 0 then prefix_loop host i (n + 1) else n)"

definition mask_prefix_len :: "ip_addr \<Rightarrow> u32" where
  "mask_prefix_len nmask = prefix_loop (ip_to_host nmask) 32 0"

definition route_init :: "'a ipv4_scheme \<Rightarrow> 'a ipv4_scheme" where
  "route_init s =
     s\<lparr>g_routes := fold (\<lambda>i rs. rs[i := (rs ! i)\<lparr>rt_valid := False\<rparr>]) [0..<IP_ROUTE_MAX] (g_routes s),
       g_route_count := 0\<rparr>"

definition route_add :: "ip_addr \<Rightarrow> ip_addr \<Rightarrow> ip_addr \<Rightarrow> nat \<Rightarrow> 'a ipv4_scheme \<Rightarrow> int \<times> 'a ipv4_scheme" where
  "route_add dest nmask gateway nif s =
     (if IP_ROUTE_MAX \<le> g_route_count s then (- 1, s)
      else (0, s\<lparr>g_routes := (g_routes s)[g_route_count s :=
                   \<lparr> rt_dest = dest, rt_netmask = nmask, rt_gateway = gateway, rt_nif = nif,
                     rt_valid = True, rt_prefix_len = mask_prefix_len nmask \<rparr>],
                 g_route_count := g_route_count s + 1\<rparr>))"

definition route_count :: "'a ipv4_scheme \<Rightarrow> nat" where
  "route_count s = g_route_count s"

definition route_match :: "ip_addr \<Rightarrow> ip_route \<Rightarrow> bool" where
  "route_match dst r \<longleftrightarrow> be dst AND be (rt_netmask r) = be (rt_dest r) AND be (rt_netmask r)"

definition better_route :: "ip_addr \<Rightarrow> ip_route list \<Rightarrow> nat \<Rightarrow> nat option \<Rightarrow> nat option" where
  "better_route dst rs i best =
     (if \<not> rt_valid (rs ! i) then best
      else if route_match dst (rs ! i)
      then (case best of
              None \<Rightarrow> Some i
            | Some b \<Rightarrow> if rt_prefix_len (rs ! b) < rt_prefix_len (rs ! i) then Some i else best)
      else best)"

definition route_lookup :: "ip_addr \<Rightarrow> 'a ipv4_scheme \<Rightarrow> (nat \<times> ip_addr) option" where
  "route_lookup dst s =
     (case fold (better_route dst (g_routes s)) [0..<g_route_count s] None of
        None \<Rightarrow> None
      | Some b \<Rightarrow>
          Some (b, if ip_is_zero (rt_gateway (g_routes s ! b)) then dst else rt_gateway (g_routes s ! b)))"

definition ipv4_init :: "'a ipv4_scheme \<Rightarrow> 'a ipv4_scheme" where
  "ipv4_init s = s\<lparr>g_ip_id := 0x1000\<rparr>"

text \<open>The header in the order of its members, with the given value in the checksum field.\<close>

definition ipv4_header :: "u16 \<Rightarrow> u16 \<Rightarrow> u8 \<Rightarrow> u8 \<Rightarrow> u16 \<Rightarrow> ip_addr \<Rightarrow> ip_addr \<Rightarrow> u8 list" where
  "ipv4_header total_len ident ttl proto checksum src dst =
     [push_bit 4 IPV4_VERSION OR IPV4_IHL_MIN, 0] @ net_put_be16 total_len @ net_put_be16 ident
     @ net_put_be16 IPV4_FLAG_DF @ [ttl, proto] @ host_put16 checksum
     @ host_put32 (be src) @ host_put32 (be dst)"

definition ipv4_build ::
    "netbuf \<Rightarrow> ip_addr \<Rightarrow> ip_addr \<Rightarrow> u8 \<Rightarrow> u8 \<Rightarrow> 'a ipv4_scheme \<Rightarrow> int \<times> netbuf \<times> 'a ipv4_scheme" where
  "ipv4_build nb src dst proto ttl s =
     (let payload = of_nat (netbuf_len nb) :: u16
      in case netbuf_push nb IPV4_HDR_LEN of
           None \<Rightarrow> (- 1, nb, s)
         | Some nb \<Rightarrow>
             let tlen = of_nat IPV4_HDR_LEN + payload;
                 ident = g_ip_id s;
                 csum = net_checksum (ipv4_header tlen ident ttl proto 0 src dst);
                 nb = nb_write (nb_data nb) (ipv4_header tlen ident ttl proto csum src dst) nb
             in (0, nb\<lparr>nb_net := Some (nb_data nb)\<rparr>, s\<lparr>g_ip_id := g_ip_id s + 1\<rparr>))"

definition egress :: "ip_addr \<Rightarrow> 'a ipv4_scheme \<Rightarrow> nat option \<times> ip_addr" where
  "egress dst s =
     (let (nif, next_hop) = (case route_lookup dst s of
            Some (r, hop) \<Rightarrow> (Some (rt_nif (g_routes s ! r)), hop)
          | None \<Rightarrow> (netif_for_dest dst s, dst))
      in (case nif of None \<Rightarrow> netif_default s | Some _ \<Rightarrow> nif, next_hop))"

definition ipv4_output ::
    "'a ipv4_scheme tx_fn \<Rightarrow> netbuf \<Rightarrow> ip_addr \<Rightarrow> ip_addr \<Rightarrow> u8 \<Rightarrow> u8 \<Rightarrow> 'a ipv4_scheme \<Rightarrow> int \<times> 'a ipv4_scheme" where
  "ipv4_output tx nb src dst proto ttl s =
     (case egress dst s of
        (None, _) \<Rightarrow> (- 1, netbuf_free (Some nb) s)
      | (Some n, next_hop) \<Rightarrow>
          let src = (if ip_is_zero src then nif_ip (netif_obj s n) else src)
          in case ipv4_build nb src dst proto ttl s of
               (rc, nb, s) \<Rightarrow>
                 if rc \<noteq> 0 then (- 1, netbuf_free (Some nb) s)
                 else case arp_resolve tx (Some n) next_hop s of
                        (rc, dmac, s) \<Rightarrow>
                          if rc \<noteq> 0
                          then (if rc > 0 then 1 else - 1,
                                netbuf_free (Some nb) (upd_stats n (\<lambda>t. t\<lparr>tx_dropped := tx_dropped t + 1\<rparr>) s))
                          else case eth_build nb (the dmac) (nif_mac (netif_obj s n)) ETH_P_IPV4 of
                                 (rc, nb) \<Rightarrow>
                                   if rc \<noteq> 0 then (- 1, netbuf_free (Some nb) s)
                                   else netif_transmit tx (Some n) nb s)"

subsection \<open>Routes\<close>

definition routes_wf :: "'a ipv4_scheme \<Rightarrow> bool" where
  "routes_wf s \<longleftrightarrow> length (g_routes s) = IP_ROUTE_MAX \<and> g_route_count s \<le> IP_ROUTE_MAX
     \<and> (\<forall>i < g_route_count s. rt_valid (g_routes s ! i)
          \<and> rt_prefix_len (g_routes s ! i) = mask_prefix_len (rt_netmask (g_routes s ! i)))"

definition best_upto :: "ip_addr \<Rightarrow> ip_route list \<Rightarrow> nat \<Rightarrow> nat option \<Rightarrow> bool" where
  "best_upto dst rs n best \<longleftrightarrow>
     (case best of
        None \<Rightarrow> \<forall>i < n. \<not> (rt_valid (rs ! i) \<and> route_match dst (rs ! i))
      | Some b \<Rightarrow> b < n \<and> rt_valid (rs ! b) \<and> route_match dst (rs ! b)
          \<and> (\<forall>i < n. rt_valid (rs ! i) \<and> route_match dst (rs ! i) \<longrightarrow>
               rt_prefix_len (rs ! i) \<le> rt_prefix_len (rs ! b)
               \<and> (i < b \<longrightarrow> rt_prefix_len (rs ! i) < rt_prefix_len (rs ! b))))"

lemma better_route_best:
  assumes "best_upto dst rs n best"
  shows "best_upto dst rs (Suc n) (better_route dst rs n best)"
proof (cases best)
  case None
  then show ?thesis
    using assms by (auto simp: best_upto_def better_route_def less_Suc_eq)
next
  case (Some b)
  show ?thesis
  proof (cases "rt_valid (rs ! n) \<and> route_match dst (rs ! n) \<and> rt_prefix_len (rs ! b) < rt_prefix_len (rs ! n)")
    case True
    then have "better_route dst rs n best = Some n"
      by (simp add: better_route_def Some)
    then show ?thesis
      using assms True Some by (auto simp: best_upto_def less_Suc_eq intro: le_less_trans less_imp_le)
  next
    case False
    then have "better_route dst rs n best = best"
      by (auto simp: better_route_def Some)
    then show ?thesis
      using assms False Some by (auto simp: best_upto_def less_Suc_eq)
  qed
qed

lemma route_fold_best: "best_upto dst rs n (fold (better_route dst rs) [0..<n] None)"
  by (rule fold_inv_upt [where P = "best_upto dst rs"]) (simp_all add: best_upto_def [of _ _ 0] better_route_best)

lemma prefix_loop_spec:
  "i \<le> 32 \<Longrightarrow> prefix_loop host i n = n + of_nat (length (takeWhile (bit host) (rev [0..<i])))"
proof (induction i arbitrary: n)
  case (Suc i)
  have "host AND push_bit i 1 \<noteq> 0 \<longleftrightarrow> bit host i"
    using Suc.prems by (simp add: and_exp_eq_0_iff_not_bit push_bit_eq_mult)
  then show ?case
    using Suc by (simp del: push_bit_of_1)
qed simp

lemma mask_prefix_len_spec:
  "unat (mask_prefix_len m) = length (takeWhile (bit (ip_to_host m)) (rev [0..<32]))"
proof -
  have "length (takeWhile (bit (ip_to_host m)) (rev [0..<32])) \<le> length (rev [0..<32 :: nat])"
    by (rule length_takeWhile_le)
  then have "length (takeWhile (bit (ip_to_host m)) (rev [0..<32])) < 2 ^ 32"
    by simp
  then show ?thesis
    by (simp only: mask_prefix_len_def prefix_loop_spec) simp
qed

lemma route_add_wf:
  assumes wf: "routes_wf s"
  shows "routes_wf (snd (route_add dest nmask gateway nif s))"
proof (cases "IP_ROUTE_MAX \<le> g_route_count s")
  case False
  then show ?thesis
    using wf by (auto simp: route_add_def routes_wf_def nth_list_update less_Suc_eq)
qed (use wf in \<open>simp add: route_add_def\<close>)

text \<open>
  C36. Routing is longest-prefix match.  A lookup fails exactly when no route of the table
  matches the destination; otherwise it returns a matching route whose network mask has the most
  leading one bits of all matching routes, the first such route in the order of insertion, and
  the next hop is its gateway or, for an on-link route, the destination.  A route that is added
  is a candidate of every later lookup, and the table refuses exactly the ninth route.
\<close>

theorem route_lookup_longest_prefix:
  assumes wf: "routes_wf s"
  shows "(case route_lookup dst s of
           None \<Rightarrow> \<forall>i < route_count s. \<not> route_match dst (g_routes s ! i)
         | Some (b, hop) \<Rightarrow> b < route_count s \<and> route_match dst (g_routes s ! b)
             \<and> hop = (let gw = rt_gateway (g_routes s ! b) in if ip_is_zero gw then dst else gw)
             \<and> (\<forall>i < route_count s. route_match dst (g_routes s ! i) \<longrightarrow>
                  (let ones = (\<lambda>j. length (takeWhile (bit (ip_to_host (rt_netmask (g_routes s ! j)))) (rev [0..<32])))
                   in ones i \<le> ones b \<and> (i < b \<longrightarrow> ones i < ones b))))
    \<and> (case route_add dest nmask gateway nif s of
           (rc, s') \<Rightarrow> routes_wf s' \<and>
             (if route_count s < IP_ROUTE_MAX
              then rc = 0 \<and> route_count s' = route_count s + 1
                \<and> (route_lookup dst s' \<noteq> None \<longleftrightarrow>
                     route_lookup dst s \<noteq> None \<or> be dst AND be nmask = be dest AND be nmask)
              else rc = - 1 \<and> s' = s))"
proof -
  have best: "best_upto dst (g_routes t) (g_route_count t)
      (fold (better_route dst (g_routes t)) [0..<g_route_count t] None)" for t :: "'a ipv4_scheme"
    by (rule route_fold_best)
  have none: "route_lookup dst t = None \<longleftrightarrow> (\<forall>i < g_route_count t. \<not> route_match dst (g_routes t ! i))"
    if "routes_wf t" for t :: "'a ipv4_scheme"
    using best [of t] that
    by (auto simp: route_lookup_def best_upto_def routes_wf_def split: option.splits)
  have len: "rt_prefix_len (g_routes s ! i) = mask_prefix_len (rt_netmask (g_routes s ! i))
      \<and> rt_valid (g_routes s ! i)" if "i < g_route_count s" for i
    using wf that by (simp add: routes_wf_def)
  have c1: "case route_lookup dst s of
           None \<Rightarrow> \<forall>i < route_count s. \<not> route_match dst (g_routes s ! i)
         | Some (b, hop) \<Rightarrow> b < route_count s \<and> route_match dst (g_routes s ! b)
             \<and> hop = (let gw = rt_gateway (g_routes s ! b) in if ip_is_zero gw then dst else gw)
             \<and> (\<forall>i < route_count s. route_match dst (g_routes s ! i) \<longrightarrow>
                  (let ones = (\<lambda>j. length (takeWhile (bit (ip_to_host (rt_netmask (g_routes s ! j)))) (rev [0..<32])))
                   in ones i \<le> ones b \<and> (i < b \<longrightarrow> ones i < ones b)))"
  proof (cases "fold (better_route dst (g_routes s)) [0..<g_route_count s] None")
    case None
    then show ?thesis
      using none [OF wf] by (simp add: route_lookup_def route_count_def)
  next
    case (Some b)
    have b: "b < g_route_count s" "route_match dst (g_routes s ! b)"
      and opt: "\<And>i. i < g_route_count s \<Longrightarrow> route_match dst (g_routes s ! i) \<Longrightarrow>
        rt_prefix_len (g_routes s ! i) \<le> rt_prefix_len (g_routes s ! b)
        \<and> (i < b \<longrightarrow> rt_prefix_len (g_routes s ! i) < rt_prefix_len (g_routes s ! b))"
      using best [of s] len unfolding best_upto_def Some by auto
    show ?thesis
      using b opt len
      by (auto simp: route_lookup_def route_count_def Some Let_def word_le_unat word_less_unat
          mask_prefix_len_spec [symmetric] simp del: unat_eq_iff)
  qed
  have c2: "case route_add dest nmask gateway nif s of
           (rc, s') \<Rightarrow> routes_wf s' \<and>
             (if route_count s < IP_ROUTE_MAX
              then rc = 0 \<and> route_count s' = route_count s + 1
                \<and> (route_lookup dst s' \<noteq> None \<longleftrightarrow>
                     route_lookup dst s \<noteq> None \<or> be dst AND be nmask = be dest AND be nmask)
              else rc = - 1 \<and> s' = s)"
  proof (cases "IP_ROUTE_MAX \<le> g_route_count s")
    case True
    then show ?thesis
      using wf by (simp add: route_add_def route_count_def)
  next
    case False
    define s' where "s' = snd (route_add dest nmask gateway nif s)"
    have wf': "routes_wf s'"
      unfolding s'_def using wf by (rule route_add_wf)
    have c: "g_route_count s' = Suc (g_route_count s)"
      and old: "\<And>i. i < g_route_count s \<Longrightarrow> g_routes s' ! i = g_routes s ! i"
      and new: "route_match dst (g_routes s' ! g_route_count s) \<longleftrightarrow> be dst AND be nmask = be dest AND be nmask"
      using wf False by (auto simp: s'_def route_add_def routes_wf_def route_match_def nth_list_update)
    have "route_lookup dst s' \<noteq> None \<longleftrightarrow>
        route_lookup dst s \<noteq> None \<or> be dst AND be nmask = be dest AND be nmask"
      using none [OF wf] none [OF wf'] old new unfolding c by (metis less_Suc_eq)
    then show ?thesis
      using False wf' c by (simp add: s'_def route_add_def route_count_def)
  qed
  show ?thesis
    by (rule conjI [OF c1 c2])
qed

theorem route_lookup_longest_prefix_witness:
  "\<exists>s :: ipv4. routes_wf s
     \<and> (case route_add (ip_make 10 0 2 0) (ip_make 255 255 255 0) IP_ADDR_ANY 1 s of
          (rc, s') \<Rightarrow> rc = 0 \<and> route_lookup (ip_make 10 0 2 2) s' \<noteq> None)"
proof -
  let ?r = "\<lparr> rt_dest = IP_ADDR_ANY, rt_netmask = IP_ADDR_ANY, rt_gateway = IP_ADDR_ANY, rt_nif = 0,
     rt_valid = False, rt_prefix_len = 0 \<rparr>"
  let ?s = "(undefined :: ipv4)\<lparr>g_routes := replicate 8 ?r, g_route_count := 0\<rparr>"
  have wf: "routes_wf ?s"
    by (simp add: routes_wf_def IP_ROUTE_MAX_def)
  have m: "be (ip_make 10 0 2 2) AND be (ip_make 255 255 255 0)
      = be (ip_make 10 0 2 0) AND be (ip_make 255 255 255 0)"
    by (simp add: ip_make_def push_bit_eq_mult)
  show ?thesis
    using route_lookup_longest_prefix [OF wf, where dest = "ip_make 10 0 2 0"
        and nmask = "ip_make 255 255 255 0" and gateway = IP_ADDR_ANY and nif = 1
        and dst = "ip_make 10 0 2 2"] m wf
    by (intro exI [of _ ?s]) (auto simp: route_count_def IP_ROUTE_MAX_def split: prod.splits)
qed

subsection \<open>Headers\<close>

lemma ipv4_header_length: "length (ipv4_header tlen ident ttl proto csum src dst) = IPV4_HDR_LEN"
  by (simp add: ipv4_header_def IPV4_HDR_LEN_def field_simps_wire)

lemma ipv4_header_checksum:
  "net_checksum (ipv4_header tlen ident ttl proto
     (net_checksum (ipv4_header tlen ident ttl proto 0 src dst)) src dst) = 0"
proof -
  let ?pre = "[push_bit 4 IPV4_VERSION OR IPV4_IHL_MIN, 0] @ net_put_be16 tlen @ net_put_be16 ident
     @ net_put_be16 IPV4_FLAG_DF @ [ttl, proto]"
  let ?post = "host_put32 (be src) @ host_put32 (be dst)"
  have h: "ipv4_header tlen ident ttl proto c src dst = ?pre @ host_put16 c @ ?post" for c
    by (simp add: ipv4_header_def)
  have z: "host_put16 0 = [0, 0]"
    by (simp add: host_put16_def)
  have len: "length ?pre = 10" "length ?post = 8"
    by (simp_all add: field_simps_wire)
  have even: "even (length ?pre)"
    unfolding len by simp
  have "word_sum (?pre @ ?post) < 2200000000"
    by (rule word_sum_small) (simp add: field_simps_wire)
  then have small: "0 + word_sum ?pre + word_sum ?post + 65535 < 2 ^ 32"
    using word_sum_append [OF even, of ?post] by simp
  show ?thesis
    unfolding h z net_checksum_eq using csum_store_verifies [OF even small] unfolding add_0 .
qed

lemma ipv4_header_fields:
  assumes h_def: "h = ipv4_header tlen ident ttl proto csum src dst @ rest"
  shows "ipv4_version h = IPV4_VERSION" and "ipv4_hdr_bytes h = of_nat IPV4_HDR_LEN"
    and "net_get_be16 (drop 2 h) = tlen" and "h ! 9 = proto"
    and "host_get32 (drop 12 h) = be src" and "host_get32 (drop 16 h) = be dst"
proof -
  note b = net_put_be16_def host_put16_def
  show "ipv4_version h = IPV4_VERSION" "ipv4_hdr_bytes h = of_nat IPV4_HDR_LEN" "h ! 9 = proto"
    by (simp_all add: h_def ipv4_header_def ipv4_version_def ipv4_hdr_bytes_def ipv4_ihl_def b
        IPV4_VERSION_def IPV4_IHL_MIN_def IPV4_HDR_LEN_def)
  show "net_get_be16 (drop 2 h) = tlen" "host_get32 (drop 12 h) = be src" "host_get32 (drop 16 h) = be dst"
    by (simp_all add: h_def ipv4_header_def field_simps_wire)
qed

lemma ipv4_build_spec:
  assumes wf: "netbuf_wf nb" and room: "IPV4_HDR_LEN \<le> nb_data nb"
  obtains nb' where "ipv4_build nb src dst proto ttl s = (0, nb', s\<lparr>g_ip_id := g_ip_id s + 1\<rparr>)"
    and "netbuf_wf nb'" and "nb_data nb' = nb_data nb - IPV4_HDR_LEN"
    and "nb_bytes nb' = ipv4_header (of_nat (IPV4_HDR_LEN + length (nb_bytes nb))) (g_ip_id s) ttl proto
       (net_checksum (ipv4_header (of_nat (IPV4_HDR_LEN + length (nb_bytes nb))) (g_ip_id s) ttl proto 0 src dst))
       src dst @ nb_bytes nb"
proof -
  let ?total = "of_nat (IPV4_HDR_LEN + length (nb_bytes nb)) :: u16"
  let ?h = "ipv4_header ?total (g_ip_id s) ttl proto
     (net_checksum (ipv4_header ?total (g_ip_id s) ttl proto 0 src dst)) src dst"
  have len: "length ?h = IPV4_HDR_LEN"
    by (rule ipv4_header_length)
  let ?nb = "nb\<lparr>nb_data := nb_data nb - IPV4_HDR_LEN\<rparr>"
  have wf': "netbuf_wf ?nb"
    using wf room by (auto simp: netbuf_wf_def)
  have fits: "nb_data nb - IPV4_HDR_LEN + length ?h \<le> length (nb_mem ?nb)"
    using wf room unfolding len netbuf_wf_def by simp
  note p = push_bytes [OF wf, of ?h, unfolded len, OF room]
  let ?r = "(nb_write (nb_data ?nb) ?h ?nb)\<lparr>nb_net := Some (nb_data ?nb)\<rparr>"
  have "ipv4_build nb src dst proto ttl s = (0, ?r, s\<lparr>g_ip_id := g_ip_id s + 1\<rparr>)"
    using wf_sizes(1,4) [OF wf] by (simp add: ipv4_build_def p(1) Let_def)
  moreover have "netbuf_wf ?r"
    using wf' fits nb_write_wf [of "nb_data nb - IPV4_HDR_LEN" ?h ?nb] by (simp add: netbuf_wf_def)
  moreover have "nb_bytes ?r = ?h @ nb_bytes nb"
    using p(2) by (simp add: nb_bytes_def nb_at_def)
  ultimately show ?thesis
    using that [of ?r] by simp
qed

end
