(* ===== verification/Icmp.thy ===== *)
theory Icmp
  imports Ipv4
begin

text \<open>
  ICMP echo: \<open>kernel/net/icmp.c\<close> and \<open>kernel/net/icmp.h\<close>.
\<close>

definition ICMP_ECHO_REPLY :: u8 where "ICMP_ECHO_REPLY = 0"

definition ICMP_ECHO_REQUEST :: u8 where "ICMP_ECHO_REQUEST = 8"

definition ICMP_HDR_LEN :: nat where "ICMP_HDR_LEN = 8"

record icmp = ipv4 +
  g_echo_requests_seen :: u64
  g_echo_replies_sent :: u64
  g_echo_replies_seen :: u64

definition icmp_init :: "'a icmp_scheme \<Rightarrow> 'a icmp_scheme" where
  "icmp_init s = s\<lparr>g_echo_requests_seen := 0, g_echo_replies_sent := 0, g_echo_replies_seen := 0\<rparr>"

definition icmp_header :: "u8 \<Rightarrow> u8 \<Rightarrow> u16 \<Rightarrow> u16 \<Rightarrow> u16 \<Rightarrow> u8 list" where
  "icmp_header type code checksum ident seq =
     [type, code] @ host_put16 checksum @ net_put_be16 ident @ net_put_be16 seq"

text \<open>
  The body of a message: the bytes of the caller, or zeros for a null pointer.  The transport
  protocols share it.
\<close>

definition body_bytes :: "u8 list option \<Rightarrow> u16 \<Rightarrow> u8 list" where
  "body_bytes payload len =
     (case payload of Some p \<Rightarrow> take (unat len) p | None \<Rightarrow> replicate (unat len) 0)"

text \<open>
  A header, and a body behind it when there is one, put into a fresh buffer.  This part is the
  same in the builders of ICMP, UDP and TCP; the result is the buffer with the position of the
  header.
\<close>

definition build_message ::
    "u8 list \<Rightarrow> u8 list option \<Rightarrow> u16 \<Rightarrow> 'a kmem_scheme \<Rightarrow> (nat \<times> netbuf) option \<times> 'a kmem_scheme" where
  "build_message header payload len s =
     (case netbuf_alloc_headroom (length header + unat len) NETBUF_DEFAULT_HEADROOM s of
        (None, s) \<Rightarrow> (None, s)
      | (Some nb, s) \<Rightarrow>
          (case netbuf_put nb (length header) of
             None \<Rightarrow> (None, netbuf_free (Some nb) s)
           | Some (h, nb) \<Rightarrow>
               let nb = nb_write h header nb
               in if len > 0
                  then (case netbuf_put nb (unat len) of
                          None \<Rightarrow> (None, netbuf_free (Some nb) s)
                        | Some (b, nb) \<Rightarrow> (Some (h, nb_write b (body_bytes payload len) nb), s))
                  else (Some (h, nb), s)))"

definition icmp_build ::
    "u8 \<Rightarrow> u8 \<Rightarrow> u16 \<Rightarrow> u16 \<Rightarrow> u8 list option \<Rightarrow> u16 \<Rightarrow> 'a icmp_scheme \<Rightarrow> netbuf option \<times> 'a icmp_scheme" where
  "icmp_build type code ident seq payload len s =
     (case build_message (icmp_header type code 0 ident seq) payload len s of
        (None, s) \<Rightarrow> (None, s)
      | (Some (ih, nb), s) \<Rightarrow>
          (Some (nb_write (ih + 2) (host_put16 (net_checksum (take (netbuf_len nb) (nb_at nb)))) nb), s))"

definition icmp_send_echo ::
    "'a icmp_scheme tx_fn \<Rightarrow> ip_addr \<Rightarrow> u16 \<Rightarrow> u16 \<Rightarrow> u8 list option \<Rightarrow> u16 \<Rightarrow> 'a icmp_scheme \<Rightarrow> int \<times> 'a icmp_scheme" where
  "icmp_send_echo tx dst ident seq payload len s =
     (case icmp_build ICMP_ECHO_REQUEST 0 ident seq payload len s of
        (None, s) \<Rightarrow> (- 1, s)
      | (Some nb, s) \<Rightarrow> ipv4_output tx nb IP_ADDR_ANY dst IP_PROTO_ICMP 64 s)"

definition icmp_input ::
    "'a icmp_scheme tx_fn \<Rightarrow> netbuf \<Rightarrow> ip_addr \<Rightarrow> ip_addr \<Rightarrow> 'a icmp_scheme \<Rightarrow> 'a icmp_scheme" where
  "icmp_input tx nb src dst s =
     (if netbuf_len nb < ICMP_HDR_LEN then s
      else if net_checksum (take (netbuf_len nb) (nb_at nb)) \<noteq> 0 then s
      else let ih = nb_at nb;
               type = ih ! 0;
               ident = net_get_be16 (drop 4 ih);
               seq = net_get_be16 (drop 6 ih)
           in if type = ICMP_ECHO_REPLY then s\<lparr>g_echo_replies_seen := g_echo_replies_seen s + 1\<rparr>
              else if type \<noteq> ICMP_ECHO_REQUEST then s
              else let s = s\<lparr>g_echo_requests_seen := g_echo_requests_seen s + 1\<rparr>;
                       plen = netbuf_len nb - ICMP_HDR_LEN
                   in case icmp_build ICMP_ECHO_REPLY 0 ident seq (Some (drop ICMP_HDR_LEN ih)) (of_nat plen) s of
                        (None, s) \<Rightarrow> s
                      | (Some reply, s) \<Rightarrow>
                          (case ipv4_output tx reply dst src IP_PROTO_ICMP 64 s of
                             (rc, s) \<Rightarrow>
                               if rc \<ge> 0 then s\<lparr>g_echo_replies_sent := g_echo_replies_sent s + 1\<rparr> else s))"

subsection \<open>Built messages\<close>

definition granted :: "'a kmem_scheme \<Rightarrow> bool" where
  "granted s \<longleftrightarrow> (\<forall>n. kmem_grant s n \<noteq> None)"

definition body_ok :: "u8 list option \<Rightarrow> u16 \<Rightarrow> bool" where
  "body_ok payload len \<longleftrightarrow> (case payload of None \<Rightarrow> True | Some p \<Rightarrow> unat len \<le> length p)"

lemma body_bytes_length: "body_ok payload len \<Longrightarrow> length (body_bytes payload len) = unat len"
  by (auto simp: body_ok_def body_bytes_def split: option.splits)

lemma take_patch:
  assumes "k + length x \<le> n" and "n \<le> length ys"
  shows "take n (take k ys @ x @ drop (k + length x) ys) = take k (take n ys) @ x @ drop (k + length x) (take n ys)"
proof -
  have "length (take k ys) = k"
    using assms by simp
  moreover have "take (n - k - length x) (drop (k + length x) ys) = drop (k + length x) (take n ys)"
    by (simp add: drop_take)
  moreover have "take k (take n ys) = take k ys"
    using assms by (simp add: min_def)
  ultimately show ?thesis
    using assms by (simp only: take_append take_all_iff) simp
qed

lemma nb_write_patch:
  assumes "netbuf_wf nb" and "k + length x \<le> length (nb_bytes nb)"
  shows "nb_bytes (nb_write (nb_data nb + k) x nb) = take k (nb_bytes nb) @ x @ drop (k + length x) (nb_bytes nb)"
    and "netbuf_wf (nb_write (nb_data nb + k) x nb)"
proof -
  have len: "nb_data nb + k + length x \<le> length (nb_mem nb)"
    using assms wf_sizes(4) [OF assms(1)] unfolding netbuf_wf_def by linarith
  then show "netbuf_wf (nb_write (nb_data nb + k) x nb)"
    using assms(1) by simp
  have at: "nb_at (nb_write (nb_data nb + k) x nb) = take k (nb_at nb) @ x @ drop (k + length x) (nb_at nb)"
    using len by (simp add: nb_at_def nb_write_def take_drop ac_simps)
  have n1: "k + length x \<le> nb_tail nb - nb_data nb"
    using assms wf_sizes(4) [OF assms(1)] by simp
  have n2: "nb_tail nb - nb_data nb \<le> length (nb_at nb)"
    using assms(1) unfolding nb_at_def netbuf_wf_def length_drop by linarith
  show "nb_bytes (nb_write (nb_data nb + k) x nb)
      = take k (nb_bytes nb) @ x @ drop (k + length x) (nb_bytes nb)"
    unfolding nb_bytes_def nb_write_fields at by (rule take_patch [OF n1 n2])
qed

lemma build_message_spec:
  assumes g: "granted s" and b: "body_ok payload len" and small: "length header < 65536"
  obtains nb where
    "build_message header payload len s =
       (Some (NETBUF_DEFAULT_HEADROOM, nb), s\<lparr>kmem_calls := kmem_calls s + 2, nb_live := nb_live s + 1\<rparr>)"
    and "netbuf_wf nb" and "nb_data nb = NETBUF_DEFAULT_HEADROOM"
    and "nb_bytes nb = header @ body_bytes payload len"
proof -
  let ?cap = "length header + unat len"
  have lt: "unat len < 65536"
    using unat_lt_pow [of len] by simp
  obtain nb0 where a: "netbuf_alloc_headroom ?cap NETBUF_DEFAULT_HEADROOM s =
      (Some nb0, s\<lparr>kmem_calls := kmem_calls s + 2, nb_live := nb_live s + 1\<rparr>)"
    using g alloc_headroom_granted [of s ?cap NETBUF_DEFAULT_HEADROOM] unfolding granted_def by blast
  have sm: "?cap + NETBUF_DEFAULT_HEADROOM < 2 ^ 64"
    using small lt by (simp add: NETBUF_DEFAULT_HEADROOM_def)
  note r = alloc_headroom_result [OF a sm]
  have t0: "nb_tail nb0 + length header \<le> length (nb_mem nb0)"
    using r(4,5) by simp
  define nb1 where "nb1 = nb_write (nb_tail nb0) header (nb0\<lparr>nb_tail := nb_tail nb0 + length header\<rparr>)"
  have n1: "nb_write NETBUF_DEFAULT_HEADROOM header (nb0\<lparr>nb_tail := NETBUF_DEFAULT_HEADROOM + length header\<rparr>) = nb1"
    using r(4) by (simp add: nb1_def)
  note p1 = put_bytes [OF r(1) t0]
  have wf1: "netbuf_wf nb1" and d1: "nb_data nb1 = NETBUF_DEFAULT_HEADROOM"
    and b1: "nb_bytes nb1 = header" and t1: "nb_tail nb1 = nb_tail nb0 + length header"
    and m1: "length (nb_mem nb1) = length (nb_mem nb0)"
    using r p1(2) t0 by (simp_all add: nb1_def nb_write_def netbuf_wf_def)
  show ?thesis
  proof (cases "len > 0")
    case False
    then have "len = 0" by (simp add: word_gt_0)
    then have "body_bytes payload len = []"
      by (simp add: body_bytes_def split: option.split)
    then show ?thesis
      using that [of nb1] wf1 d1 b1 a p1(1) False r(4)
      by (simp add: build_message_def nb1_def Let_def)
  next
    case True
    have bl: "length (body_bytes payload len) = unat len"
      using b by (rule body_bytes_length)
    have t2: "nb_tail nb1 + length (body_bytes payload len) \<le> length (nb_mem nb1)"
      using r(4,5) t1 m1 bl by simp
    note p2 = put_bytes [OF wf1 t2]
    define nb2 where "nb2 = nb_write (nb_tail nb1) (body_bytes payload len)
      (nb1\<lparr>nb_tail := nb_tail nb1 + length (body_bytes payload len)\<rparr>)"
    have "build_message header payload len s =
       (Some (NETBUF_DEFAULT_HEADROOM, nb2), s\<lparr>kmem_calls := kmem_calls s + 2, nb_live := nb_live s + 1\<rparr>)"
      using a p1(1) p2(1) True r(4)
      by (simp add: build_message_def n1 nb2_def bl Let_def)
    moreover have "netbuf_wf nb2"
      using wf1 t2 by (simp add: nb2_def nb_write_def netbuf_wf_def)
    moreover have "nb_data nb2 = NETBUF_DEFAULT_HEADROOM" "nb_bytes nb2 = header @ body_bytes payload len"
      using d1 p2(2) b1 by (simp_all add: nb2_def)
    ultimately show ?thesis
      using that by blast
  qed
qed

text \<open>The live bytes as the receivers and the checksum calls read them.\<close>

lemma take_len_at: "netbuf_wf nb \<Longrightarrow> take (netbuf_len nb) (nb_at nb) = nb_bytes nb"
  by (simp add: wf_sizes nb_bytes_def)

lemma nb_bytes_at:
  assumes "netbuf_wf nb" and "nb_bytes nb = h @ p"
  obtains r where "nb_at nb = h @ p @ r"
  using nb_at_bytes [of nb] assms(2) by simp

lemma icmp_header_length: "length (icmp_header type code c ident seq) = ICMP_HDR_LEN"
  by (simp add: icmp_header_def ICMP_HDR_LEN_def field_simps_wire)

lemma icmp_build_spec:
  assumes g: "granted s" and b: "body_ok payload len" and small: "unat len < 65500"
  obtains nb c where
    "icmp_build type code ident seq payload len s =
       (Some nb, s\<lparr>kmem_calls := kmem_calls s + 2, nb_live := nb_live s + 1\<rparr>)"
    and "netbuf_wf nb" and "nb_data nb = NETBUF_DEFAULT_HEADROOM"
    and "nb_bytes nb = icmp_header type code c ident seq @ body_bytes payload len"
    and "net_checksum (nb_bytes nb) = 0"
proof -
  let ?h = "icmp_header type code 0 ident seq"
  let ?body = "body_bytes payload len"
  have "length ?h < 65536"
    by (simp add: icmp_header_length ICMP_HDR_LEN_def)
  then obtain nb where m: "build_message ?h payload len s =
       (Some (NETBUF_DEFAULT_HEADROOM, nb), s\<lparr>kmem_calls := kmem_calls s + 2, nb_live := nb_live s + 1\<rparr>)"
    and wf: "netbuf_wf nb" and d: "nb_data nb = NETBUF_DEFAULT_HEADROOM" and bts: "nb_bytes nb = ?h @ ?body"
    using build_message_spec [OF g b] by blast
  let ?c = "net_checksum (nb_bytes nb)"
  let ?r = "nb_write (nb_data nb + 2) (host_put16 ?c) nb"
  let ?post = "net_put_be16 ident @ net_put_be16 seq @ ?body"
  have long: "2 + length (host_put16 ?c) \<le> length (nb_bytes nb)"
    by (simp add: bts icmp_header_length ICMP_HDR_LEN_def field_simps_wire)
  have sp: "nb_bytes nb = [type, code] @ [0, 0] @ ?post"
    by (simp add: bts icmp_header_def host_put16_def)
  have bytes: "nb_bytes ?r = [type, code] @ host_put16 ?c @ ?post"
    using nb_write_patch(1) [OF wf long] by (simp add: sp field_simps_wire)
  have bl: "length ?body = unat len"
    using b by (rule body_bytes_length)
  have "word_sum ([type, code] @ ?post) < 2200000000"
    by (rule word_sum_small) (use small in \<open>simp add: bl field_simps_wire\<close>)
  then have sm: "0 + word_sum [type, code] + word_sum ?post + 65535 < 2 ^ 32"
    using word_sum_append [of "[type, code]" ?post] by simp
  have "net_checksum (nb_bytes ?r) = 0"
    using csum_store_verifies [OF _ sm] unfolding bytes by (simp add: net_checksum_eq sp)
  moreover have "icmp_build type code ident seq payload len s =
       (Some ?r, s\<lparr>kmem_calls := kmem_calls s + 2, nb_live := nb_live s + 1\<rparr>)"
    by (simp add: icmp_build_def m d take_len_at [OF wf])
  ultimately show ?thesis
    using that [of ?r ?c] nb_write_patch(2) [OF wf long] d bytes by (simp add: icmp_header_def)
qed

end
