(* ===== verification/Udp.thy ===== *)
theory Udp
  imports Icmp
begin

text \<open>
  UDP: \<open>kernel/net/udp.c\<close> and \<open>kernel/net/udp.h\<close>.  The receiver of a binding is a function
  pointer with a context; the argument \<open>call\<close> of \<open>udp_input\<close> is the effect of calling it.
\<close>

definition UDP_HDR_LEN :: nat where "UDP_HDR_LEN = 8"

definition UDP_BIND_MAX :: nat where "UDP_BIND_MAX = 16"

record udp_binding =
  ub_in_use :: bool
  ub_ip :: ip_addr
  ub_port :: u16
  ub_recv :: "nat option"
  ub_ctx :: nat

record udp_call =
  uc_recv :: nat
  uc_ctx :: nat
  uc_src :: ip_addr
  uc_src_port :: u16
  uc_dst :: ip_addr
  uc_dst_port :: u16
  uc_data :: "u8 list"

record udp = icmp +
  g_bindings :: "udp_binding list"
  g_ephemeral_next :: u16
  g_datagrams_received :: u64

definition udp_init :: "'a udp_scheme \<Rightarrow> 'a udp_scheme" where
  "udp_init s =
     s\<lparr>g_bindings := fold (\<lambda>i bs. bs[i := (bs ! i)\<lparr>ub_in_use := False\<rparr>]) [0..<UDP_BIND_MAX] (g_bindings s),
       g_ephemeral_next := 49152, g_datagrams_received := 0\<rparr>"

fun udp_find_loop :: "udp_binding list \<Rightarrow> ip_addr \<Rightarrow> u16 \<Rightarrow> nat list \<Rightarrow> nat option \<Rightarrow> nat option" where
  "udp_find_loop bs ip port [] wild = wild"
| "udp_find_loop bs ip port (i # js) wild =
     (if \<not> ub_in_use (bs ! i) \<or> ub_port (bs ! i) \<noteq> port then udp_find_loop bs ip port js wild
      else if ip_equal (ub_ip (bs ! i)) ip then Some i
      else udp_find_loop bs ip port js (if ip_is_zero (ub_ip (bs ! i)) then Some i else wild))"

definition udp_find :: "ip_addr \<Rightarrow> u16 \<Rightarrow> 'a udp_scheme \<Rightarrow> nat option" where
  "udp_find ip port s = udp_find_loop (g_bindings s) ip port [0..<UDP_BIND_MAX] None"

definition bound_exact :: "ip_addr \<Rightarrow> u16 \<Rightarrow> udp_binding \<Rightarrow> bool" where
  "bound_exact ip port b \<longleftrightarrow> ub_in_use b \<and> ub_port b = port \<and> ip_equal (ub_ip b) ip"

definition udp_bind ::
    "ip_addr \<Rightarrow> u16 \<Rightarrow> nat option \<Rightarrow> nat \<Rightarrow> 'a udp_scheme \<Rightarrow> int \<times> 'a udp_scheme" where
  "udp_bind local_ip local_port recv ctx s =
     (if scan_from (\<lambda>i. bound_exact local_ip local_port (g_bindings s ! i)) 0 UDP_BIND_MAX \<noteq> None
      then (- 1, s)
      else case scan_from (\<lambda>i. \<not> ub_in_use (g_bindings s ! i)) 0 UDP_BIND_MAX of
             None \<Rightarrow> (- 1, s)
           | Some i \<Rightarrow>
               (0, s\<lparr>g_bindings := (g_bindings s)[i :=
                     \<lparr> ub_in_use = True, ub_ip = local_ip, ub_port = local_port,
                       ub_recv = recv, ub_ctx = ctx \<rparr>]\<rparr>))"

definition udp_unbind :: "ip_addr \<Rightarrow> u16 \<Rightarrow> 'a udp_scheme \<Rightarrow> 'a udp_scheme" where
  "udp_unbind local_ip local_port s =
     (case scan_from (\<lambda>i. bound_exact local_ip local_port (g_bindings s ! i)) 0 UDP_BIND_MAX of
        None \<Rightarrow> s
      | Some i \<Rightarrow> s\<lparr>g_bindings := (g_bindings s)[i := (g_bindings s ! i)\<lparr>ub_in_use := False\<rparr>]\<rparr>)"

definition next_port :: "u16 \<Rightarrow> u16" where
  "next_port p = (let q = p + 1 in if q = 0 \<or> q < 49152 then 49152 else q)"

definition port_taken :: "udp_binding list \<Rightarrow> u16 \<Rightarrow> bool" where
  "port_taken bs port \<longleftrightarrow>
     scan_from (\<lambda>i. ub_in_use (bs ! i) \<and> ub_port (bs ! i) = port) 0 UDP_BIND_MAX \<noteq> None"

primrec ephemeral_loop :: "udp_binding list \<Rightarrow> nat \<Rightarrow> u16 \<Rightarrow> u16 \<times> u16" where
  "ephemeral_loop bs 0 p = (0, p)"
| "ephemeral_loop bs (Suc tries) p =
     (if \<not> port_taken bs p then (p, next_port p) else ephemeral_loop bs tries (next_port p))"

definition udp_ephemeral_port :: "'a udp_scheme \<Rightarrow> u16 \<times> 'a udp_scheme" where
  "udp_ephemeral_port s =
     (case ephemeral_loop (g_bindings s) 16384 (g_ephemeral_next s) of
        (port, nxt) \<Rightarrow> (port, s\<lparr>g_ephemeral_next := nxt\<rparr>))"

definition udp_header :: "u16 \<Rightarrow> u16 \<Rightarrow> u16 \<Rightarrow> u16 \<Rightarrow> u8 list" where
  "udp_header src_port dst_port len checksum =
     net_put_be16 src_port @ net_put_be16 dst_port @ net_put_be16 len @ host_put16 checksum"

definition csum_source :: "ip_addr \<Rightarrow> ip_addr \<Rightarrow> 'a udp_scheme \<Rightarrow> ip_addr" where
  "csum_source src dst s =
     (if ip_is_zero src
      then let nif = (case route_lookup dst s of
                        Some (r, _) \<Rightarrow> Some (rt_nif (g_routes s ! r)) | None \<Rightarrow> netif_for_dest dst s);
               nif = (case nif of None \<Rightarrow> netif_default s | Some _ \<Rightarrow> nif)
           in case nif of Some n \<Rightarrow> nif_ip (netif_obj s n) | None \<Rightarrow> src
      else src)"

definition udp_output ::
    "'a udp_scheme tx_fn \<Rightarrow> ip_addr \<Rightarrow> u16 \<Rightarrow> ip_addr \<Rightarrow> u16 \<Rightarrow> u8 list option \<Rightarrow> u16 \<Rightarrow> 'a udp_scheme
       \<Rightarrow> int \<times> 'a udp_scheme" where
  "udp_output tx src src_port dst dst_port data len s =
     (let tlen = of_nat UDP_HDR_LEN + len
      in case build_message (udp_header src_port dst_port tlen 0) data len s of
           (None, s) \<Rightarrow> (- 1, s)
         | (Some (uh, nb), s) \<Rightarrow>
             let csum = net_transport_checksum (be (csum_source src dst s)) (be dst) IP_PROTO_UDP (nb_at nb) tlen;
                 csum = (if csum = 0 then 0xFFFF else csum);
                 nb = nb_write (uh + 6) (host_put16 csum) nb
             in ipv4_output tx nb src dst IP_PROTO_UDP 64 s)"

definition udp_input ::
    "(udp_call \<Rightarrow> 'a udp_scheme \<Rightarrow> 'a udp_scheme) \<Rightarrow> netbuf \<Rightarrow> ip_addr \<Rightarrow> ip_addr \<Rightarrow> 'a udp_scheme \<Rightarrow> 'a udp_scheme" where
  "udp_input call nb src dst s =
     (if netbuf_len nb < UDP_HDR_LEN then s
      else let uh = nb_at nb;
               ulen = net_get_be16 (drop 4 uh)
           in if unat ulen < UDP_HDR_LEN \<or> netbuf_len nb < unat ulen then s
              else if host_get16 (drop 6 uh) \<noteq> 0
                   \<and> net_transport_checksum (be src) (be dst) IP_PROTO_UDP uh ulen \<noteq> 0 then s
              else let src_port = net_get_be16 uh;
                       dst_port = net_get_be16 (drop 2 uh);
                       plen = ulen - of_nat UDP_HDR_LEN;
                       payload = take (unat plen) (drop UDP_HDR_LEN uh);
                       s = s\<lparr>g_datagrams_received := g_datagrams_received s + 1\<rparr>
                   in case udp_find dst dst_port s of
                        None \<Rightarrow> s
                      | Some b \<Rightarrow>
                          (case ub_recv (g_bindings s ! b) of
                             None \<Rightarrow> s
                           | Some f \<Rightarrow>
                               call \<lparr> uc_recv = f, uc_ctx = ub_ctx (g_bindings s ! b), uc_src = src,
                                      uc_src_port = src_port, uc_dst = dst, uc_dst_port = dst_port,
                                      uc_data = payload \<rparr> s))"

subsection \<open>Ephemeral ports\<close>

definition ports_wf :: "'a udp_scheme \<Rightarrow> bool" where
  "ports_wf s \<longleftrightarrow> length (g_bindings s) = UDP_BIND_MAX \<and> 49152 \<le> g_ephemeral_next s"

lemma next_port_unat:
  assumes "49152 \<le> unat p"
  shows "unat (next_port p) = 49152 + (unat p - 49152 + 1) mod 16384"
proof (cases "unat p = 65535")
  case True
  then have "unat (p + 1) = 0"
    by (simp add: unat_word_ariths)
  then have "p + 1 = 0"
    by (simp add: unat_eq_zero)
  then show ?thesis
    using True by (simp add: next_port_def Let_def)
next
  case False
  then have lt: "unat p < 65535"
    using unat_lt_pow [of p] by simp
  then have u: "unat (p + 1) = unat p + 1"
    by (simp add: unat_plus_no_wrap)
  then have "\<not> (p + 1 = 0 \<or> p + 1 < 49152)"
    using assms by (auto simp: word_less_unat unat_eq_zero [symmetric] simp del: unat_eq_zero)
  then have "next_port p = p + 1"
    by (simp add: next_port_def Let_def)
  then show ?thesis
    using u assms lt by (simp add: mod_less)
qed

lemma next_port_iterate:
  assumes "49152 \<le> unat p"
  shows "unat ((next_port ^^ k) p) = 49152 + (unat p - 49152 + k) mod 16384"
proof (induction k)
  case 0
  then show ?case
    using assms unat_lt_pow [of p] by (simp add: mod_less)
next
  case (Suc k)
  then have "49152 \<le> unat ((next_port ^^ k) p)"
    by simp
  then have "unat (next_port ((next_port ^^ k) p)) = 49152 + ((unat p - 49152 + k) mod 16384 + 1) mod 16384"
    using next_port_unat [of "(next_port ^^ k) p"] Suc.IH by simp
  then show ?case
    by (simp add: mod_Suc_eq)
qed

lemma port_taken_iff:
  "length bs = UDP_BIND_MAX \<Longrightarrow>
     port_taken bs p \<longleftrightarrow> (\<exists>i < length bs. ub_in_use (bs ! i) \<and> ub_port (bs ! i) = p)"
  by (auto simp: port_taken_def scan_from_None_iff simp del: not_None_eq)

lemma some_port_free:
  assumes len: "length bs = UDP_BIND_MAX" and p: "49152 \<le> unat p"
  shows "\<exists>k \<le> 16. \<not> port_taken bs ((next_port ^^ k) p)"
proof (rule ccontr)
  assume "\<not> (\<exists>k \<le> 16. \<not> port_taken bs ((next_port ^^ k) p))"
  then have sub: "(\<lambda>k. (next_port ^^ k) p) ` {..16} \<subseteq> ub_port ` set bs"
    using port_taken_iff [OF len] by (fastforce simp: image_iff set_conv_nth)
  have "inj_on (\<lambda>k. (next_port ^^ k) p) {..16}"
  proof (rule inj_onI)
    fix a b :: nat
    assume a: "a \<in> {..16}" and b: "b \<in> {..16}" and eq: "(next_port ^^ a) p = (next_port ^^ b) p"
    define m where "m = unat p - 49152"
    have "(m + a) mod 16384 = (m + b) mod 16384"
      using next_port_iterate [OF p, of a] next_port_iterate [OF p, of b] eq by (simp add: m_def)
    then obtain q1 q2 where q: "m + a + 16384 * q1 = m + b + 16384 * q2"
      unfolding nat_mod_eq_iff by blast
    then have "a + 16384 * q1 = b + 16384 * q2"
      by simp
    then have "a mod 16384 = b mod 16384"
      unfolding nat_mod_eq_iff by blast
    then show "a = b"
      using a b by simp
  qed
  then have "17 = card ((\<lambda>k. (next_port ^^ k) p) ` {..16 :: nat})"
    by (simp add: card_image)
  also have "\<dots> \<le> card (ub_port ` set bs)"
    using sub by (intro card_mono) auto
  also have "\<dots> \<le> length bs"
    by (meson card_image_le card_length finite_set order_trans)
  finally show False
    by (simp add: len UDP_BIND_MAX_def)
qed

lemma ephemeral_loop_finds:
  assumes "k < tries" and "\<not> port_taken bs ((next_port ^^ k) p)"
  obtains j where "j \<le> k" and "ephemeral_loop bs tries p = ((next_port ^^ j) p, (next_port ^^ Suc j) p)"
    and "\<not> port_taken bs ((next_port ^^ j) p)" and "\<forall>i < j. port_taken bs ((next_port ^^ i) p)"
  using assms
proof (induction tries arbitrary: p k thesis)
  case (Suc tries)
  show ?case
  proof (cases "port_taken bs p")
    case False
    then show ?thesis
      by (intro Suc.prems(1) [of 0]) simp_all
  next
    case True
    then obtain k' where k: "k = Suc k'"
      using Suc.prems(3) by (cases k) auto
    have shift: "(next_port ^^ n) (next_port p) = (next_port ^^ Suc n) p" for n
      by (simp add: funpow_swap1)
    have "k' < tries" and "\<not> port_taken bs ((next_port ^^ k') (next_port p))"
      using Suc.prems(2,3) k shift by simp_all
    then obtain j where "j \<le> k'"
      and "ephemeral_loop bs tries (next_port p) = ((next_port ^^ j) (next_port p), (next_port ^^ Suc j) (next_port p))"
      and "\<not> port_taken bs ((next_port ^^ j) (next_port p))"
      and less: "\<forall>i < j. port_taken bs ((next_port ^^ i) (next_port p))"
      using Suc.IH by blast
    moreover have "port_taken bs ((next_port ^^ i) p)" if "i < Suc j" for i
      using that True less shift by (cases i) auto
    ultimately show ?thesis
      using True k shift [of j] shift [of "Suc j"]
      by (intro Suc.prems(1) [of "Suc j"]) simp_all
  qed
qed simp

text \<open>The ports in use, and the dynamic port reached from \<open>p\<close> by \<open>j\<close> steps around the range.\<close>

definition ports_in_use :: "'a udp_scheme \<Rightarrow> nat set" where
  "ports_in_use s = {unat (ub_port b) | b. b \<in> set (g_bindings s) \<and> ub_in_use b}"

definition dynamic_port :: "u16 \<Rightarrow> nat \<Rightarrow> nat" where
  "dynamic_port p j = 49152 + (unat p - 49152 + j) mod 16384"

lemma port_taken_in_use:
  "length (g_bindings s) = UDP_BIND_MAX \<Longrightarrow> port_taken (g_bindings s) p \<longleftrightarrow> unat p \<in> ports_in_use s"
  by (auto simp: port_taken_iff ports_in_use_def in_set_conv_nth)

text \<open>
  C37. The search for an ephemeral port always succeeds: with 16 bindings and 16384 dynamic
  ports it ends within 17 tries.  The port it returns is the first port at or after the search
  pointer, going round the dynamic range 49152 to 65535, that no binding in use has; every port it
  passes over is in use.  The search pointer moves to the port after it, and nothing else changes.
\<close>

theorem udp_ephemeral_port_free:
  assumes "ports_wf s" and "udp_ephemeral_port s = (port, s')"
  shows "49152 \<le> unat port
    \<and> unat port \<notin> ports_in_use s
    \<and> (\<exists>j \<le> 16. unat port = dynamic_port (g_ephemeral_next s) j
         \<and> (\<forall>i < j. dynamic_port (g_ephemeral_next s) i \<in> ports_in_use s)
         \<and> (\<exists>nxt. s' = s\<lparr>g_ephemeral_next := nxt\<rparr> \<and> unat nxt = dynamic_port (g_ephemeral_next s) (Suc j)))
    \<and> ports_wf s'"
proof -
  let ?p = "g_ephemeral_next s"
  have len: "length (g_bindings s) = UDP_BIND_MAX" and p: "49152 \<le> unat ?p"
    using assms(1) by (auto simp: ports_wf_def word_le_unat)
  note it = next_port_iterate [OF p, folded dynamic_port_def] and used = port_taken_in_use [OF len]
  obtain k where "k \<le> 16" and k: "\<not> port_taken (g_bindings s) ((next_port ^^ k) ?p)"
    using some_port_free [OF len p] by blast
  then have "k < 16384" by simp
  then obtain j where j: "j \<le> k" "\<forall>i < j. port_taken (g_bindings s) ((next_port ^^ i) ?p)"
    and e: "ephemeral_loop (g_bindings s) 16384 ?p = ((next_port ^^ j) ?p, (next_port ^^ Suc j) ?p)"
    and f: "\<not> port_taken (g_bindings s) ((next_port ^^ j) ?p)"
    using ephemeral_loop_finds [OF _ k, of 16384] by blast
  have port: "port = (next_port ^^ j) ?p" and s': "s' = s\<lparr>g_ephemeral_next := (next_port ^^ Suc j) ?p\<rparr>"
    using assms(2) by (simp_all only: udp_ephemeral_port_def e prod.case prod.inject)
  have u: "unat port = dynamic_port ?p j" "unat ((next_port ^^ Suc j) ?p) = dynamic_port ?p (Suc j)"
    unfolding port it by (rule refl)+
  have "unat port \<notin> ports_in_use s" using f by (simp add: port used)
  moreover have "\<forall>i < j. dynamic_port ?p i \<in> ports_in_use s" using j(2) by (simp only: used it)
  moreover have "ports_wf s'" using len u(2) by (simp add: s' ports_wf_def word_le_unat dynamic_port_def del: funpow.simps)
  moreover have "49152 \<le> unat port" "j \<le> 16" using u(1) j(1) \<open>k \<le> 16\<close> by (simp_all add: dynamic_port_def)
  ultimately show ?thesis using u s' by blast
qed

theorem udp_ephemeral_port_free_witness:
  "\<exists>s :: udp. ports_wf s \<and> 49152 \<in> ports_in_use s
     \<and> 49152 \<le> unat (fst (udp_ephemeral_port s)) \<and> unat (fst (udp_ephemeral_port s)) \<noteq> 49152"
proof -
  let ?b = "\<lparr> ub_in_use = True, ub_ip = IP_ADDR_ANY, ub_port = 49152, ub_recv = None, ub_ctx = 0 \<rparr>"
  let ?s = "(undefined :: udp)\<lparr>g_bindings := replicate 16 ?b, g_ephemeral_next := 49152\<rparr>"
  have wf: "ports_wf ?s"
    by (simp add: ports_wf_def UDP_BIND_MAX_def)
  have iu: "49152 \<in> ports_in_use ?s"
    by (force simp: ports_in_use_def)
  show ?thesis
    using udp_ephemeral_port_free [OF wf prod.collapse [symmetric]] wf iu by (intro exI [of _ ?s]) metis
qed

subsection \<open>Bindings\<close>

text \<open>A binding of an address and port, and a binding of a port on every address.\<close>

definition listens :: "ip_addr \<Rightarrow> u16 \<Rightarrow> udp_binding \<Rightarrow> bool" where
  "listens ip port b \<longleftrightarrow> ub_in_use b \<and> ub_port b = port \<and> ub_ip b = ip"

definition bound_wild :: "u16 \<Rightarrow> udp_binding \<Rightarrow> bool" where
  "bound_wild port b \<longleftrightarrow> listens IP_ADDR_ANY port b"

lemma bound_exact_iff [simp]: "bound_exact ip port b = listens ip port b"
  by (simp add: bound_exact_def listens_def)

lemma udp_find_loop_spec:
  "case udp_find_loop bs ip port js wild of
     Some i \<Rightarrow> i \<in> set js \<and> listens ip port (bs ! i)
        \<or> (\<forall>j \<in> set js. \<not> listens ip port (bs ! j))
          \<and> (i \<in> set js \<and> bound_wild port (bs ! i) \<or> wild = Some i)
   | None \<Rightarrow> wild = None \<and> (\<forall>j \<in> set js. \<not> listens ip port (bs ! j) \<and> \<not> bound_wild port (bs ! j))"
proof (induction js arbitrary: wild)
  case (Cons j js)
  show ?case
  proof (cases "listens ip port (bs ! j)")
    case True
    then show ?thesis by (simp add: listens_def)
  next
    case False
    let ?w = "if bound_wild port (bs ! j) then Some j else wild"
    have "udp_find_loop bs ip port (j # js) wild = udp_find_loop bs ip port js ?w"
      using False by (auto simp: listens_def bound_wild_def ip_is_zero_iff)
    then show ?thesis
      using Cons.IH [of ?w] False by (auto split: option.splits if_splits)
  qed
qed (simp split: option.split)

lemma udp_find_spec:
  "case udp_find ip port s of
     Some i \<Rightarrow> i < UDP_BIND_MAX \<and> (listens ip port (g_bindings s ! i)
        \<or> bound_wild port (g_bindings s ! i) \<and> (\<forall>j < UDP_BIND_MAX. \<not> listens ip port (g_bindings s ! j)))
   | None \<Rightarrow> \<forall>j < UDP_BIND_MAX. \<not> listens ip port (g_bindings s ! j) \<and> \<not> bound_wild port (g_bindings s ! j)"
  using udp_find_loop_spec [where bs = "g_bindings s" and ip = ip and port = port and js = "[0..<UDP_BIND_MAX]"
      and wild = None]
  by (auto simp: udp_find_def split: option.splits)

definition no_duplicates :: "'a udp_scheme \<Rightarrow> bool" where
  "no_duplicates s \<longleftrightarrow> length (g_bindings s) = UDP_BIND_MAX
     \<and> (\<forall>i < UDP_BIND_MAX. \<forall>j < UDP_BIND_MAX. \<forall>ip port.
          listens ip port (g_bindings s ! i) \<and> listens ip port (g_bindings s ! j) \<longrightarrow> i = j)"

lemma udp_find_exact:
  assumes "no_duplicates s" and "i < UDP_BIND_MAX" and "listens ip port (g_bindings s ! i)"
  shows "udp_find ip port s = Some i"
  using udp_find_spec [of ip port s] assms unfolding no_duplicates_def
  by (auto split: option.splits)

lemma no_duplicates_set:
  assumes nd: "no_duplicates s" and only: "\<And>x y. listens x y b \<Longrightarrow> x = ip \<and> y = port"
    and fresh: "\<And>j. j < UDP_BIND_MAX \<Longrightarrow> j \<noteq> i \<Longrightarrow> \<not> listens ip port (g_bindings s ! j)"
  shows "no_duplicates (s\<lparr>g_bindings := (g_bindings s)[i := b]\<rparr>)"
  unfolding no_duplicates_def
proof (intro conjI allI impI)
  have len: "length (g_bindings s) = UDP_BIND_MAX"
    using nd by (simp add: no_duplicates_def)
  then show "length (g_bindings (s\<lparr>g_bindings := (g_bindings s)[i := b]\<rparr>)) = UDP_BIND_MAX"
    by simp
  fix k j x y
  assume k: "k < UDP_BIND_MAX" and j: "j < UDP_BIND_MAX"
    and both: "listens x y (g_bindings (s\<lparr>g_bindings := (g_bindings s)[i := b]\<rparr>) ! k)
      \<and> listens x y (g_bindings (s\<lparr>g_bindings := (g_bindings s)[i := b]\<rparr>) ! j)"
  consider "k = i" "j = i" | "k = i" "j \<noteq> i" | "k \<noteq> i" "j = i" | "k \<noteq> i" "j \<noteq> i"
    by blast
  then show "k = j"
  proof cases
    case 2
    then show ?thesis using both only [of x y] fresh [OF j] k len by simp
  next
    case 3
    then show ?thesis using both only [of x y] fresh [OF k] j len by simp
  next
    case 4
    then have "listens x y (g_bindings s ! k)" "listens x y (g_bindings s ! j)"
      using both by simp_all
    then show ?thesis using nd k j unfolding no_duplicates_def by blast
  qed simp
qed

lemma udp_bind_spec:
  assumes nd: "no_duplicates s"
  shows "case udp_bind ip port recv ctx s of
     (rc, s') \<Rightarrow>
       if (\<exists>j < UDP_BIND_MAX. listens ip port (g_bindings s ! j)) \<or> (\<forall>j < UDP_BIND_MAX. ub_in_use (g_bindings s ! j))
       then rc = - 1 \<and> s' = s
       else rc = 0 \<and> no_duplicates s'
          \<and> (\<exists>i. udp_find ip port s' = Some i \<and> \<not> ub_in_use (g_bindings s ! i)
               \<and> s' = s\<lparr>g_bindings := (g_bindings s)[i := \<lparr> ub_in_use = True, ub_ip = ip, ub_port = port,
                                                     ub_recv = recv, ub_ctx = ctx \<rparr>]\<rparr>)"
proof -
  have len: "length (g_bindings s) = UDP_BIND_MAX"
    using nd by (simp add: no_duplicates_def)
  let ?dup = "scan_from (\<lambda>i. listens ip port (g_bindings s ! i)) 0 UDP_BIND_MAX"
  let ?free = "scan_from (\<lambda>i. \<not> ub_in_use (g_bindings s ! i)) 0 UDP_BIND_MAX"
  have dup: "?dup = None \<longleftrightarrow> (\<forall>j < UDP_BIND_MAX. \<not> listens ip port (g_bindings s ! j))"
    and free: "?free = None \<longleftrightarrow> (\<forall>j < UDP_BIND_MAX. ub_in_use (g_bindings s ! j))"
    by (simp_all add: scan_from_None_iff)
  show ?thesis
  proof (cases "?dup = None \<and> ?free \<noteq> None")
    case False
    then show ?thesis
      using dup free by (auto simp: udp_bind_def split: option.splits)
  next
    case True
    then obtain i where i: "?free = Some i" by blast
    note si = scan_from_SomeD [OF i]
    define b where "b = \<lparr> ub_in_use = True, ub_ip = ip, ub_port = port, ub_recv = recv, ub_ctx = ctx \<rparr>"
    define s' where "s' = s\<lparr>g_bindings := (g_bindings s)[i := b]\<rparr>"
    have r: "udp_bind ip port recv ctx s = (0, s')"
      using True i by (simp add: udp_bind_def s'_def b_def)
    have be: "listens x y b \<longleftrightarrow> x = ip \<and> y = port" for x y
      by (auto simp: b_def listens_def)
    have nd': "no_duplicates s'"
      unfolding s'_def using True dup be by (intro no_duplicates_set [OF nd]) auto
    moreover have "udp_find ip port s' = Some i"
      using udp_find_exact [OF nd', of i] si len by (simp add: s'_def be)
    moreover have "\<not> ((\<exists>j < UDP_BIND_MAX. listens ip port (g_bindings s ! j)) \<or> (\<forall>j < UDP_BIND_MAX. ub_in_use (g_bindings s ! j)))"
      using True by (simp add: dup free)
    ultimately show ?thesis
      using si s'_def [unfolded b_def] unfolding r by (simp only: prod.case if_False) blast
  qed
qed

lemma udp_unbind_spec:
  assumes nd: "no_duplicates s"
  shows "no_duplicates (udp_unbind ip port s)
       \<and> udp_unbind ip port s
           = s\<lparr>g_bindings := map (\<lambda>b. if listens ip port b then b\<lparr>ub_in_use := False\<rparr> else b) (g_bindings s)\<rparr>"
proof -
  have len: "length (g_bindings s) = UDP_BIND_MAX"
    using nd by (simp add: no_duplicates_def)
  let ?dup = "scan_from (\<lambda>i. listens ip port (g_bindings s ! i)) 0 UDP_BIND_MAX"
  have dup: "?dup = None \<longleftrightarrow> (\<forall>j < UDP_BIND_MAX. \<not> listens ip port (g_bindings s ! j))"
    by (simp add: scan_from_None_iff)
  show ?thesis
  proof (cases ?dup)
    case None
    then have "map (\<lambda>b. if listens ip port b then b\<lparr>ub_in_use := False\<rparr> else b) (g_bindings s) = g_bindings s"
      using dup len by (intro map_idI) (auto simp: in_set_conv_nth)
    then show ?thesis
      using nd None by (simp add: udp_unbind_def)
  next
    case (Some i)
    note si = scan_from_SomeD [OF Some]
    have off: "\<not> listens x y ((g_bindings s ! i)\<lparr>ub_in_use := False\<rparr>)" for x y
      by (simp add: listens_def)
    have only: "\<not> listens ip port (g_bindings s ! j)" if "j < UDP_BIND_MAX" "j \<noteq> i" for j
      using nd that si unfolding no_duplicates_def by blast
    have "no_duplicates (udp_unbind ip port s)"
      using off only by (simp add: udp_unbind_def Some) (intro no_duplicates_set [OF nd]; blast)
    moreover have "(g_bindings s)[i := (g_bindings s ! i)\<lparr>ub_in_use := False\<rparr>]
        = map (\<lambda>b. if listens ip port b then b\<lparr>ub_in_use := False\<rparr> else b) (g_bindings s)"
      using si only len by (intro nth_equalityI) (auto simp: nth_list_update)
    ultimately show ?thesis by (simp add: udp_unbind_def Some)
  qed
qed

text \<open>
  C38. Datagrams are delivered to the right binding.  A lookup returns a binding of the exact
  address when there is one and otherwise a wildcard binding of the port, and fails exactly when
  there is neither; a successful bind makes the new binding the one its address and port find
  and keeps every pair of address and port bound at most once; bind fails exactly for a pair
  that is bound already or a full table, without an effect; unbind marks the binding of its pair
  as unused and leaves every other binding, and the rest of the state, as it was.
\<close>

theorem udp_demux_correct:
  assumes nd: "no_duplicates s"
  shows "(case udp_find ip port s of
     Some i \<Rightarrow> i < UDP_BIND_MAX \<and> (listens ip port (g_bindings s ! i)
        \<or> bound_wild port (g_bindings s ! i) \<and> (\<forall>j < UDP_BIND_MAX. \<not> listens ip port (g_bindings s ! j)))
   | None \<Rightarrow> \<forall>j < UDP_BIND_MAX. \<not> listens ip port (g_bindings s ! j) \<and> \<not> bound_wild port (g_bindings s ! j))
    \<and> (case udp_bind ip port recv ctx s of
     (rc, s') \<Rightarrow>
       if (\<exists>j < UDP_BIND_MAX. listens ip port (g_bindings s ! j)) \<or> (\<forall>j < UDP_BIND_MAX. ub_in_use (g_bindings s ! j))
       then rc = - 1 \<and> s' = s
       else rc = 0 \<and> no_duplicates s'
          \<and> (\<exists>i. udp_find ip port s' = Some i \<and> \<not> ub_in_use (g_bindings s ! i)
               \<and> s' = s\<lparr>g_bindings := (g_bindings s)[i := \<lparr> ub_in_use = True, ub_ip = ip, ub_port = port,
                                                     ub_recv = recv, ub_ctx = ctx \<rparr>]\<rparr>))
    \<and> (no_duplicates (udp_unbind ip port s)
       \<and> udp_unbind ip port s
           = s\<lparr>g_bindings := map (\<lambda>b. if listens ip port b then b\<lparr>ub_in_use := False\<rparr> else b) (g_bindings s)\<rparr>)"
  by (rule conjI [OF udp_find_spec conjI [OF udp_bind_spec [OF nd] udp_unbind_spec [OF nd]]])

theorem udp_demux_correct_witness:
  "\<exists>s :: udp. no_duplicates s \<and> udp_find IP_ADDR_ANY 9 (udp_unbind IP_ADDR_ANY 7 s) = Some 4
     \<and> udp_find IP_ADDR_ANY 7 (udp_unbind IP_ADDR_ANY 7 s) = None"
proof -
  let ?b = "\<lparr> ub_in_use = False, ub_ip = IP_ADDR_ANY, ub_port = 0, ub_recv = None, ub_ctx = 0 \<rparr>"
  let ?s = "(undefined :: udp)\<lparr>g_bindings := (replicate 16 ?b)[3 := ?b\<lparr>ub_in_use := True, ub_port := 7\<rparr>,
      4 := ?b\<lparr>ub_in_use := True, ub_port := 9\<rparr>]\<rparr>"
  have "i = (if y = 7 then 3 else 4)" if "i < 16" "listens x y (g_bindings ?s ! i)" for i x y
    using that by (cases "i = 3"; cases "i = 4") (simp_all add: listens_def)
  then have nd: "no_duplicates ?s"
    unfolding no_duplicates_def by (simp add: UDP_BIND_MAX_def) blast
  have u: "udp_unbind IP_ADDR_ANY 7 ?s
      = ?s\<lparr>g_bindings := map (\<lambda>b. if listens IP_ADDR_ANY 7 b then b\<lparr>ub_in_use := False\<rparr> else b) (g_bindings ?s)\<rparr>"
    using udp_demux_correct [OF nd, where ip = IP_ADDR_ANY and port = 7] by blast
  have "udp_find IP_ADDR_ANY 9 (udp_unbind IP_ADDR_ANY 7 ?s) = Some 4" "udp_find IP_ADDR_ANY 7 (udp_unbind IP_ADDR_ANY 7 ?s) = None"
    unfolding u by (simp_all add: udp_find_def UDP_BIND_MAX_def listens_def eval_nat_numeral ip_is_zero_iff)
  then show ?thesis using nd by blast
qed

end
