(* ===== verification/Tcp.thy ===== *)
theory Tcp
  imports Udp
begin

text \<open>
  TCP: \<open>kernel/net/tcp.c\<close> and \<open>kernel/net/tcp.h\<close>.  The control blocks are the array of the
  source; a block is addressed by its index, \<open>None\<close> is the null pointer.
\<close>

definition TCP_HDR_LEN :: nat where "TCP_HDR_LEN = 20"

definition TCP_F_FIN :: u8 where "TCP_F_FIN = 0x01"

definition TCP_F_SYN :: u8 where "TCP_F_SYN = 0x02"

definition TCP_F_ACK :: u8 where "TCP_F_ACK = 0x10"

datatype tcp_state =
    TCP_CLOSED | TCP_LISTEN | TCP_SYN_SENT | TCP_SYN_RECEIVED | TCP_ESTABLISHED
  | TCP_FIN_WAIT_1 | TCP_FIN_WAIT_2 | TCP_CLOSE_WAIT | TCP_CLOSING | TCP_LAST_ACK | TCP_TIME_WAIT

record tcp_tcb =
  tcb_in_use :: bool
  tcb_state :: tcp_state
  local_ip :: ip_addr
  remote_ip :: ip_addr
  local_port :: u16
  remote_port :: u16
  snd_una :: u32
  snd_nxt :: u32
  snd_wnd :: u32
  iss :: u32
  rcv_nxt :: u32
  rcv_wnd :: u32
  irs :: u32

definition TCP_TCB_MAX :: nat where "TCP_TCB_MAX = 8"

record tcp = udp +
  g_tcbs :: "tcp_tcb list"
  g_iss_clock :: u32

definition tcp_data_offset_words :: "u8 list \<Rightarrow> u8" where
  "tcp_data_offset_words h = drop_bit 4 (h ! 12)"

definition tcp_header_bytes :: "u8 list \<Rightarrow> u16" where
  "tcp_header_bytes h = ucast (tcp_data_offset_words h) * 4"

definition upd_tcb :: "nat \<Rightarrow> (tcp_tcb \<Rightarrow> tcp_tcb) \<Rightarrow> 'a tcp_scheme \<Rightarrow> 'a tcp_scheme" where
  "upd_tcb t f s = s\<lparr>g_tcbs := (g_tcbs s)[t := f (g_tcbs s ! t)]\<rparr>"

definition tcp_init :: "'a tcp_scheme \<Rightarrow> 'a tcp_scheme" where
  "tcp_init s =
     s\<lparr>g_tcbs := fold (\<lambda>i ts. ts[i := (ts ! i)\<lparr>tcb_in_use := False, tcb_state := TCP_CLOSED\<rparr>])
          [0..<TCP_TCB_MAX] (g_tcbs s),
       g_iss_clock := 0x10000\<rparr>"

fun tcp_state_name :: "tcp_state \<Rightarrow> string" where
  "tcp_state_name TCP_CLOSED = ''CLOSED''"
| "tcp_state_name TCP_LISTEN = ''LISTEN''"
| "tcp_state_name TCP_SYN_SENT = ''SYN_SENT''"
| "tcp_state_name TCP_SYN_RECEIVED = ''SYN_RECEIVED''"
| "tcp_state_name TCP_ESTABLISHED = ''ESTABLISHED''"
| "tcp_state_name TCP_FIN_WAIT_1 = ''FIN_WAIT_1''"
| "tcp_state_name TCP_FIN_WAIT_2 = ''FIN_WAIT_2''"
| "tcp_state_name TCP_CLOSE_WAIT = ''CLOSE_WAIT''"
| "tcp_state_name TCP_CLOSING = ''CLOSING''"
| "tcp_state_name TCP_LAST_ACK = ''LAST_ACK''"
| "tcp_state_name TCP_TIME_WAIT = ''TIME_WAIT''"

definition tcp_gen_iss :: "'a tcp_scheme \<Rightarrow> u32 \<times> 'a tcp_scheme" where
  "tcp_gen_iss s = (g_iss_clock s + 64000, s\<lparr>g_iss_clock := g_iss_clock s + 64000\<rparr>)"

definition tcp_tcb_alloc :: "'a tcp_scheme \<Rightarrow> nat option \<times> 'a tcp_scheme" where
  "tcp_tcb_alloc s =
     (case scan_from (\<lambda>i. \<not> tcb_in_use (g_tcbs s ! i)) 0 TCP_TCB_MAX of
        None \<Rightarrow> (None, s)
      | Some i \<Rightarrow>
          (Some i, upd_tcb i (\<lambda>_. \<lparr> tcb_in_use = True, tcb_state = TCP_CLOSED,
               local_ip = \<lparr> be = 0 \<rparr>, remote_ip = \<lparr> be = 0 \<rparr>, local_port = 0, remote_port = 0,
               snd_una = 0, snd_nxt = 0, snd_wnd = 65535, iss = 0,
               rcv_nxt = 0, rcv_wnd = 65535, irs = 0 \<rparr>) s))"

definition tcp_tcb_free :: "nat option \<Rightarrow> 'a tcp_scheme \<Rightarrow> 'a tcp_scheme" where
  "tcp_tcb_free tcb s =
     (case tcb of
        None \<Rightarrow> s
      | Some t \<Rightarrow> upd_tcb t (\<lambda>b. b\<lparr>tcb_in_use := False, tcb_state := TCP_CLOSED\<rparr>) s)"

fun tcp_lookup_loop ::
    "tcp_tcb list \<Rightarrow> ip_addr \<Rightarrow> u16 \<Rightarrow> ip_addr \<Rightarrow> u16 \<Rightarrow> nat list \<Rightarrow> nat option \<Rightarrow> nat option" where
  "tcp_lookup_loop ts lip lport rip rport [] listener = listener"
| "tcp_lookup_loop ts lip lport rip rport (i # js) listener =
     (let t = ts ! i
      in if \<not> tcb_in_use t \<or> local_port t \<noteq> lport then tcp_lookup_loop ts lip lport rip rport js listener
         else if tcb_state t \<noteq> TCP_LISTEN \<and> remote_port t = rport \<and> ip_equal (remote_ip t) rip
              \<and> (ip_is_zero (local_ip t) \<or> ip_equal (local_ip t) lip) then Some i
         else tcp_lookup_loop ts lip lport rip rport js
                (if tcb_state t = TCP_LISTEN \<and> (ip_is_zero (local_ip t) \<or> ip_equal (local_ip t) lip)
                 then Some i else listener))"

definition tcp_lookup :: "ip_addr \<Rightarrow> u16 \<Rightarrow> ip_addr \<Rightarrow> u16 \<Rightarrow> 'a tcp_scheme \<Rightarrow> nat option" where
  "tcp_lookup lip lport rip rport s =
     tcp_lookup_loop (g_tcbs s) lip lport rip rport [0..<TCP_TCB_MAX] None"

definition tcp_listen :: "nat option \<Rightarrow> ip_addr \<Rightarrow> u16 \<Rightarrow> 'a tcp_scheme \<Rightarrow> int \<times> 'a tcp_scheme" where
  "tcp_listen tcb lip lport s =
     (case tcb of
        None \<Rightarrow> (- 1, s)
      | Some t \<Rightarrow>
          (0, upd_tcb t (\<lambda>b. b\<lparr>local_ip := lip, local_port := lport, remote_ip := IP_ADDR_ANY,
                               remote_port := 0, tcb_state := TCP_LISTEN\<rparr>) s))"

definition tcp_header :: "u16 \<Rightarrow> u16 \<Rightarrow> u32 \<Rightarrow> u32 \<Rightarrow> u8 \<Rightarrow> u16 \<Rightarrow> u16 \<Rightarrow> u8 list" where
  "tcp_header src_port dst_port seq ack flags window checksum =
     net_put_be16 src_port @ net_put_be16 dst_port @ net_put_be32 seq @ net_put_be32 ack
     @ [push_bit 4 (of_nat (TCP_HDR_LEN div 4)), flags] @ net_put_be16 window @ host_put16 checksum
     @ net_put_be16 0"

definition tcp_build_segment ::
    "ip_addr \<Rightarrow> u16 \<Rightarrow> ip_addr \<Rightarrow> u16 \<Rightarrow> u32 \<Rightarrow> u32 \<Rightarrow> u8 \<Rightarrow> u16 \<Rightarrow> u8 list option \<Rightarrow> u16
       \<Rightarrow> 'a tcp_scheme \<Rightarrow> netbuf option \<times> 'a tcp_scheme" where
  "tcp_build_segment src src_port dst dst_port seq ack flags window data len s =
     (case build_message (tcp_header src_port dst_port seq ack flags window 0) data len s of
        (None, s) \<Rightarrow> (None, s)
      | (Some (th, nb), s) \<Rightarrow>
          let tlen = of_nat TCP_HDR_LEN + len;
              csum = net_transport_checksum (be src) (be dst) IP_PROTO_TCP (nb_at nb) tlen
          in (Some (nb_write (th + 16) (host_put16 csum) nb), s))"

definition tcp_send_segment ::
    "'a tcp_scheme tx_fn \<Rightarrow> nat option \<Rightarrow> u8 \<Rightarrow> u8 list option \<Rightarrow> u16 \<Rightarrow> 'a tcp_scheme \<Rightarrow> int \<times> 'a tcp_scheme" where
  "tcp_send_segment tx tcb flags data len s =
     (case tcb of
        None \<Rightarrow> (- 1, s)
      | Some t \<Rightarrow>
          let b = g_tcbs s ! t
          in case tcp_build_segment (local_ip b) (local_port b) (remote_ip b) (remote_port b)
                    (snd_nxt b) (rcv_nxt b) flags (ucast (rcv_wnd b)) data len s of
               (None, s) \<Rightarrow> (- 1, s)
             | (Some nb, s) \<Rightarrow>
                 let s = (if flags AND TCP_F_SYN \<noteq> 0 then upd_tcb t (\<lambda>b. b\<lparr>snd_nxt := snd_nxt b + 1\<rparr>) s else s);
                     s = upd_tcb t (\<lambda>b. b\<lparr>snd_nxt := snd_nxt b + ucast len\<rparr>) s;
                     s = (if flags AND TCP_F_FIN \<noteq> 0 then upd_tcb t (\<lambda>b. b\<lparr>snd_nxt := snd_nxt b + 1\<rparr>) s else s);
                     b = g_tcbs s ! t
                 in ipv4_output tx nb (local_ip b) (remote_ip b) IP_PROTO_TCP 64 s)"

definition tcp_connect ::
    "'a tcp_scheme tx_fn \<Rightarrow> nat option \<Rightarrow> ip_addr \<Rightarrow> u16 \<Rightarrow> ip_addr \<Rightarrow> u16 \<Rightarrow> 'a tcp_scheme \<Rightarrow> int \<times> 'a tcp_scheme" where
  "tcp_connect tx tcb lip lport rip rport s =
     (case tcb of
        None \<Rightarrow> (- 1, s)
      | Some t \<Rightarrow>
          let s = upd_tcb t (\<lambda>b. b\<lparr>local_ip := lip, local_port := lport, remote_ip := rip, remote_port := rport\<rparr>) s
          in case tcp_gen_iss s of
               (iss0, s) \<Rightarrow>
                 let s = upd_tcb t (\<lambda>b. b\<lparr>iss := iss0, snd_una := iss0, snd_nxt := iss0, rcv_nxt := 0,
                                         tcb_state := TCP_SYN_SENT\<rparr>) s
                 in tcp_send_segment tx tcb TCP_F_SYN None 0 s)"

definition tcp_close :: "'a tcp_scheme tx_fn \<Rightarrow> nat option \<Rightarrow> 'a tcp_scheme \<Rightarrow> int \<times> 'a tcp_scheme" where
  "tcp_close tx tcb s =
     (case tcb of
        None \<Rightarrow> (- 1, s)
      | Some t \<Rightarrow>
          (case tcb_state (g_tcbs s ! t) of
             TCP_ESTABLISHED \<Rightarrow>
               tcp_send_segment tx tcb (TCP_F_FIN OR TCP_F_ACK) None 0
                 (upd_tcb t (\<lambda>b. b\<lparr>tcb_state := TCP_FIN_WAIT_1\<rparr>) s)
           | TCP_CLOSE_WAIT \<Rightarrow>
               tcp_send_segment tx tcb (TCP_F_FIN OR TCP_F_ACK) None 0
                 (upd_tcb t (\<lambda>b. b\<lparr>tcb_state := TCP_LAST_ACK\<rparr>) s)
           | TCP_SYN_SENT \<Rightarrow> (0, upd_tcb t (\<lambda>b. b\<lparr>tcb_state := TCP_CLOSED\<rparr>) s)
           | TCP_SYN_RECEIVED \<Rightarrow> (0, upd_tcb t (\<lambda>b. b\<lparr>tcb_state := TCP_CLOSED\<rparr>) s)
           | TCP_LISTEN \<Rightarrow> (0, upd_tcb t (\<lambda>b. b\<lparr>tcb_state := TCP_CLOSED\<rparr>) s)
           | _ \<Rightarrow> (0, s)))"

definition has :: "u8 \<Rightarrow> u8 \<Rightarrow> bool" where
  "has flags f \<longleftrightarrow> flags AND f \<noteq> 0"

definition reply :: "'a tcp_scheme tx_fn \<Rightarrow> nat \<Rightarrow> u8 \<Rightarrow> 'a tcp_scheme \<Rightarrow> 'a tcp_scheme" where
  "reply tx t flags s = snd (tcp_send_segment tx (Some t) flags None 0 s)"

definition on_listen where
  "on_listen tx t seq flags s =
     (if has flags TCP_F_SYN
      then let s = upd_tcb t (\<lambda>b. b\<lparr>irs := seq, rcv_nxt := seq + 1\<rparr>) s
           in case tcp_gen_iss s of
                (iss0, s) \<Rightarrow>
                  reply tx t (TCP_F_SYN OR TCP_F_ACK)
                    (upd_tcb t (\<lambda>b. b\<lparr>iss := iss0, snd_una := iss0, snd_nxt := iss0,
                                     tcb_state := TCP_SYN_RECEIVED\<rparr>) s)
      else s)"

definition on_syn_sent where
  "on_syn_sent tx t seq ack flags s =
     (if flags AND (TCP_F_SYN OR TCP_F_ACK) = TCP_F_SYN OR TCP_F_ACK
      then reply tx t TCP_F_ACK
             (upd_tcb t (\<lambda>b. b\<lparr>irs := seq, rcv_nxt := seq + 1, snd_una := ack, tcb_state := TCP_ESTABLISHED\<rparr>) s)
      else if has flags TCP_F_SYN
      then reply tx t (TCP_F_SYN OR TCP_F_ACK)
             (upd_tcb t (\<lambda>b. b\<lparr>irs := seq, rcv_nxt := seq + 1, tcb_state := TCP_SYN_RECEIVED\<rparr>) s)
      else s)"

definition on_established where
  "on_established tx t seq flags (seglen :: u16) s =
     (let s = (if seglen > 0
               then reply tx t TCP_F_ACK (upd_tcb t (\<lambda>b. b\<lparr>rcv_nxt := seq + ucast seglen\<rparr>) s) else s)
      in if has flags TCP_F_FIN
         then reply tx t TCP_F_ACK
                (upd_tcb t (\<lambda>b. b\<lparr>rcv_nxt := seq + ucast seglen + 1, tcb_state := TCP_CLOSE_WAIT\<rparr>) s)
         else s)"

definition on_fin_wait_1 where
  "on_fin_wait_1 tx t seq flags s =
     (let s = (if has flags TCP_F_ACK then upd_tcb t (\<lambda>b. b\<lparr>tcb_state := TCP_FIN_WAIT_2\<rparr>) s else s)
      in if has flags TCP_F_FIN
         then reply tx t TCP_F_ACK
                (upd_tcb t (\<lambda>b. b\<lparr>rcv_nxt := seq + 1,
                   tcb_state := if tcb_state b = TCP_FIN_WAIT_2 then TCP_TIME_WAIT else TCP_CLOSING\<rparr>) s)
         else s)"

definition on_fin_wait_2 where
  "on_fin_wait_2 tx t seq flags s =
     (if has flags TCP_F_FIN
      then reply tx t TCP_F_ACK (upd_tcb t (\<lambda>b. b\<lparr>rcv_nxt := seq + 1, tcb_state := TCP_TIME_WAIT\<rparr>) s)
      else s)"

definition tcp_state_machine ::
    "'a tcp_scheme tx_fn \<Rightarrow> nat \<Rightarrow> u32 \<Rightarrow> u32 \<Rightarrow> u8 \<Rightarrow> u16 \<Rightarrow> 'a tcp_scheme \<Rightarrow> 'a tcp_scheme" where
  "tcp_state_machine tx t seq ack flags seglen s =
     (case tcb_state (g_tcbs s ! t) of
        TCP_LISTEN \<Rightarrow> on_listen tx t seq flags s
      | TCP_SYN_SENT \<Rightarrow> on_syn_sent tx t seq ack flags s
      | TCP_SYN_RECEIVED \<Rightarrow>
          if has flags TCP_F_ACK
          then upd_tcb t (\<lambda>b. b\<lparr>snd_una := ack, tcb_state := TCP_ESTABLISHED\<rparr>) s else s
      | TCP_ESTABLISHED \<Rightarrow> on_established tx t seq flags seglen s
      | TCP_FIN_WAIT_1 \<Rightarrow> on_fin_wait_1 tx t seq flags s
      | TCP_FIN_WAIT_2 \<Rightarrow> on_fin_wait_2 tx t seq flags s
      | TCP_CLOSING \<Rightarrow>
          if has flags TCP_F_ACK then upd_tcb t (\<lambda>b. b\<lparr>tcb_state := TCP_TIME_WAIT\<rparr>) s else s
      | TCP_LAST_ACK \<Rightarrow>
          if has flags TCP_F_ACK
          then tcp_tcb_free (Some t) (upd_tcb t (\<lambda>b. b\<lparr>tcb_state := TCP_CLOSED\<rparr>) s) else s
      | _ \<Rightarrow> s)"

definition tcp_input ::
    "'a tcp_scheme tx_fn \<Rightarrow> netbuf \<Rightarrow> ip_addr \<Rightarrow> ip_addr \<Rightarrow> 'a tcp_scheme \<Rightarrow> 'a tcp_scheme" where
  "tcp_input tx nb src dst s =
     (if netbuf_len nb < TCP_HDR_LEN then s
      else let th = nb_at nb;
               hdr_bytes = tcp_header_bytes th
           in if unat hdr_bytes < TCP_HDR_LEN \<or> netbuf_len nb < unat hdr_bytes then s
              else let seg_total = of_nat (netbuf_len nb) :: u16
                   in if net_transport_checksum (be src) (be dst) IP_PROTO_TCP th seg_total \<noteq> 0 then s
                      else let src_port = net_get_be16 th;
                               dst_port = net_get_be16 (drop 2 th);
                               seq = net_get_be32 (drop 4 th);
                               ack = net_get_be32 (drop 8 th);
                               flags = th ! 13;
                               seglen = seg_total - hdr_bytes
                           in case tcp_lookup dst dst_port src src_port s of
                                None \<Rightarrow> s
                              | Some t \<Rightarrow>
                                  let s = (if tcb_state (g_tcbs s ! t) = TCP_LISTEN
                                           then upd_tcb t (\<lambda>b. b\<lparr>remote_ip := src, remote_port := src_port,
                                                                local_ip := dst\<rparr>) s
                                           else s)
                                  in tcp_state_machine tx t seq ack flags seglen s)"

subsection \<open>Output leaves the control blocks alone\<close>

text \<open>
  A transmit hook is quiet when it does not call back into TCP before it returns, as a network
  card driver does that receives in interrupt context.
\<close>

definition quiet_tx :: "'a tcp_scheme tx_fn \<Rightarrow> bool" where
  "quiet_tx tx \<longleftrightarrow> (\<forall>i nb s. g_tcbs (snd (tx i nb s)) = g_tcbs s)"

lemma frame_tcbs [simp]:
  "g_tcbs (upd_stats i f s) = g_tcbs (s :: 'a tcp_scheme)"
  "g_tcbs (netbuf_free nb s) = g_tcbs (s :: 'a tcp_scheme)"
  "g_tcbs (upd_arp i g s) = g_tcbs (s :: 'a tcp_scheme)"
  by (simp_all add: upd_stats_def upd_nif_def netbuf_free_def upd_arp_def split: option.split)

lemma alloc_tcbs: "g_tcbs (snd (netbuf_alloc_headroom c h s)) = g_tcbs (s :: 'a tcp_scheme)"
  by (auto simp: netbuf_alloc_headroom_def kmem_take_def Let_def split: option.splits)

lemma netif_transmit_tcbs:
  assumes "quiet_tx tx"
  shows "g_tcbs (snd (netif_transmit tx nif nb s)) = g_tcbs s"
proof (cases nif)
  case (Some i)
  obtain rc s' where t: "tx i nb s = (rc, s')" by fastforce
  then have "g_tcbs s' = g_tcbs s"
    using assms unfolding quiet_tx_def by (metis snd_conv)
  then show ?thesis
    by (simp add: netif_transmit_def Some t Let_def)
qed (simp add: netif_transmit_def)

lemma arp_build_tcbs: "g_tcbs (snd (arp_build nif oper tpa tha d s)) = g_tcbs (s :: 'a tcp_scheme)"
proof (cases "netbuf_alloc (ARP_HDR_LEN + ETH_HLEN) s")
  case (Pair r s')
  then have "g_tcbs s' = g_tcbs s"
    using alloc_tcbs [of "ARP_HDR_LEN + ETH_HLEN" NETBUF_DEFAULT_HEADROOM s] by (simp add: netbuf_alloc_def)
  then show ?thesis
    by (auto simp: arp_build_def Pair Let_def split: option.splits prod.splits)
qed

lemma arp_send_request_tcbs:
  assumes "quiet_tx tx"
  shows "g_tcbs (snd (arp_send_request tx nif ip s)) = g_tcbs s"
  using netif_transmit_tcbs [OF assms] arp_build_tcbs [of nif ARP_OP_REQUEST ip eth_zero eth_broadcast s]
  by (auto simp: arp_send_request_def split: option.splits prod.splits)

lemma arp_resolve_tcbs:
  assumes "quiet_tx tx"
  shows "g_tcbs (snd (snd (arp_resolve tx nif ip s))) = g_tcbs s"
  using arp_send_request_tcbs [OF assms]
  by (auto simp: arp_resolve_def arp_slot_for_def Let_def split: option.splits prod.splits)

lemma ipv4_build_tcbs: "g_tcbs (snd (snd (ipv4_build nb src dst proto ttl s))) = g_tcbs (s :: 'a tcp_scheme)"
  by (auto simp: ipv4_build_def Let_def split: option.splits)

lemma ipv4_output_tcbs:
  assumes "quiet_tx tx"
  shows "g_tcbs (snd (ipv4_output tx nb src dst proto ttl s)) = g_tcbs s"
proof (cases "egress dst s")
  case (Pair n hop)
  show ?thesis
  proof (cases n)
    case None
    then show ?thesis by (simp add: ipv4_output_def Pair)
  next
    case (Some i)
    let ?src = "if ip_is_zero src then nif_ip (netif_obj s i) else src"
    obtain rc nb1 s1 where b: "ipv4_build nb ?src dst proto ttl s = (rc, nb1, s1)"
      using prod_cases3 by blast
    obtain rc2 m s2 where r: "arp_resolve tx (Some i) hop s1 = (rc2, m, s2)"
      using prod_cases3 by blast
    have s1: "g_tcbs s1 = g_tcbs s"
      using ipv4_build_tcbs [of nb ?src dst proto ttl s] b by simp
    have s2: "g_tcbs s2 = g_tcbs s1"
      using arp_resolve_tcbs [OF assms, of "Some i" hop s1] r by simp
    show ?thesis
      using netif_transmit_tcbs [OF assms] s1 s2
      by (auto simp: ipv4_output_def Pair Some b r Let_def split: prod.splits)
  qed
qed

lemma build_message_tcbs: "g_tcbs (snd (build_message header data len s)) = g_tcbs (s :: 'a tcp_scheme)"
proof (cases "netbuf_alloc_headroom (length header + unat len) NETBUF_DEFAULT_HEADROOM s")
  case (Pair r s')
  then have "g_tcbs s' = g_tcbs s"
    using alloc_tcbs [of "length header + unat len" NETBUF_DEFAULT_HEADROOM s] by simp
  then show ?thesis
    by (auto simp: build_message_def Pair Let_def split: option.splits prod.splits)
qed

lemma tcp_build_segment_tcbs:
  "g_tcbs (snd (tcp_build_segment src sp dst dp seq ack flags w data len s)) = g_tcbs s"
  using build_message_tcbs [of "tcp_header sp dp seq ack flags w 0" data len s]
  by (auto simp: tcp_build_segment_def Let_def split: option.splits prod.splits)

text \<open>
  Sending a segment changes at most the next sequence number of its own block, and by the
  sequence space the segment occupies.
\<close>

lemma upd_tcb_nth [simp]:
  "t < length (g_tcbs s) \<Longrightarrow> g_tcbs (upd_tcb t f s) ! t = f (g_tcbs s ! t)"
  "u \<noteq> t \<Longrightarrow> g_tcbs (upd_tcb t f s) ! u = g_tcbs s ! u"
  "length (g_tcbs (upd_tcb t f s)) = length (g_tcbs s)"
  by (simp_all add: upd_tcb_def)

definition seq_space :: "u8 \<Rightarrow> u16 \<Rightarrow> u32" where
  "seq_space flags len = (if has flags TCP_F_SYN then 1 else 0) + ucast len + (if has flags TCP_F_FIN then 1 else 0)"

lemma tcp_send_segment_tcbs:
  assumes p: "quiet_tx tx" and t: "t < length (g_tcbs s)"
  shows "\<exists>n. g_tcbs (snd (tcp_send_segment tx (Some t) flags data len s)) =
     (g_tcbs s)[t := (g_tcbs s ! t)\<lparr>snd_nxt := n\<rparr>]"
proof -
  let ?b = "g_tcbs s ! t"
  obtain r s1 where b: "tcp_build_segment (local_ip ?b) (local_port ?b) (remote_ip ?b) (remote_port ?b)
      (snd_nxt ?b) (rcv_nxt ?b) flags (ucast (rcv_wnd ?b)) data len s = (r, s1)"
    by fastforce
  have s1: "g_tcbs s1 = g_tcbs s"
    using tcp_build_segment_tcbs b by (metis snd_conv)
  show ?thesis
  proof (cases r)
    case None
    then show ?thesis
      using b s1 by (intro exI [of _ "snd_nxt ?b"]) (simp add: tcp_send_segment_def Let_def)
  next
    case (Some nb)
    have "g_tcbs (snd (tcp_send_segment tx (Some t) flags data len s)) =
       (g_tcbs s)[t := ?b\<lparr>snd_nxt := snd_nxt ?b + seq_space flags len\<rparr>]"
      using t s1 by (simp add: tcp_send_segment_def Let_def b Some ipv4_output_tcbs [OF p] upd_tcb_def
          seq_space_def has_def ac_simps)
    then show ?thesis by blast
  qed
qed

lemma reply_tcbs:
  assumes p: "quiet_tx tx" and t: "t < length (g_tcbs s)"
  shows "tcb_state (g_tcbs (reply tx t flags s) ! t) = tcb_state (g_tcbs s ! t)"
    and "rcv_nxt (g_tcbs (reply tx t flags s) ! t) = rcv_nxt (g_tcbs s ! t)"
    and "u \<noteq> t \<Longrightarrow> g_tcbs (reply tx t flags s) ! u = g_tcbs s ! u"
    and "length (g_tcbs (reply tx t flags s)) = length (g_tcbs s)"
proof -
  obtain n where "g_tcbs (reply tx t flags s) = (g_tcbs s)[t := (g_tcbs s ! t)\<lparr>snd_nxt := n\<rparr>]"
    using tcp_send_segment_tcbs [OF p t] unfolding reply_def by blast
  then show "tcb_state (g_tcbs (reply tx t flags s) ! t) = tcb_state (g_tcbs s ! t)"
    and "rcv_nxt (g_tcbs (reply tx t flags s) ! t) = rcv_nxt (g_tcbs s ! t)"
    and "u \<noteq> t \<Longrightarrow> g_tcbs (reply tx t flags s) ! u = g_tcbs s ! u"
    and "length (g_tcbs (reply tx t flags s)) = length (g_tcbs s)"
    using t by simp_all
qed

lemma reply_fields:
  assumes p: "quiet_tx tx" and t: "t < length (g_tcbs s)"
  shows "snd_una (g_tcbs (reply tx t flags s) ! t) = snd_una (g_tcbs s ! t)"
    and "irs (g_tcbs (reply tx t flags s) ! t) = irs (g_tcbs s ! t)"
    and "iss (g_tcbs (reply tx t flags s) ! t) = iss (g_tcbs s ! t)"
    and "local_ip (g_tcbs (reply tx t flags s) ! t) = local_ip (g_tcbs s ! t)"
    and "remote_ip (g_tcbs (reply tx t flags s) ! t) = remote_ip (g_tcbs s ! t)"
    and "local_port (g_tcbs (reply tx t flags s) ! t) = local_port (g_tcbs s ! t)"
    and "remote_port (g_tcbs (reply tx t flags s) ! t) = remote_port (g_tcbs s ! t)"
    and "tcb_in_use (g_tcbs (reply tx t flags s) ! t) = tcb_in_use (g_tcbs s ! t)"
proof -
  obtain n where "g_tcbs (reply tx t flags s) = (g_tcbs s)[t := (g_tcbs s ! t)\<lparr>snd_nxt := n\<rparr>]"
    using tcp_send_segment_tcbs [OF p t] unfolding reply_def by blast
  then have e: "g_tcbs (reply tx t flags s) ! t = (g_tcbs s ! t)\<lparr>snd_nxt := n\<rparr>" using t by simp
  show "snd_una (g_tcbs (reply tx t flags s) ! t) = snd_una (g_tcbs s ! t)"
    and "irs (g_tcbs (reply tx t flags s) ! t) = irs (g_tcbs s ! t)"
    and "iss (g_tcbs (reply tx t flags s) ! t) = iss (g_tcbs s ! t)"
    and "local_ip (g_tcbs (reply tx t flags s) ! t) = local_ip (g_tcbs s ! t)"
    and "remote_ip (g_tcbs (reply tx t flags s) ! t) = remote_ip (g_tcbs s ! t)"
    and "local_port (g_tcbs (reply tx t flags s) ! t) = local_port (g_tcbs s ! t)"
    and "remote_port (g_tcbs (reply tx t flags s) ! t) = remote_port (g_tcbs s ! t)"
    and "tcb_in_use (g_tcbs (reply tx t flags s) ! t) = tcb_in_use (g_tcbs s ! t)"
    by (simp_all add: e)
qed

subsection \<open>The connection states\<close>

text \<open>
  The transitions the code makes for an arriving segment, by its SYN, ACK and FIN bits alone.
\<close>

inductive by_flags :: "tcp_state \<Rightarrow> bool \<Rightarrow> bool \<Rightarrow> bool \<Rightarrow> tcp_state \<Rightarrow> bool" where
  "by_flags TCP_LISTEN True a f TCP_SYN_RECEIVED"
| "by_flags TCP_SYN_SENT True True f TCP_ESTABLISHED"
| "by_flags TCP_SYN_SENT True False f TCP_SYN_RECEIVED"
| "by_flags TCP_SYN_RECEIVED y True f TCP_ESTABLISHED"
| "by_flags TCP_ESTABLISHED y a True TCP_CLOSE_WAIT"
| "by_flags TCP_FIN_WAIT_1 y True False TCP_FIN_WAIT_2"
| "by_flags TCP_FIN_WAIT_1 y False True TCP_CLOSING"
| "by_flags TCP_FIN_WAIT_1 y True True TCP_TIME_WAIT"
| "by_flags TCP_FIN_WAIT_2 y a True TCP_TIME_WAIT"
| "by_flags TCP_CLOSING y True f TCP_TIME_WAIT"
| "by_flags TCP_LAST_ACK y True f TCP_CLOSED"

inductive_simps by_flags_listen: "by_flags TCP_LISTEN y a f st"
inductive_simps by_flags_syn_sent: "by_flags TCP_SYN_SENT y a f st"
inductive_simps by_flags_syn_received: "by_flags TCP_SYN_RECEIVED y a f st"
inductive_simps by_flags_established: "by_flags TCP_ESTABLISHED y a f st"
inductive_simps by_flags_fin_wait_1: "by_flags TCP_FIN_WAIT_1 y a f st"
inductive_simps by_flags_fin_wait_2: "by_flags TCP_FIN_WAIT_2 y a f st"
inductive_simps by_flags_closing: "by_flags TCP_CLOSING y a f st"
inductive_simps by_flags_last_ack: "by_flags TCP_LAST_ACK y a f st"
inductive_simps by_flags_closed: "by_flags TCP_CLOSED y a f st"
inductive_simps by_flags_close_wait: "by_flags TCP_CLOSE_WAIT y a f st"
inductive_simps by_flags_time_wait: "by_flags TCP_TIME_WAIT y a f st"

lemmas by_flags_simps = by_flags_listen by_flags_syn_sent by_flags_syn_received by_flags_established
  by_flags_fin_wait_1 by_flags_fin_wait_2 by_flags_closing by_flags_last_ack by_flags_closed
  by_flags_close_wait by_flags_time_wait

definition flag_next :: "tcp_state \<Rightarrow> u8 \<Rightarrow> tcp_state \<Rightarrow> bool" where
  "flag_next st flags st' \<longleftrightarrow>
     by_flags st (has flags TCP_F_SYN) (has flags TCP_F_ACK) (has flags TCP_F_FIN) st'
     \<or> st' = st \<and> (\<nexists>x. by_flags st (has flags TCP_F_SYN) (has flags TCP_F_ACK) (has flags TCP_F_FIN) x)"

lemma has_syn_ack:
  "flags AND (TCP_F_SYN OR TCP_F_ACK) = TCP_F_SYN OR TCP_F_ACK \<longleftrightarrow> has flags TCP_F_SYN \<and> has flags TCP_F_ACK"
proof -
  have one: "flags AND 2 ^ k \<noteq> 0 \<longleftrightarrow> bit flags k" if "k < 8" for k
    using that by (simp add: and_exp_eq_0_iff_not_bit)
  have b: "has flags TCP_F_SYN \<longleftrightarrow> bit flags 1" "has flags TCP_F_ACK \<longleftrightarrow> bit flags 4"
    using one [of 1] one [of 4] by (simp_all add: has_def TCP_F_SYN_def TCP_F_ACK_def)
  have m: "TCP_F_SYN OR TCP_F_ACK = 2 ^ 1 OR 2 ^ 4"
    by (simp add: TCP_F_SYN_def TCP_F_ACK_def)
  have "flags AND (2 ^ j OR 2 ^ k) = 2 ^ j OR 2 ^ k \<longleftrightarrow> bit flags j \<and> bit flags k"
    if "j < 8" "k < 8" for j k :: nat
    using that unfolding bit_eq_iff [of "flags AND (2 ^ j OR 2 ^ k)" "2 ^ j OR 2 ^ k"]
    by (auto simp: bit_simps)
  from this [of 1 4] show ?thesis
    by (simp add: b m)
qed

lemma state_machine_next:
  assumes p: "quiet_tx tx" and t: "t < length (g_tcbs s)"
  shows "flag_next (tcb_state (g_tcbs s ! t)) flags
           (tcb_state (g_tcbs (tcp_state_machine tx t seq ack flags seglen s) ! t))"
    and "length (g_tcbs (tcp_state_machine tx t seq ack flags seglen s)) = length (g_tcbs s)"
proof -
  note defs = tcp_state_machine_def on_listen_def on_syn_sent_def on_established_def on_fin_wait_1_def
    on_fin_wait_2_def tcp_gen_iss_def tcp_tcb_free_def flag_next_def by_flags_simps has_syn_ack
  note r = reply_tcbs [OF p]
  show "flag_next (tcb_state (g_tcbs s ! t)) flags
           (tcb_state (g_tcbs (tcp_state_machine tx t seq ack flags seglen s) ! t))"
    using t by (cases "tcb_state (g_tcbs s ! t)") (auto simp: defs r Let_def)
  show "length (g_tcbs (tcp_state_machine tx t seq ack flags seglen s)) = length (g_tcbs s)"
    using t by (cases "tcb_state (g_tcbs s ! t)") (auto simp: defs r Let_def)
qed

type_synonym segment = "u32 \<times> u32 \<times> u8 \<times> u16"

definition seg_flags :: "segment \<Rightarrow> u8" where
  "seg_flags g = fst (snd (snd g))"

definition receive_all :: "'a tcp_scheme tx_fn \<Rightarrow> nat \<Rightarrow> segment list \<Rightarrow> 'a tcp_scheme \<Rightarrow> 'a tcp_scheme" where
  "receive_all tx t segs s = fold (\<lambda>(seq, ack, flags, len). tcp_state_machine tx t seq ack flags len) segs s"

lemma receive_all_snoc:
  "receive_all tx t (segs @ [(seq, ack, flags, len)]) s = tcp_state_machine tx t seq ack flags len (receive_all tx t segs s)"
  by (simp add: receive_all_def)

lemma receive_all_length:
  "quiet_tx tx \<Longrightarrow> t < length (g_tcbs s) \<Longrightarrow> length (g_tcbs (receive_all tx t segs s)) = length (g_tcbs s)"
proof (induction segs rule: rev_induct)
  case (snoc g segs)
  obtain seq ack flags len where "g = (seq, ack, flags, len)"
    by (cases g)
  then show ?case
    using snoc state_machine_next(2) [of tx t "receive_all tx t segs s"] by (simp add: receive_all_snoc)
qed (simp add: receive_all_def)

text \<open>How far a passive open has come, by the segments received.\<close>

definition saw_syn :: "segment list \<Rightarrow> bool" where
  "saw_syn segs \<longleftrightarrow> (\<exists>g \<in> set segs. has (seg_flags g) TCP_F_SYN)"

definition saw_handshake :: "segment list \<Rightarrow> bool" where
  "saw_handshake segs \<longleftrightarrow> (\<exists>pre g post. segs = pre @ g # post \<and> has (seg_flags g) TCP_F_ACK \<and> saw_syn pre)"

lemma saw_syn_snoc: "saw_syn (segs @ [g]) \<longleftrightarrow> saw_syn segs \<or> has (seg_flags g) TCP_F_SYN"
  by (auto simp: saw_syn_def)

lemma saw_handshake_snoc:
  "saw_handshake (segs @ [g]) \<longleftrightarrow> saw_handshake segs \<or> saw_syn segs \<and> has (seg_flags g) TCP_F_ACK"
proof
  assume "saw_handshake (segs @ [g])"
  then obtain pre h post where e: "segs @ [g] = pre @ h # post"
    and h: "has (seg_flags h) TCP_F_ACK" "saw_syn pre"
    unfolding saw_handshake_def by blast
  show "saw_handshake segs \<or> saw_syn segs \<and> has (seg_flags g) TCP_F_ACK"
  proof (cases post rule: rev_cases)
    case Nil
    then show ?thesis using e h by simp
  next
    case (snoc post' x)
    then have "segs = pre @ h # post'"
      using e by simp
    then show ?thesis using h unfolding saw_handshake_def by blast
  qed
next
  assume a: "saw_handshake segs \<or> saw_syn segs \<and> has (seg_flags g) TCP_F_ACK"
  then show "saw_handshake (segs @ [g])"
  proof
    assume "saw_handshake segs"
    then obtain pre h post where "segs = pre @ h # post" "has (seg_flags h) TCP_F_ACK" "saw_syn pre"
      unfolding saw_handshake_def by blast
    then have "segs @ [g] = pre @ h # (post @ [g])" "has (seg_flags h) TCP_F_ACK" "saw_syn pre"
      by simp_all
    then show ?thesis unfolding saw_handshake_def by blast
  next
    assume "saw_syn segs \<and> has (seg_flags g) TCP_F_ACK"
    then have "segs @ [g] = segs @ g # []" "has (seg_flags g) TCP_F_ACK" "saw_syn segs"
      by simp_all
    then show ?thesis unfolding saw_handshake_def by blast
  qed
qed

lemma passive_open_progress:
  assumes p: "quiet_tx tx" and t: "t < length (g_tcbs s)" and l: "tcb_state (g_tcbs s ! t) = TCP_LISTEN"
  defines "st segs \<equiv> tcb_state (g_tcbs (receive_all tx t segs s) ! t)"
  shows "st segs = TCP_LISTEN \<or> st segs = TCP_SYN_RECEIVED \<and> saw_syn segs \<or> saw_handshake segs"
proof (induction segs rule: rev_induct)
  case Nil
  then show ?case using l by (simp add: st_def receive_all_def)
next
  case (snoc g segs)
  obtain seq ack flags len where g: "g = (seq, ack, flags, len)"
    by (cases g)
  have lt: "t < length (g_tcbs (receive_all tx t segs s))"
    using receive_all_length [OF p t] t by simp
  have "flag_next (st segs) (seg_flags g) (st (segs @ [g]))"
    using state_machine_next(1) [OF p lt] by (simp add: st_def g receive_all_snoc seg_flags_def)
  then show ?case
    using snoc by (auto simp: saw_syn_snoc saw_handshake_snoc flag_next_def by_flags_simps)
qed

text \<open>
  The control bits of a segment, and the segments that RFC 793 accepts and that acknowledge everything
  sent: no RST; in \<open>LISTEN\<close> a SYN without ACK; in \<open>SYN_SENT\<close> a SYN whose ACK, if it has one, is that of the SYN
  sent; in the other states no SYN, the expected sequence number and an ACK of the last number sent.  Data is accepted in
  \<open>ESTABLISHED\<close> only, and a FIN only where the peer has not closed before.
\<close>

definition seg_fin :: "u8 \<Rightarrow> bool" where "seg_fin flags = bit flags 0"
definition seg_syn :: "u8 \<Rightarrow> bool" where "seg_syn flags = bit flags 1"
definition seg_rst :: "u8 \<Rightarrow> bool" where "seg_rst flags = bit flags 2"
definition seg_ack :: "u8 \<Rightarrow> bool" where "seg_ack flags = bit flags 4"

definition conforming :: "tcp_tcb \<Rightarrow> u32 \<Rightarrow> u32 \<Rightarrow> u8 \<Rightarrow> u16 \<Rightarrow> bool" where
  "conforming b seq ack flags seglen \<longleftrightarrow> \<not> seg_rst flags \<and> (seglen \<noteq> 0 \<longrightarrow> tcb_state b = TCP_ESTABLISHED) \<and>
     (case tcb_state b of
        TCP_CLOSED \<Rightarrow> False
      | TCP_LISTEN \<Rightarrow> seg_syn flags \<and> \<not> seg_ack flags \<and> \<not> seg_fin flags
      | TCP_SYN_SENT \<Rightarrow> seg_syn flags \<and> \<not> seg_fin flags \<and> (seg_ack flags \<longrightarrow> ack = snd_nxt b)
      | _ \<Rightarrow> \<not> seg_syn flags \<and> seg_ack flags \<and> seq = rcv_nxt b \<and> ack = snd_nxt b
          \<and> (seg_fin flags \<longrightarrow> tcb_state b \<in> {TCP_ESTABLISHED, TCP_FIN_WAIT_1, TCP_FIN_WAIT_2}))"

text \<open>The state RFC 793 gives for such a segment.\<close>

fun rfc793 :: "tcp_state \<Rightarrow> bool \<Rightarrow> bool \<Rightarrow> tcp_state" where
  "rfc793 TCP_LISTEN a f = TCP_SYN_RECEIVED"
| "rfc793 TCP_SYN_SENT a f = (if a then TCP_ESTABLISHED else TCP_SYN_RECEIVED)"
| "rfc793 TCP_SYN_RECEIVED a f = TCP_ESTABLISHED"
| "rfc793 TCP_ESTABLISHED a f = (if f then TCP_CLOSE_WAIT else TCP_ESTABLISHED)"
| "rfc793 TCP_FIN_WAIT_1 a f = (if f then TCP_TIME_WAIT else TCP_FIN_WAIT_2)"
| "rfc793 TCP_FIN_WAIT_2 a f = (if f then TCP_TIME_WAIT else TCP_FIN_WAIT_2)"
| "rfc793 TCP_CLOSING a f = TCP_TIME_WAIT"
| "rfc793 TCP_LAST_ACK a f = TCP_CLOSED"
| "rfc793 st a f = st"

lemma has_bits:
  "has flags TCP_F_FIN = seg_fin flags" "has flags TCP_F_SYN = seg_syn flags" "has flags TCP_F_ACK = seg_ack flags"
proof -
  have one: "flags AND 2 ^ k \<noteq> 0 \<longleftrightarrow> bit flags k" if "k < 8" for k
    using that by (simp add: and_exp_eq_0_iff_not_bit)
  show "has flags TCP_F_FIN = seg_fin flags" "has flags TCP_F_SYN = seg_syn flags" "has flags TCP_F_ACK = seg_ack flags"
    using one [of 0] one [of 1] one [of 4]
    by (simp_all add: has_def TCP_F_FIN_def TCP_F_SYN_def TCP_F_ACK_def seg_fin_def seg_syn_def seg_ack_def)
qed

text \<open>What the code does to the addressed block for every segment, apart from the next number to send.\<close>

definition advanced :: "u32 \<Rightarrow> u32 \<Rightarrow> u8 \<Rightarrow> u16 \<Rightarrow> tcp_tcb \<Rightarrow> tcp_tcb \<Rightarrow> bool" where
  "advanced seq ack flags seglen b b' \<longleftrightarrow>
     rcv_nxt b' = (if tcb_state b \<in> {TCP_LISTEN, TCP_SYN_SENT} \<and> seg_syn flags then seq + 1
                   else if tcb_state b = TCP_ESTABLISHED \<and> (seg_fin flags \<or> seglen \<noteq> 0) then seq + ucast seglen + of_bool (seg_fin flags)
                   else if tcb_state b \<in> {TCP_FIN_WAIT_1, TCP_FIN_WAIT_2} \<and> seg_fin flags then seq + 1
                   else rcv_nxt b)
     \<and> snd_una b' = (if tcb_state b = TCP_LISTEN \<and> seg_syn flags then iss b'
                   else if tcb_state b = TCP_SYN_SENT \<and> seg_syn flags \<and> seg_ack flags
                     \<or> tcb_state b = TCP_SYN_RECEIVED \<and> seg_ack flags then ack
                   else snd_una b)
     \<and> irs b' = (if tcb_state b \<in> {TCP_LISTEN, TCP_SYN_SENT} \<and> seg_syn flags then seq else irs b)
     \<and> (tcb_state b \<noteq> TCP_LISTEN \<longrightarrow> iss b' = iss b)
     \<and> local_ip b' = local_ip b \<and> remote_ip b' = remote_ip b \<and> local_port b' = local_port b \<and> remote_port b' = remote_port b
     \<and> tcb_in_use b' = (tcb_in_use b \<and> \<not> (tcb_state b = TCP_LAST_ACK \<and> seg_ack flags))"

lemma state_machine_advanced:
  assumes p: "quiet_tx tx" and t: "t < length (g_tcbs s)"
  shows "advanced seq ack flags seglen (g_tcbs s ! t) (g_tcbs (tcp_state_machine tx t seq ack flags seglen s) ! t)"
proof -
  define b where "b = g_tcbs s ! t"
  note defs = tcp_state_machine_def on_listen_def on_syn_sent_def on_established_def on_fin_wait_1_def
    on_fin_wait_2_def tcp_gen_iss_def tcp_tcb_free_def has_syn_ack has_bits
  note r = reply_tcbs [OF p] reply_fields [OF p]
  show ?thesis
    using t unfolding b_def [symmetric]
    by (cases "tcb_state b") (auto simp: advanced_def defs r b_def Let_def word_gt_0)
qed



text \<open>
  A passive open needs the handshake in its order.  A listening block that has become
  \<open>ESTABLISHED\<close> after any sequence of segments has received a segment with SYN and, after it,
  a segment with ACK; a block that has received no SYN is still listening.
\<close>

theorem tcp_passive_open_order:
  assumes "quiet_tx tx" and "t < length (g_tcbs s)" and "tcb_state (g_tcbs s ! t) = TCP_LISTEN"
  defines "st segs \<equiv> tcb_state (g_tcbs (receive_all tx t segs s) ! t)"
  shows "(st segs = TCP_ESTABLISHED \<longrightarrow>
      (\<exists>i j. i < j \<and> j < length segs \<and> has (seg_flags (segs ! i)) TCP_F_SYN \<and> has (seg_flags (segs ! j)) TCP_F_ACK))
    \<and> ((\<forall>g \<in> set segs. \<not> has (seg_flags g) TCP_F_SYN) \<longrightarrow> st segs = TCP_LISTEN)"
proof -
  note pr = passive_open_progress [OF assms(1-3), of segs, folded st_def]
  have c1: "\<exists>i j. i < j \<and> j < length segs \<and> has (seg_flags (segs ! i)) TCP_F_SYN \<and> has (seg_flags (segs ! j)) TCP_F_ACK"
    if "st segs = TCP_ESTABLISHED"
  proof -
    have "saw_handshake segs"
      using pr that by simp
    then obtain pre g post where e: "segs = pre @ g # post"
      and g: "has (seg_flags g) TCP_F_ACK" and y: "saw_syn pre"
      unfolding saw_handshake_def by blast
    obtain i where "i < length pre" "has (seg_flags (pre ! i)) TCP_F_SYN"
      using y unfolding saw_syn_def by (metis in_set_conv_nth)
    then show ?thesis
      using e g by (intro exI [of _ i] exI [of _ "length pre"]) (simp add: nth_append)
  qed
  have c2: "st segs = TCP_LISTEN" if n: "\<forall>g \<in> set segs. \<not> has (seg_flags g) TCP_F_SYN"
  proof -
    have "\<not> saw_syn segs" "\<not> saw_handshake segs"
      using n unfolding saw_syn_def saw_handshake_def by auto
    then show ?thesis using pr by blast
  qed
  show ?thesis
    by (rule conjI [OF impI [OF c1] impI [OF c2]])
qed

theorem tcp_passive_open_order_witness:
  "\<exists>s :: tcp. 0 < length (g_tcbs s) \<and> tcb_state (g_tcbs s ! 0) = TCP_LISTEN
     \<and> tcb_state (g_tcbs (receive_all (\<lambda>i nb s. (0, s)) 0 [(1, 2, TCP_F_ACK, 0)] s) ! 0) = TCP_LISTEN"
proof -
  let ?b = "\<lparr> tcb_in_use = True, tcb_state = TCP_LISTEN, local_ip = IP_ADDR_ANY, remote_ip = IP_ADDR_ANY,
    local_port = 1, remote_port = 2, snd_una = 0, snd_nxt = 0, snd_wnd = 0, iss = 0, rcv_nxt = 0,
    rcv_wnd = 0, irs = 0 \<rparr>"
  let ?s = "(undefined :: tcp)\<lparr>g_tcbs := [?b]\<rparr>"
  have q: "quiet_tx (\<lambda>i nb s :: tcp. (0, s))"
    by (simp add: quiet_tx_def)
  have t: "0 < length (g_tcbs ?s)" "tcb_state (g_tcbs ?s ! 0) = TCP_LISTEN" by simp_all
  have n: "\<not> has (seg_flags g) TCP_F_SYN" if "g \<in> set [(1, 2, TCP_F_ACK, 0)]" for g
    using that by (simp add: seg_flags_def has_def TCP_F_SYN_def TCP_F_ACK_def)
  show ?thesis
    using tcp_passive_open_order [OF q t, of "[(1, 2, TCP_F_ACK, 0)]"] n t
    by (intro exI [of _ ?s]) simp
qed

end
