(* ===== verification/Net_Stack.thy ===== *)
theory Net_Stack
  imports Tcp
begin

text \<open>
  The receive path and the loopback device: \<open>ipv4_input\<close> of \<open>kernel/net/ipv4.c\<close>, \<open>netif_rx\<close>
  and the loopback part of \<open>kernel/net/net_if.c\<close>, and the start of the stack in
  \<open>kernel/net/net.c\<close>.

  Input can send: \<open>netif_rx\<close> calls the protocols, which call \<open>netif_transmit\<close>, which calls the
  transmit hook, and the hook of the loopback device calls \<open>netif_rx\<close> again.  The hook is an
  argument of every function of the path, and \<open>stack_tx\<close> ties the knot with a bound on the
  nesting depth; interfaces other than the loopback device go to \<open>drv\<close>, the transmit hook of
  their drivers.
\<close>

definition total_len_trim :: "u16 \<Rightarrow> u16 \<Rightarrow> netbuf \<Rightarrow> netbuf" where
  "total_len_trim total_len hdr_bytes nb =
     (if total_len < hdr_bytes \<or> netbuf_len nb < unat total_len
      then (if hdr_bytes \<le> total_len \<and> unat total_len \<le> netbuf_len nb
            then netbuf_trim nb (unat total_len) else nb)
      else netbuf_trim nb (unat total_len))"

definition rx_error :: "nat \<Rightarrow> 'a netdev_scheme \<Rightarrow> 'a netdev_scheme" where
  "rx_error nif s = upd_stats nif (\<lambda>t. t\<lparr>rx_errors := rx_errors t + 1\<rparr>) s"

definition ipv4_dispatch ::
    "'a tcp_scheme tx_fn \<Rightarrow> (udp_call \<Rightarrow> 'a tcp_scheme \<Rightarrow> 'a tcp_scheme) \<Rightarrow> nat \<Rightarrow> u8 \<Rightarrow> netbuf
       \<Rightarrow> ip_addr \<Rightarrow> ip_addr \<Rightarrow> 'a tcp_scheme \<Rightarrow> 'a tcp_scheme" where
  "ipv4_dispatch tx call nif proto nb src dst s =
     (if proto = IP_PROTO_ICMP then icmp_input tx nb src dst s
      else if proto = IP_PROTO_UDP then udp_input call nb src dst s
      else if proto = IP_PROTO_TCP then tcp_input tx nb src dst s
      else upd_stats nif (\<lambda>t. t\<lparr>rx_dropped := rx_dropped t + 1\<rparr>) s)"

definition ipv4_input ::
    "'a tcp_scheme tx_fn \<Rightarrow> (udp_call \<Rightarrow> 'a tcp_scheme \<Rightarrow> 'a tcp_scheme) \<Rightarrow> nat \<Rightarrow> netbuf \<Rightarrow> 'a tcp_scheme
       \<Rightarrow> 'a tcp_scheme" where
  "ipv4_input tx call nif nb s =
     (if netbuf_len nb < IPV4_HDR_LEN then rx_error nif s
      else let h = nb_at nb
           in if ipv4_version h \<noteq> IPV4_VERSION then rx_error nif s
              else let hdr_bytes = ipv4_hdr_bytes h
                   in if unat hdr_bytes < IPV4_HDR_LEN \<or> netbuf_len nb < unat hdr_bytes then rx_error nif s
                      else if net_checksum (take (unat hdr_bytes) h) \<noteq> 0 then rx_error nif s
                      else let nb = total_len_trim (net_get_be16 (drop 2 h)) hdr_bytes nb;
                               src = \<lparr> be = host_get32 (drop 12 h) \<rparr>;
                               dst = \<lparr> be = host_get32 (drop 16 h) \<rparr>;
                               proto = h ! 9;
                               nb = nb\<lparr>nb_net := Some (nb_data nb)\<rparr>;
                               nb = (case netbuf_pull nb (unat hdr_bytes) of None \<Rightarrow> nb | Some nb \<Rightarrow> nb)
                           in ipv4_dispatch tx call nif proto nb src dst s)"

definition netif_rx ::
    "'a tcp_scheme tx_fn \<Rightarrow> (udp_call \<Rightarrow> 'a tcp_scheme \<Rightarrow> 'a tcp_scheme) \<Rightarrow> nat \<Rightarrow> netbuf \<Rightarrow> 'a tcp_scheme
       \<Rightarrow> 'a tcp_scheme" where
  "netif_rx tx call nif nb s =
     (let s = upd_stats nif (\<lambda>t. t\<lparr>rx_packets := rx_packets t + 1,
                                   rx_bytes := rx_bytes t + of_nat (netbuf_len nb)\<rparr>) s
      in case eth_parse nb of
           None \<Rightarrow> netbuf_free (Some nb) (rx_error nif s)
         | Some (dst, src, ethertype, nb) \<Rightarrow>
             let nb = nb\<lparr>nb_netif := Some nif\<rparr>
             in if ethertype = ETH_P_ARP then netbuf_free (Some nb) (arp_input tx nif nb s)
                else if ethertype = ETH_P_IPV4 then netbuf_free (Some nb) (ipv4_input tx call nif nb s)
                else netbuf_free (Some nb) (upd_stats nif (\<lambda>t. t\<lparr>rx_dropped := rx_dropped t + 1\<rparr>) s))"

definition loopback_tx ::
    "'a tcp_scheme tx_fn \<Rightarrow> (udp_call \<Rightarrow> 'a tcp_scheme \<Rightarrow> 'a tcp_scheme) \<Rightarrow> 'a tcp_scheme tx_fn" where
  "loopback_tx tx call nif nb s =
     (let len = netbuf_len nb
      in case netbuf_alloc len s of
           (None, s) \<Rightarrow> (- 1, s)
         | (Some rxb, s) \<Rightarrow>
             let rxb = (case netbuf_put_data rxb (nb_at nb) len of None \<Rightarrow> rxb | Some (_, rxb) \<Rightarrow> rxb)
             in (0, netif_rx tx call nif rxb s))"

definition LOOPBACK :: nat where
  "LOOPBACK = 0"

primrec stack_tx ::
    "'a tcp_scheme tx_fn \<Rightarrow> (udp_call \<Rightarrow> 'a tcp_scheme \<Rightarrow> 'a tcp_scheme) \<Rightarrow> nat \<Rightarrow> 'a tcp_scheme tx_fn" where
  "stack_tx drv call 0 = (\<lambda>nif nb s. (- 1, s))"
| "stack_tx drv call (Suc depth) =
     (\<lambda>nif nb s. if nif = LOOPBACK then loopback_tx (stack_tx drv call depth) call nif nb s else drv nif nb s)"

definition loopback_init :: "'a netdev_scheme \<Rightarrow> nat \<times> 'a netdev_scheme" where
  "loopback_init s =
     (let s = upd_nif LOOPBACK (\<lambda>_. \<lparr> nif_name = ''lo'', nif_mac = eth_zero, nif_ip = \<lparr> be = 0 \<rparr>,
            nif_netmask = \<lparr> be = 0 \<rparr>, nif_gateway = \<lparr> be = 0 \<rparr>, nif_mtu = 65535,
            nif_flags = NETIF_FLAG_LOOPBACK, nif_has_tx = True,
            nif_stats = \<lparr> rx_packets = 0, tx_packets = 0, rx_bytes = 0, tx_bytes = 0,
               rx_dropped = 0, tx_dropped = 0, rx_errors = 0, tx_errors = 0 \<rparr>,
            nif_registered = False \<rparr>) s;
          s = netif_set_addr LOOPBACK IP_ADDR_LOOPBACK (ip_make 255 0 0 0) IP_ADDR_ANY s;
          s = snd (netif_register (Some LOOPBACK) s)
      in (LOOPBACK, netif_up LOOPBACK s))"

definition loopback_get :: nat where
  "loopback_get = LOOPBACK"

text \<open>
  The start of the stack.  \<open>e1000\<close> is the effect of the probe of the network card with its
  interface, or \<open>None\<close> when there is no card; the resolver and socket tables and the log lines of the source
  are not part of this state.
\<close>

definition net_init :: "('a tcp_scheme \<Rightarrow> nat option \<times> 'a tcp_scheme) \<Rightarrow> 'a tcp_scheme \<Rightarrow> 'a tcp_scheme" where
  "net_init e1000 s =
     (let s = tcp_init (udp_init (icmp_init (ipv4_init (route_init (arp_init (netif_registry_init s))))));
          (lo, s) = loopback_init s;
          s = snd (route_add (ip_make 127 0 0 0) (ip_make 255 0 0 0) IP_ADDR_ANY lo s)
      in case e1000 s of
           (None, s) \<Rightarrow> s
         | (Some nic, s) \<Rightarrow>
             let s = netif_set_addr nic (ip_make 10 0 2 15) (ip_make 255 255 255 0) (ip_make 10 0 2 2) s;
                 s = netif_up nic s;
                 s = snd (route_add (ip_make 10 0 2 0) (ip_make 255 255 255 0) IP_ADDR_ANY nic s)
             in snd (route_add IP_ADDR_ANY IP_ADDR_ANY (ip_make 10 0 2 2) nic s))"

subsection \<open>A packet that was built is received\<close>

lemma ip_record [simp]: "\<lparr> be = be x \<rparr> = (x :: ip_addr)"
  by (cases x) simp

lemma ipv4_input_built:
  fixes p :: "u8 list"
  defines "hdr c \<equiv> \<lambda>ident ttl proto src dst. ipv4_header (of_nat (IPV4_HDR_LEN + length p)) ident ttl proto c src dst"
  assumes wf: "netbuf_wf nb" and small: "IPV4_HDR_LEN + length p < 65536"
    and bytes: "nb_bytes nb = hdr (net_checksum (hdr 0 ident ttl proto src dst)) ident ttl proto src dst @ p"
  obtains nb' where "netbuf_wf nb'" and "nb_bytes nb' = p"
    and "ipv4_input tx call nif nb s = ipv4_dispatch tx call nif proto nb' src dst s"
proof -
  let ?h = "hdr (net_checksum (hdr 0 ident ttl proto src dst)) ident ttl proto src dst"
  have hl: "length ?h = IPV4_HDR_LEN"
    unfolding hdr_def by (rule ipv4_header_length)
  have csum: "net_checksum ?h = 0"
    unfolding hdr_def by (rule ipv4_header_checksum)
  obtain r where at: "nb_at nb = ?h @ p @ r"
    using nb_bytes_at [OF wf bytes] by blast
  note f = ipv4_header_fields [OF at [unfolded hdr_def]]
  have len: "netbuf_len nb = IPV4_HDR_LEN + length p"
    using wf_sizes(1,4) [OF wf] bytes hl by simp
  have hb: "unat (of_nat IPV4_HDR_LEN :: u16) = IPV4_HDR_LEN"
    by (simp add: IPV4_HDR_LEN_def)
  have tl: "unat (of_nat (IPV4_HDR_LEN + length p) :: u16) = IPV4_HDR_LEN + length p"
    by (rule unat_of_nat_no_wrap) (use small in simp)
  have trim: "total_len_trim (of_nat (IPV4_HDR_LEN + length p)) (of_nat IPV4_HDR_LEN) nb = nb"
  proof -
    have "\<not> ((of_nat (IPV4_HDR_LEN + length p) :: u16) < of_nat IPV4_HDR_LEN)"
      unfolding word_less_unat tl hb by simp
    then show ?thesis
      unfolding total_len_trim_def tl len netbuf_trim_def by simp
  qed
  let ?n = "nb\<lparr>nb_net := Some (nb_data nb)\<rparr>"
  have wf': "netbuf_wf ?n" and b': "nb_bytes ?n = ?h @ p"
    using wf bytes by (simp_all add: netbuf_wf_def nb_bytes_def nb_at_def)
  have long: "IPV4_HDR_LEN \<le> length (nb_bytes ?n)"
    using b' hl by simp
  note pl = pull_bytes [OF wf' long]
  have take_h: "take IPV4_HDR_LEN (nb_at nb) = ?h"
    using at hl by simp
  have "ipv4_input tx call nif nb s = ipv4_dispatch tx call nif proto (?n\<lparr>nb_data := nb_data ?n + IPV4_HDR_LEN\<rparr>) src dst s"
    unfolding ipv4_input_def Let_def f hb take_h csum trim pl(1) len by simp
  moreover have "nb_bytes (?n\<lparr>nb_data := nb_data ?n + IPV4_HDR_LEN\<rparr>) = p"
    using pl(2) b' hl by simp
  ultimately show ?thesis
    using that pl(3) by blast
qed

lemma loopback_copy:
  assumes wf: "netbuf_wf nb" and small: "length (nb_bytes nb) < 2 ^ 32" and g: "granted s"
  obtains rxb where "netbuf_wf rxb" and "nb_bytes rxb = nb_bytes nb"
    and "loopback_tx tx call nif nb s =
       (0, netif_rx tx call nif rxb (s\<lparr>kmem_calls := kmem_calls s + 2, nb_live := nb_live s + 1\<rparr>))"
proof -
  let ?len = "length (nb_bytes nb)"
  have len: "netbuf_len nb = ?len"
    using wf_sizes(1,4) [OF wf] by simp
  obtain r0 where a: "netbuf_alloc_headroom ?len NETBUF_DEFAULT_HEADROOM s =
      (Some r0, s\<lparr>kmem_calls := kmem_calls s + 2, nb_live := nb_live s + 1\<rparr>)"
    using g alloc_headroom_granted [of s ?len NETBUF_DEFAULT_HEADROOM] unfolding granted_def by blast
  have sm: "?len + NETBUF_DEFAULT_HEADROOM < 2 ^ 64"
    using small by (simp add: NETBUF_DEFAULT_HEADROOM_def)
  note r = alloc_headroom_result [OF a sm]
  have room: "\<not> netbuf_tailroom r0 < ?len"
    using wf_sizes(3) [OF r(1)] r(4,5) by simp
  have src: "take ?len (nb_at nb) = nb_bytes nb"
    using take_len_at [OF wf] by (simp add: len)
  obtain q rxb where put: "netbuf_put_data r0 (nb_bytes nb) ?len = Some (q, rxb)"
    and rx: "netbuf_wf rxb" "nb_bytes rxb = nb_bytes nb"
    using netbuf_put_data_spec [OF r(1), of "nb_bytes nb"] room r(2) by (auto split: option.splits)
  have "netbuf_put_data r0 (nb_at nb) ?len = Some (q, rxb)"
    using put unfolding netbuf_put_data_def src take_all [OF order_refl] .
  then have "loopback_tx tx call nif nb s =
       (0, netif_rx tx call nif rxb (s\<lparr>kmem_calls := kmem_calls s + 2, nb_live := nb_live s + 1\<rparr>))"
    by (simp add: loopback_tx_def len netbuf_alloc_def a)
  then show ?thesis
    using that rx by blast
qed

text \<open>
  The loopback path is ready for a destination: memory can be had, the device is up, and the
  route of the destination leads to it.
\<close>

definition lo_ready :: "ip_addr \<Rightarrow> 'a tcp_scheme \<Rightarrow> bool" where
  "lo_ready dst s \<longleftrightarrow> granted s
     \<and> nif_has_tx (netif_obj s LOOPBACK) \<and> netif_is_up (netif_obj s LOOPBACK)
     \<and> nif_flags (netif_obj s LOOPBACK) AND NETIF_FLAG_LOOPBACK \<noteq> 0 \<and> mac_wf (nif_mac (netif_obj s LOOPBACK))
     \<and> (\<exists>r hop. route_lookup dst s = Some (r, hop) \<and> rt_nif (g_routes s ! r) = LOOPBACK)"

lemma netif_rx_built:
  assumes wf: "netbuf_wf nb" and m: "mac_wf dm" "mac_wf sm"
    and bytes: "nb_bytes nb = eth_header dm sm ETH_P_IPV4 @ p"
  obtains nb' f where "netbuf_wf nb'" and "nb_bytes nb' = p"
    and "netif_rx tx call nif nb s = netbuf_free (Some nb') (ipv4_input tx call nif nb' (upd_stats nif f s))"
proof -
  obtain nb1 where e: "eth_parse nb = Some (dm, sm, ETH_P_IPV4, nb1)" and w: "netbuf_wf nb1" "nb_bytes nb1 = p"
    using eth_parse_spec [OF wf m bytes] by blast
  let ?n = "nb1\<lparr>nb_netif := Some nif\<rparr>"
  have "netbuf_wf ?n" "nb_bytes ?n = p"
    using w by (simp_all add: netbuf_wf_def nb_bytes_def nb_at_def)
  moreover have "ETH_P_IPV4 \<noteq> ETH_P_ARP"
    by (simp add: ETH_P_IPV4_def ETH_P_ARP_def)
  then have "netif_rx tx call nif nb s = netbuf_free (Some ?n) (ipv4_input tx call nif ?n
      (upd_stats nif (\<lambda>t. t\<lparr>rx_packets := rx_packets t + 1, rx_bytes := rx_bytes t + of_nat (netbuf_len nb)\<rparr>) s))"
    by (simp add: netif_rx_def e Let_def)
  ultimately show ?thesis
    using that by blast
qed

lemma netbuf_free_Some: "netbuf_free (Some nb) s = s\<lparr>nb_live := nb_live s - 1\<rparr>"
  by (simp add: netbuf_free_def)

lemma loopback_delivers:
  fixes src :: ip_addr
  assumes ready: "lo_ready dst s" and wf: "netbuf_wf nb" and d: "nb_data nb = NETBUF_DEFAULT_HEADROOM"
    and small: "IPV4_HDR_LEN + length (nb_bytes nb) < 65536"
  defines "src' \<equiv> if ip_is_zero src then nif_ip (netif_obj s LOOPBACK) else src"
  obtains nb' f g where "netbuf_wf nb'" and "nb_bytes nb' = nb_bytes nb"
    and "ipv4_output (stack_tx drv call (Suc depth)) nb src dst proto ttl s =
      (0, upd_stats LOOPBACK f (netbuf_free (Some nb')
        (ipv4_dispatch (stack_tx drv call depth) call LOOPBACK proto nb' src' dst
          (upd_stats LOOPBACK g
            (s\<lparr>g_ip_id := g_ip_id s + 1, kmem_calls := kmem_calls s + 2, nb_live := nb_live s + 1\<rparr>)))))"
proof -
  let ?tx = "stack_tx drv call (Suc depth)"
  let ?p = "nb_bytes nb"
  define s1 where "s1 = s\<lparr>g_ip_id := g_ip_id s + 1\<rparr>"
  have lo: "nif_has_tx (netif_obj s1 LOOPBACK)" "netif_is_up (netif_obj s1 LOOPBACK)"
    "nif_flags (netif_obj s1 LOOPBACK) AND NETIF_FLAG_LOOPBACK \<noteq> 0" "mac_wf (nif_mac (netif_obj s1 LOOPBACK))"
    "granted s1"
    using ready by (simp_all add: lo_ready_def s1_def granted_def)
  obtain hop where eg: "egress dst s = (Some LOOPBACK, hop)"
    using ready by (auto simp: lo_ready_def egress_def)
  have "IPV4_HDR_LEN \<le> nb_data nb"
    by (simp add: d IPV4_HDR_LEN_def NETBUF_DEFAULT_HEADROOM_def)
  then obtain nb1 where b1: "ipv4_build nb src' dst proto ttl s = (0, nb1, s1)" and w1: "netbuf_wf nb1"
    and d1: "nb_data nb1 = nb_data nb - IPV4_HDR_LEN"
    and by1: "nb_bytes nb1 = ipv4_header (of_nat (IPV4_HDR_LEN + length ?p)) (g_ip_id s) ttl proto
       (net_checksum (ipv4_header (of_nat (IPV4_HDR_LEN + length ?p)) (g_ip_id s) ttl proto 0 src' dst)) src' dst @ ?p"
    using ipv4_build_spec [OF wf, of src' dst proto ttl s] unfolding s1_def by blast
  let ?mac = "nif_mac (netif_obj s1 LOOPBACK)"
  have arp: "arp_resolve ?tx (Some LOOPBACK) hop s1 = (0, Some ?mac, s1)"
    using lo by (simp add: arp_resolve_def)
  have "ETH_HLEN \<le> nb_data nb1"
    by (simp add: d1 d IPV4_HDR_LEN_def NETBUF_DEFAULT_HEADROOM_def ETH_HLEN_def)
  then obtain nb2 where b2: "eth_build nb1 ?mac ?mac ETH_P_IPV4 = (0, nb2)" and w2: "netbuf_wf nb2"
    and by2: "nb_bytes nb2 = eth_header ?mac ?mac ETH_P_IPV4 @ nb_bytes nb1"
    using eth_build_spec [OF w1 _ lo(4) lo(4)] by blast
  have sm2: "length (nb_bytes nb2) < 2 ^ 32"
    using small eth_header_length [OF lo(4) lo(4)] unfolding by2 by1
    by (simp add: ipv4_header_length ETH_HLEN_def)
  obtain rxb where rx: "netbuf_wf rxb" "nb_bytes rxb = nb_bytes nb2"
    and ltx: "loopback_tx (stack_tx drv call depth) call LOOPBACK nb2 s1 =
      (0, netif_rx (stack_tx drv call depth) call LOOPBACK rxb
            (s1\<lparr>kmem_calls := kmem_calls s1 + 2, nb_live := nb_live s1 + 1\<rparr>))"
    using loopback_copy [OF w2 sm2 lo(5)] by blast
  obtain nb3 g where w3: "netbuf_wf nb3" and by3: "nb_bytes nb3 = nb_bytes nb1"
    and nrx: "netif_rx (stack_tx drv call depth) call LOOPBACK rxb (s1\<lparr>kmem_calls := kmem_calls s1 + 2, nb_live := nb_live s1 + 1\<rparr>)
      = netbuf_free (Some nb3) (ipv4_input (stack_tx drv call depth) call LOOPBACK nb3
          (upd_stats LOOPBACK g (s1\<lparr>kmem_calls := kmem_calls s1 + 2, nb_live := nb_live s1 + 1\<rparr>)))"
    using netif_rx_built [OF rx(1) lo(4) lo(4) rx(2) [unfolded by2]] by blast
  let ?s2 = "upd_stats LOOPBACK g (s1\<lparr>kmem_calls := kmem_calls s1 + 2, nb_live := nb_live s1 + 1\<rparr>)"
  obtain nb4 where w4: "netbuf_wf nb4" "nb_bytes nb4 = ?p"
    and inp: "ipv4_input (stack_tx drv call depth) call LOOPBACK nb3 ?s2
      = ipv4_dispatch (stack_tx drv call depth) call LOOPBACK proto nb4 src' dst ?s2"
    using ipv4_input_built [OF w3 small by3 [unfolded by1]] by blast
  let ?f = "\<lambda>t. t\<lparr>tx_packets := tx_packets t + 1, tx_bytes := tx_bytes t + of_nat (netbuf_len nb2)\<rparr>"
  have txlo: "?tx LOOPBACK nb2 s1 = (0, netbuf_free (Some nb4)
      (ipv4_dispatch (stack_tx drv call depth) call LOOPBACK proto nb4 src' dst ?s2))"
    by (simp only: stack_tx.simps if_True ltx nrx inp netbuf_free_Some simp_thms)
  have tr: "netif_transmit ?tx (Some LOOPBACK) nb2 s1 =
     (0, upd_stats LOOPBACK ?f (netbuf_free (Some nb4)
        (ipv4_dispatch (stack_tx drv call depth) call LOOPBACK proto nb4 src' dst ?s2)))"
    using lo(1,2) unfolding netif_transmit_def option.case txlo Let_def prod.case by simp
  have "ipv4_output ?tx nb src dst proto ttl s = netif_transmit ?tx (Some LOOPBACK) nb2 s1"
    unfolding ipv4_output_def eg prod.case option.case Let_def src'_def [symmetric] b1 arp option.sel b2 by simp
  then show ?thesis
    using that [OF w4, of ?f g] tr by (simp only: s1_def) simp
qed

lemma lo_ready_cong:
  assumes "kmem_grant s' = kmem_grant s" and "g_routes s' = g_routes s" and "g_route_count s' = g_route_count s"
    and "nif_has_tx (netif_obj s' LOOPBACK) = nif_has_tx (netif_obj s LOOPBACK)"
    and "nif_flags (netif_obj s' LOOPBACK) = nif_flags (netif_obj s LOOPBACK)"
    and "nif_mac (netif_obj s' LOOPBACK) = nif_mac (netif_obj s LOOPBACK)"
  shows "lo_ready dst s' = lo_ready dst s"
  unfolding lo_ready_def granted_def netif_is_up_def route_lookup_def assms by (rule refl)

lemma upd_stats_nif [simp]:
  "nif_has_tx (netif_obj (upd_stats i f s) j) = nif_has_tx (netif_obj s j)"
  "nif_flags (netif_obj (upd_stats i f s) j) = nif_flags (netif_obj s j)"
  "nif_mac (netif_obj (upd_stats i f s) j) = nif_mac (netif_obj s j)"
  "nif_ip (netif_obj (upd_stats i f s) j) = nif_ip (netif_obj s j)"
  by (simp_all add: upd_stats_def)

lemma upd_stats_fields [simp]:
  fixes s :: "'a tcp_scheme"
  shows "kmem_grant (upd_stats i f s) = kmem_grant s" "nb_live (upd_stats i f s) = nb_live s"
    "g_routes (upd_stats i f s) = g_routes s" "g_route_count (upd_stats i f s) = g_route_count s"
    "g_echo_requests_seen (upd_stats i f s) = g_echo_requests_seen s"
    "g_echo_replies_sent (upd_stats i f s) = g_echo_replies_sent s"
    "g_echo_replies_seen (upd_stats i f s) = g_echo_replies_seen s"
    "g_iss_clock (upd_stats i f s) = g_iss_clock s"
    "g_bindings (upd_stats i f s) = g_bindings s"
    "g_datagrams_received (upd_stats i f s) = g_datagrams_received s"
  by (simp_all add: upd_stats_def upd_nif_def)

subsection \<open>Echo over loopback\<close>

lemma icmp_fields:
  "(icmp_header type code c ident seq @ r) ! 0 = type"
  "net_get_be16 (drop 4 (icmp_header type code c ident seq @ r)) = ident"
  "net_get_be16 (drop 6 (icmp_header type code c ident seq @ r)) = seq"
  by (simp_all add: icmp_header_def field_simps_wire)

lemma icmp_input_reply:
  assumes wf: "netbuf_wf nb" and b: "nb_bytes nb = icmp_header ICMP_ECHO_REPLY 0 c ident seq @ p"
    and ok: "net_checksum (nb_bytes nb) = 0"
  shows "icmp_input tx nb src dst s = s\<lparr>g_echo_replies_seen := g_echo_replies_seen s + 1\<rparr>"
proof -
  obtain r where at: "nb_at nb = icmp_header ICMP_ECHO_REPLY 0 c ident seq @ p @ r"
    using nb_bytes_at [OF wf b] by blast
  have "netbuf_len nb = ICMP_HDR_LEN + length p"
    using wf_sizes(1,4) [OF wf] b by (simp add: icmp_header_length)
  then show ?thesis
    using ok take_len_at [OF wf] unfolding icmp_input_def by (simp add: at icmp_fields Let_def)
qed

lemma icmp_input_request:
  assumes wf: "netbuf_wf nb" and b: "nb_bytes nb = icmp_header ICMP_ECHO_REQUEST 0 c ident seq @ p"
    and ok: "net_checksum (nb_bytes nb) = 0" and small: "length p < 65500"
  obtains body where "body_ok (Some body) (of_nat (length p))" and "body_bytes (Some body) (of_nat (length p)) = p"
    and "icmp_input tx nb src dst s =
      (case icmp_build ICMP_ECHO_REPLY 0 ident seq (Some body) (of_nat (length p))
              (s\<lparr>g_echo_requests_seen := g_echo_requests_seen s + 1\<rparr>) of
         (None, s) \<Rightarrow> s
       | (Some ans, s) \<Rightarrow>
           (case ipv4_output tx ans dst src IP_PROTO_ICMP 64 s of
              (rc, s) \<Rightarrow> if rc \<ge> 0 then s\<lparr>g_echo_replies_sent := g_echo_replies_sent s + 1\<rparr> else s))"
proof -
  obtain r where at: "nb_at nb = icmp_header ICMP_ECHO_REQUEST 0 c ident seq @ p @ r"
    using nb_bytes_at [OF wf b] by blast
  have len: "netbuf_len nb = ICMP_HDR_LEN + length p"
    using wf_sizes(1,4) [OF wf] b by (simp add: icmp_header_length)
  have u: "unat (of_nat (length p) :: u16) = length p"
    using small by simp
  have ne: "ICMP_ECHO_REQUEST \<noteq> ICMP_ECHO_REPLY"
    by (simp add: ICMP_ECHO_REQUEST_def ICMP_ECHO_REPLY_def)
  have f: "nb_at nb ! 0 = ICMP_ECHO_REQUEST" "net_get_be16 (drop 4 (nb_at nb)) = ident"
    "net_get_be16 (drop 6 (nb_at nb)) = seq"
    unfolding at by (rule icmp_fields)+
  have dr: "drop ICMP_HDR_LEN (nb_at nb) = p @ r"
    by (simp add: at icmp_header_length)
  show ?thesis
  proof (rule that [of "p @ r"])
    show "body_ok (Some (p @ r)) (of_nat (length p))"
      by (simp add: body_ok_def u)
    show "body_bytes (Some (p @ r)) (of_nat (length p)) = p"
      by (simp add: body_bytes_def u)
    show "icmp_input tx nb src dst s =
      (case icmp_build ICMP_ECHO_REPLY 0 ident seq (Some (p @ r)) (of_nat (length p))
              (s\<lparr>g_echo_requests_seen := g_echo_requests_seen s + 1\<rparr>) of
         (None, s) \<Rightarrow> s
       | (Some ans, s) \<Rightarrow>
           (case ipv4_output tx ans dst src IP_PROTO_ICMP 64 s of
              (rc, s) \<Rightarrow> if rc \<ge> 0 then s\<lparr>g_echo_replies_sent := g_echo_replies_sent s + 1\<rparr> else s))"
      using ok ne take_len_at [OF wf] unfolding icmp_input_def Let_def dr f by (simp add: len)
  qed
qed

text \<open>The echo request that arrives over loopback has its reply delivered before the input returns.\<close>

lemma echo_answered:
  assumes ready: "lo_ready src s" and nz: "\<not> ip_is_zero dst" and wf: "netbuf_wf nb"
    and b: "nb_bytes nb = icmp_header ICMP_ECHO_REQUEST 0 c ident seq @ p"
    and ok: "net_checksum (nb_bytes nb) = 0" and small: "length p < 65500"
    and s'_def: "s' = icmp_input (stack_tx drv call (Suc depth)) nb src dst s"
  shows "g_echo_requests_seen s' = g_echo_requests_seen s + 1 \<and> g_echo_replies_sent s' = g_echo_replies_sent s + 1
     \<and> g_echo_replies_seen s' = g_echo_replies_seen s + 1 \<and> nb_live s' = nb_live s + 1"
proof -
  let ?tx = "stack_tx drv call (Suc depth)"
  define s3 where "s3 = s\<lparr>g_echo_requests_seen := g_echo_requests_seen s + 1\<rparr>"
  define s4 where "s4 = s3\<lparr>kmem_calls := kmem_calls s3 + 2, nb_live := nb_live s3 + 1\<rparr>"
  note st = s4_def s3_def
  obtain body where bo: "body_ok (Some body) (of_nat (length p))" "body_bytes (Some body) (of_nat (length p)) = p"
    and inp: "icmp_input ?tx nb src dst s =
      (case icmp_build ICMP_ECHO_REPLY 0 ident seq (Some body) (of_nat (length p)) s3 of
         (None, s) \<Rightarrow> s
       | (Some ans, s) \<Rightarrow>
           (case ipv4_output ?tx ans dst src IP_PROTO_ICMP 64 s of
              (rc, s) \<Rightarrow> if rc \<ge> 0 then s\<lparr>g_echo_replies_sent := g_echo_replies_sent s + 1\<rparr> else s))"
    using icmp_input_request [OF wf b ok small, of ?tx src dst s] unfolding s3_def by blast
  have g3: "granted s3"
    using ready by (simp add: s3_def granted_def lo_ready_def)
  have u: "unat (of_nat (length p) :: u16) < 65500"
    using small by simp
  obtain nb2 c2 where bu2: "icmp_build ICMP_ECHO_REPLY 0 ident seq (Some body) (of_nat (length p)) s3 = (Some nb2, s4)"
    and w2: "netbuf_wf nb2" "nb_data nb2 = NETBUF_DEFAULT_HEADROOM"
    and b2: "nb_bytes nb2 = icmp_header ICMP_ECHO_REPLY 0 c2 ident seq @ p"
    and ok2: "net_checksum (nb_bytes nb2) = 0"
    using icmp_build_spec [OF g3 bo(1) u, of ICMP_ECHO_REPLY 0 ident seq] unfolding s4_def bo(2) by blast
  have r4: "lo_ready src s4"
    using ready lo_ready_cong [of s4 s] by (simp add: st)
  have sm2: "IPV4_HDR_LEN + length (nb_bytes nb2) < 65536"
    using small by (simp add: b2 icmp_header_length IPV4_HDR_LEN_def ICMP_HDR_LEN_def)
  obtain nb3 f2 g2 where w3: "netbuf_wf nb3" "nb_bytes nb3 = nb_bytes nb2"
    and o2: "ipv4_output ?tx nb2 dst src IP_PROTO_ICMP 64 s4 =
      (0, upd_stats LOOPBACK f2 (netbuf_free (Some nb3)
        (ipv4_dispatch (stack_tx drv call depth) call LOOPBACK IP_PROTO_ICMP nb3 dst src
          (upd_stats LOOPBACK g2
            (s4\<lparr>g_ip_id := g_ip_id s4 + 1, kmem_calls := kmem_calls s4 + 2, nb_live := nb_live s4 + 1\<rparr>)))))"
    using loopback_delivers [OF r4 w2 sm2, where src = dst and drv = drv and call = call
        and depth = depth and proto = IP_PROTO_ICMP and ttl = 64, unfolded if_not_P [OF nz]] by blast
  have rep: "icmp_input (stack_tx drv call depth) nb3 dst src t = t\<lparr>g_echo_replies_seen := g_echo_replies_seen t + 1\<rparr>" for t
    using icmp_input_reply [OF w3(1) trans [OF w3(2) b2]] w3(2) ok2 by simp
  show ?thesis
    unfolding s'_def inp bu2 prod.case option.case o2 ipv4_dispatch_def if_P [OF refl] rep netbuf_free_Some
    by (simp add: st)
qed

text \<open>
  C17. A ping to a local address is answered.  With the loopback device up and memory available,
  sending an echo request with up to 65499 bytes to an address routed to it returns 0, and by
  then the request has been received, its reply sent and the reply received, each exactly once;
  two levels of nesting are enough.  Two packet buffers remain allocated: the loopback device
  copies a frame and never frees the original.
\<close>

theorem loopback_ping:
  assumes ready: "lo_ready dst s" "lo_ready (nif_ip (netif_obj s LOOPBACK)) s" and nz: "\<not> ip_is_zero dst"
    and body: "body_ok payload len" "unat len < 65500"
  shows "case icmp_send_echo (stack_tx drv call (Suc (Suc depth))) dst ident seq payload len s of
     (rc, s') \<Rightarrow> rc = 0 \<and> g_echo_requests_seen s' = g_echo_requests_seen s + 1
       \<and> g_echo_replies_sent s' = g_echo_replies_sent s + 1
       \<and> g_echo_replies_seen s' = g_echo_replies_seen s + 1
       \<and> nb_live s' = nb_live s + 2"
proof -
  let ?lo = "nif_ip (netif_obj s LOOPBACK)"
  have g: "granted s"
    using ready(1) by (simp add: lo_ready_def)
  define sa where "sa = s\<lparr>kmem_calls := kmem_calls s + 2, nb_live := nb_live s + 1\<rparr>"
  obtain nb c where bu: "icmp_build ICMP_ECHO_REQUEST 0 ident seq payload len s = (Some nb, sa)"
    and w: "netbuf_wf nb" "nb_data nb = NETBUF_DEFAULT_HEADROOM"
    and b: "nb_bytes nb = icmp_header ICMP_ECHO_REQUEST 0 c ident seq @ body_bytes payload len"
    and ok: "net_checksum (nb_bytes nb) = 0"
    using icmp_build_spec [OF g body] unfolding sa_def by blast
  let ?p = "body_bytes payload len"
  have pl: "length ?p = unat len"
    using body(1) by (rule body_bytes_length)
  have ra: "lo_ready dst sa"
    using ready(1) lo_ready_cong [of sa s] by (simp add: sa_def)
  have sm: "IPV4_HDR_LEN + length (nb_bytes nb) < 65536"
    using body(2) by (simp add: b icmp_header_length pl IPV4_HDR_LEN_def ICMP_HDR_LEN_def)
  have src: "(if ip_is_zero IP_ADDR_ANY then nif_ip (netif_obj sa LOOPBACK) else IP_ADDR_ANY) = ?lo"
    by (simp add: ip_is_zero_def sa_def)
  obtain nb' f g1 where w': "netbuf_wf nb'" "nb_bytes nb' = nb_bytes nb"
    and o1: "ipv4_output (stack_tx drv call (Suc (Suc depth))) nb IP_ADDR_ANY dst IP_PROTO_ICMP 64 sa =
      (0, upd_stats LOOPBACK f (netbuf_free (Some nb')
        (ipv4_dispatch (stack_tx drv call (Suc depth)) call LOOPBACK IP_PROTO_ICMP nb' ?lo dst
          (upd_stats LOOPBACK g1
            (sa\<lparr>g_ip_id := g_ip_id sa + 1, kmem_calls := kmem_calls sa + 2, nb_live := nb_live sa + 1\<rparr>)))))"
    using loopback_delivers [OF ra w sm, where src = IP_ADDR_ANY and drv = drv and call = call
        and depth = "Suc depth" and proto = IP_PROTO_ICMP and ttl = 64, unfolded src] by blast
  let ?s2 = "upd_stats LOOPBACK g1
     (sa\<lparr>g_ip_id := g_ip_id sa + 1, kmem_calls := kmem_calls sa + 2, nb_live := nb_live sa + 1\<rparr>)"
  have r2: "lo_ready ?lo ?s2"
    using ready(2) lo_ready_cong [of ?s2 s] by (simp add: sa_def)
  have pl': "length ?p < 65500"
    using body(2) pl by simp
  have ok': "net_checksum (nb_bytes nb') = 0"
    using ok w'(2) by simp
  show ?thesis
    using echo_answered [OF r2 nz w'(1) trans [OF w'(2) b] ok' pl' refl, of drv call depth]
    unfolding icmp_send_echo_def bu prod.case option.case o1 ipv4_dispatch_def if_P [OF refl] netbuf_free_Some
    by (simp add: sa_def)
qed

lemma fold_valid_length:
  "length (fold (\<lambda>i xs. xs[i := f (xs ! i)]) js xs) = length xs"
  by (induction js arbitrary: xs) simp_all

lemma net_init_lo_ready:
  fixes s :: "'a tcp_scheme"
  assumes g: "granted s" and len: "length (g_routes s) = IP_ROUTE_MAX"
    and dst: "be dst AND be (ip_make 255 0 0 0) = be (ip_make 127 0 0 0) AND be (ip_make 255 0 0 0)"
  shows "lo_ready dst (net_init (\<lambda>t. (None, t)) s)"
    and "nif_ip (netif_obj (net_init (\<lambda>t. (None, t)) s) LOOPBACK) = IP_ADDR_LOOPBACK"
proof -
  let ?r = "\<lparr> rt_dest = ip_make 127 0 0 0, rt_netmask = ip_make 255 0 0 0, rt_gateway = IP_ADDR_ANY,
     rt_nif = LOOPBACK, rt_valid = True, rt_prefix_len = mask_prefix_len (ip_make 255 0 0 0) \<rparr>"
  let ?s = "net_init (\<lambda>t. (None, t)) s"
  note defs = net_init_def netif_registry_init_def arp_init_def route_init_def ipv4_init_def icmp_init_def
    udp_init_def tcp_init_def loopback_init_def netif_set_addr_def netif_register_def netif_up_def
    upd_nif_def route_add_def Let_def
  have rc: "g_route_count ?s = 1" and r0: "g_routes ?s ! 0 = ?r" and kg: "kmem_grant ?s = kmem_grant s"
    using len by (simp_all add: defs IP_ROUTE_MAX_def NETIF_MAX_def fold_valid_length)
  have lo: "nif_has_tx (netif_obj ?s LOOPBACK)" "nif_mac (netif_obj ?s LOOPBACK) = eth_zero"
    "nif_flags (netif_obj ?s LOOPBACK) = NETIF_FLAG_LOOPBACK OR NETIF_FLAG_UP"
    "nif_ip (netif_obj ?s LOOPBACK) = IP_ADDR_LOOPBACK"
    by (simp_all add: defs NETIF_MAX_def IP_ROUTE_MAX_def)
  show "nif_ip (netif_obj ?s LOOPBACK) = IP_ADDR_LOOPBACK"
    by (rule lo(4))
  have rl: "route_lookup dst ?s = Some (0, dst)"
    using dst by (simp add: route_lookup_def rc r0 better_route_def route_match_def ip_is_zero_def)
  show "lo_ready dst ?s"
    using g rl by (simp add: lo_ready_def granted_def kg lo netif_is_up_def NETIF_FLAG_LOOPBACK_def
        NETIF_FLAG_UP_def r0)
qed

definition sample_net :: tcp where
  "sample_net = net_init (\<lambda>t. (None, t)) (undefined\<lparr>kmem_grant := \<lambda>n. Some (\<lambda>a. 0),
     g_routes := replicate IP_ROUTE_MAX \<lparr> rt_dest = IP_ADDR_ANY, rt_netmask = IP_ADDR_ANY,
        rt_gateway = IP_ADDR_ANY, rt_nif = 0, rt_valid = False, rt_prefix_len = 0 \<rparr>\<rparr>)"

lemma loopback_not_zero: "\<not> ip_is_zero IP_ADDR_LOOPBACK"
  by (simp add: ip_loopback_make ip_is_zero_def ip_make_def push_bit_eq_mult)

lemma sample_net_ready:
  "lo_ready IP_ADDR_LOOPBACK sample_net" "nif_ip (netif_obj sample_net LOOPBACK) = IP_ADDR_LOOPBACK"
proof -
  let ?s = "(undefined :: tcp)\<lparr>kmem_grant := \<lambda>n. Some (\<lambda>a. 0),
     g_routes := replicate IP_ROUTE_MAX \<lparr> rt_dest = IP_ADDR_ANY, rt_netmask = IP_ADDR_ANY,
        rt_gateway = IP_ADDR_ANY, rt_nif = 0, rt_valid = False, rt_prefix_len = 0 \<rparr>\<rparr>"
  have g: "granted ?s" and len: "length (g_routes ?s) = IP_ROUTE_MAX"
    by (simp_all add: granted_def)
  have m: "be IP_ADDR_LOOPBACK AND be (ip_make 255 0 0 0) = be (ip_make 127 0 0 0) AND be (ip_make 255 0 0 0)"
    by (simp add: ip_loopback_make ip_make_def push_bit_eq_mult)
  show "lo_ready IP_ADDR_LOOPBACK sample_net" "nif_ip (netif_obj sample_net LOOPBACK) = IP_ADDR_LOOPBACK"
    unfolding sample_net_def using net_init_lo_ready [OF g len m] by simp_all
qed

theorem loopback_ping_witness:
  "lo_ready IP_ADDR_LOOPBACK sample_net \<and>
   (case icmp_send_echo (stack_tx (\<lambda>i nb s. (- 1, s)) (\<lambda>c s. s) (Suc (Suc 0))) IP_ADDR_LOOPBACK 1 2 None 56 sample_net of
      (rc, s') \<Rightarrow> rc = 0 \<and> g_echo_replies_seen s' = g_echo_replies_seen sample_net + 1)"
proof -
  have r2: "lo_ready (nif_ip (netif_obj sample_net LOOPBACK)) sample_net"
    using sample_net_ready by simp
  have b: "body_ok None 56" "unat (56 :: u16) < 65500"
    by (simp_all add: body_ok_def)
  show ?thesis
    using loopback_ping [OF sample_net_ready(1) r2 loopback_not_zero b, of "\<lambda>i nb s. (- 1, s)" "\<lambda>c s. s" 0 1 2]
      sample_net_ready(1) by (auto split: prod.splits)
qed

end
