(* ===== verification/Net_Conn.thy ===== *)
theory Net_Conn
  imports Net_Stack
begin

text \<open>
  TCP over the loopback device: segments that are sent arrive, the three-way handshake
  completes, and what happens to a connection whose local address is left unspecified.
\<close>

subsection \<open>Connections over loopback\<close>

declare stack_tx.simps [simp del]

lemma tcp_header_length: "length (tcp_header sp dp seq ack flags w c) = TCP_HDR_LEN"
  by (simp add: tcp_header_def TCP_HDR_LEN_def field_simps_wire)

lemma tcp_header_fields:
  "net_get_be16 (tcp_header sp dp seq ack flags w c @ r) = sp"
  "net_get_be16 (drop 2 (tcp_header sp dp seq ack flags w c @ r)) = dp"
  "net_get_be32 (drop 4 (tcp_header sp dp seq ack flags w c @ r)) = seq"
  "net_get_be32 (drop 8 (tcp_header sp dp seq ack flags w c @ r)) = ack"
  "(tcp_header sp dp seq ack flags w c @ r) ! 13 = flags"
  "tcp_header_bytes (tcp_header sp dp seq ack flags w c @ r) = of_nat TCP_HDR_LEN"
  by (simp_all add: tcp_header_def field_simps_wire nth_append tcp_header_bytes_def tcp_data_offset_words_def
      TCP_HDR_LEN_def)

text \<open>What a segment without data does on arrival, once its checksum has been accepted.\<close>

definition seg_arrives ::
    "'a tcp_scheme tx_fn \<Rightarrow> u16 \<Rightarrow> u16 \<Rightarrow> u32 \<Rightarrow> u32 \<Rightarrow> u8 \<Rightarrow> ip_addr \<Rightarrow> ip_addr \<Rightarrow> 'a tcp_scheme \<Rightarrow> 'a tcp_scheme" where
  "seg_arrives tx sp dp seq ack flags src dst s =
     (case tcp_lookup dst dp src sp s of
        None \<Rightarrow> s
      | Some t \<Rightarrow>
          tcp_state_machine tx t seq ack flags 0
            (if tcb_state (g_tcbs s ! t) = TCP_LISTEN
             then upd_tcb t (\<lambda>b. b\<lparr>remote_ip := src, remote_port := sp, local_ip := dst\<rparr>) s else s))"

lemma tcp_input_segment:
  assumes wf: "netbuf_wf nb" and b: "nb_bytes nb = tcp_header sp dp seq ack flags w c"
    and ok: "net_transport_checksum (be src) (be dst) IP_PROTO_TCP (nb_bytes nb) (of_nat TCP_HDR_LEN) = 0"
  shows "tcp_input tx nb src dst s = seg_arrives tx sp dp seq ack flags src dst s"
proof -
  obtain r where at: "nb_at nb = tcp_header sp dp seq ack flags w c @ r"
    using nb_bytes_at [OF wf, of "tcp_header sp dp seq ack flags w c" "[]"] b by auto
  note f = tcp_header_fields [of sp dp seq ack flags w c r, folded at]
  have len: "netbuf_len nb = TCP_HDR_LEN"
    using wf_sizes(1,4) [OF wf] b by (simp add: tcp_header_length)
  have u: "unat (of_nat TCP_HDR_LEN :: u16) = TCP_HDR_LEN"
    by (simp add: TCP_HDR_LEN_def)
  have ok': "net_transport_checksum (be src) (be dst) IP_PROTO_TCP (nb_at nb) (of_nat TCP_HDR_LEN) = 0"
    using ok unfolding net_transport_checksum_def u by (simp add: b at tcp_header_length)
  show ?thesis
    unfolding tcp_input_def Let_def f len u ok' seg_arrives_def by (simp split: option.split)
qed

lemma tcp_build_segment_spec:
  assumes g: "granted s"
  obtains nb c where
    "tcp_build_segment src sp dst dp seq ack flags w None 0 s =
       (Some nb, s\<lparr>kmem_calls := kmem_calls s + 2, nb_live := nb_live s + 1\<rparr>)"
    and "netbuf_wf nb" and "nb_data nb = NETBUF_DEFAULT_HEADROOM"
    and "nb_bytes nb = tcp_header sp dp seq ack flags w c"
    and "c = net_transport_checksum (be src) (be dst) IP_PROTO_TCP (tcp_header sp dp seq ack flags w 0) (of_nat TCP_HDR_LEN)"
    and "net_transport_checksum (be src) (be dst) IP_PROTO_TCP (nb_bytes nb) (of_nat TCP_HDR_LEN) = 0"
proof -
  let ?h = "tcp_header sp dp seq ack flags w"
  have bo: "body_ok None 0" and nil: "body_bytes None 0 = []"
    by (simp_all add: body_ok_def body_bytes_def)
  have "length (?h 0) < 65536"
    by (simp add: tcp_header_length TCP_HDR_LEN_def)
  then obtain nb where m: "build_message (?h 0) None 0 s =
       (Some (NETBUF_DEFAULT_HEADROOM, nb), s\<lparr>kmem_calls := kmem_calls s + 2, nb_live := nb_live s + 1\<rparr>)"
    and wf: "netbuf_wf nb" and d: "nb_data nb = NETBUF_DEFAULT_HEADROOM" and bts: "nb_bytes nb = ?h 0"
    using build_message_spec [OF g bo, of "?h 0"] unfolding nil append_Nil2 by blast
  define pre where "pre = net_put_be16 sp @ net_put_be16 dp @ net_put_be32 seq @ net_put_be32 ack
     @ [push_bit 4 (of_nat (TCP_HDR_LEN div 4)), flags] @ net_put_be16 w"
  define post where "post = net_put_be16 0"
  have sp: "?h x = pre @ host_put16 x @ post" for x
    by (simp add: tcp_header_def pre_def post_def)
  have z: "host_put16 0 = [0, 0]"
    by (simp add: host_put16_def)
  have pl: "length pre = 16" "length post = 2"
    by (simp_all add: pre_def post_def field_simps_wire)
  have n: "of_nat (length pre + 2 + length post) = (of_nat TCP_HDR_LEN :: u16)"
    by (simp add: pl TCP_HDR_LEN_def)
  have even: "even (length pre)" and lt: "length pre + 2 + length post < 65536"
    by (simp_all add: pl)
  let ?c = "net_transport_checksum (be src) (be dst) IP_PROTO_TCP (?h 0) (of_nat TCP_HDR_LEN)"
  have at: "net_transport_checksum (be src) (be dst) IP_PROTO_TCP (nb_at nb) (of_nat TCP_HDR_LEN) = ?c"
  proof -
    obtain r where "nb_at nb = ?h 0 @ r"
      using nb_bytes_at [OF wf, of "?h 0" "[]"] bts by auto
    then show ?thesis
      by (simp add: net_transport_checksum_def tcp_header_length TCP_HDR_LEN_def)
  qed
  let ?r = "nb_write (nb_data nb + 16) (host_put16 ?c) nb"
  have long: "16 + length (host_put16 ?c) \<le> length (nb_bytes nb)"
    by (simp add: bts tcp_header_length TCP_HDR_LEN_def field_simps_wire)
  have bytes: "nb_bytes ?r = ?h ?c"
    using nb_write_patch(1) [OF wf long] unfolding bts sp z by (simp add: pl field_simps_wire)
  have ok: "net_transport_checksum (be src) (be dst) IP_PROTO_TCP (nb_bytes ?r) (of_nat TCP_HDR_LEN) = 0"
    using transport_store_verifies [OF even lt, of "be src" "be dst" IP_PROTO_TCP] unfolding bytes unfolding sp n z .
  have "tcp_build_segment src sp dst dp seq ack flags w None 0 s =
       (Some ?r, s\<lparr>kmem_calls := kmem_calls s + 2, nb_live := nb_live s + 1\<rparr>)"
    using at by (simp add: tcp_build_segment_def m d Let_def)
  then show ?thesis
    using that nb_write_patch(2) [OF wf long] d bytes ok by (simp add: d)
qed

lemma segment_delivered:
  assumes ready: "lo_ready (remote_ip b) s" and t: "t < length (g_tcbs s)" and b: "b = g_tcbs s ! t"
  obtains nb' c s2 f where
    "netbuf_wf nb'" and "nb_bytes nb' = tcp_header (local_port b) (remote_port b) (snd_nxt b) (rcv_nxt b) flags (ucast (rcv_wnd b)) c"
    and "c = net_transport_checksum (be (local_ip b)) (be (remote_ip b)) IP_PROTO_TCP
       (tcp_header (local_port b) (remote_port b) (snd_nxt b) (rcv_nxt b) flags (ucast (rcv_wnd b)) 0) (of_nat TCP_HDR_LEN)"
    and "net_transport_checksum (be (local_ip b)) (be (remote_ip b)) IP_PROTO_TCP (nb_bytes nb') (of_nat TCP_HDR_LEN) = 0"
    and "g_tcbs s2 = (g_tcbs s)[t := b\<lparr>snd_nxt := snd_nxt b + seq_space flags 0\<rparr>]"
    and "g_iss_clock s2 = g_iss_clock s" and "\<And>x. lo_ready x s2 = lo_ready x s"
    and "tcp_send_segment (stack_tx drv call (Suc depth)) (Some t) flags None 0 s =
      (0, upd_stats LOOPBACK f (netbuf_free (Some nb') (tcp_input (stack_tx drv call depth) nb'
            (if ip_is_zero (local_ip b) then nif_ip (netif_obj s LOOPBACK) else local_ip b) (remote_ip b) s2)))"
proof -
  let ?w = "ucast (rcv_wnd b) :: u16"
  have g: "granted s"
    using ready by (simp add: lo_ready_def)
  define sa where "sa = s\<lparr>kmem_calls := kmem_calls s + 2, nb_live := nb_live s + 1\<rparr>"
  obtain nb c where bu: "tcp_build_segment (local_ip b) (local_port b) (remote_ip b) (remote_port b)
        (snd_nxt b) (rcv_nxt b) flags ?w None 0 s = (Some nb, sa)"
    and w: "netbuf_wf nb" "nb_data nb = NETBUF_DEFAULT_HEADROOM"
    and bts: "nb_bytes nb = tcp_header (local_port b) (remote_port b) (snd_nxt b) (rcv_nxt b) flags ?w c"
    and c: "c = net_transport_checksum (be (local_ip b)) (be (remote_ip b)) IP_PROTO_TCP
       (tcp_header (local_port b) (remote_port b) (snd_nxt b) (rcv_nxt b) flags ?w 0) (of_nat TCP_HDR_LEN)"
    and ok: "net_transport_checksum (be (local_ip b)) (be (remote_ip b)) IP_PROTO_TCP (nb_bytes nb) (of_nat TCP_HDR_LEN) = 0"
    using tcp_build_segment_spec [OF g] unfolding sa_def by blast
  define b' where "b' = b\<lparr>snd_nxt := snd_nxt b + seq_space flags 0\<rparr>"
  define sb where "sb = sa\<lparr>g_tcbs := (g_tcbs s)[t := b']\<rparr>"
  have send: "tcp_send_segment tx (Some t) flags None 0 s =
      ipv4_output tx nb (local_ip b) (remote_ip b) IP_PROTO_TCP 64 sb" for tx
    using t unfolding tcp_send_segment_def option.case Let_def b [symmetric] bu prod.case
    by (simp add: upd_tcb_def sa_def sb_def b b'_def seq_space_def has_def ac_simps)
  have cong: "lo_ready x sb = lo_ready x s" for x
    by (rule lo_ready_cong) (simp_all add: sb_def sa_def)
  have rb: "lo_ready (remote_ip b) sb"
    using ready cong by simp
  have sm: "IPV4_HDR_LEN + length (nb_bytes nb) < 65536"
    by (simp add: bts tcp_header_length IPV4_HDR_LEN_def TCP_HDR_LEN_def)
  have lo: "nif_ip (netif_obj sb LOOPBACK) = nif_ip (netif_obj s LOOPBACK)"
    by (simp add: sb_def sa_def)
  obtain nb' f g1 where w': "netbuf_wf nb'" "nb_bytes nb' = nb_bytes nb"
    and o: "ipv4_output (stack_tx drv call (Suc depth)) nb (local_ip b) (remote_ip b) IP_PROTO_TCP 64 sb =
      (0, upd_stats LOOPBACK f (netbuf_free (Some nb')
        (ipv4_dispatch (stack_tx drv call depth) call LOOPBACK IP_PROTO_TCP nb'
          (if ip_is_zero (local_ip b) then nif_ip (netif_obj s LOOPBACK) else local_ip b) (remote_ip b)
          (upd_stats LOOPBACK g1
            (sb\<lparr>g_ip_id := g_ip_id sb + 1, kmem_calls := kmem_calls sb + 2, nb_live := nb_live sb + 1\<rparr>)))))"
    using loopback_delivers [OF rb w sm, where src = "local_ip b" and drv = drv and call = call
        and depth = depth and proto = IP_PROTO_TCP and ttl = 64, unfolded lo] by blast
  let ?s2 = "upd_stats LOOPBACK g1
     (sb\<lparr>g_ip_id := g_ip_id sb + 1, kmem_calls := kmem_calls sb + 2, nb_live := nb_live sb + 1\<rparr>)"
  have tcp: "ipv4_dispatch tx call LOOPBACK IP_PROTO_TCP nb' src dst s0 = tcp_input tx nb' src dst s0" for tx src dst s0
    by (simp add: ipv4_dispatch_def IP_PROTO_TCP_def IP_PROTO_ICMP_def IP_PROTO_UDP_def)
  have cong2: "lo_ready x ?s2 = lo_ready x s" for x
    unfolding cong [of x, symmetric] by (rule lo_ready_cong) simp_all
  show ?thesis
  proof (rule that [of nb' c ?s2 f])
    show "netbuf_wf nb'" by (rule w'(1))
    show "nb_bytes nb' = tcp_header (local_port b) (remote_port b) (snd_nxt b) (rcv_nxt b) flags ?w c"
      using w'(2) bts by simp
    show "net_transport_checksum (be (local_ip b)) (be (remote_ip b)) IP_PROTO_TCP (nb_bytes nb') (of_nat TCP_HDR_LEN) = 0"
      using ok w'(2) by simp
    show "g_tcbs ?s2 = (g_tcbs s)[t := b\<lparr>snd_nxt := snd_nxt b + seq_space flags 0\<rparr>]"
      by (simp add: sb_def b'_def)
    show "g_iss_clock ?s2 = g_iss_clock s"
      by (simp add: sb_def sa_def)
  qed (use c cong2 send o tcp in simp_all)
qed

lemma segment_arrives:
  assumes ready: "lo_ready (remote_ip b) s" and t: "t < length (g_tcbs s)" and b: "b = g_tcbs s ! t"
    and nz: "\<not> ip_is_zero (local_ip b)"
  obtains s2 where "g_tcbs s2 = (g_tcbs s)[t := b\<lparr>snd_nxt := snd_nxt b + seq_space flags 0\<rparr>]"
    and "g_iss_clock s2 = g_iss_clock s" and "\<And>x. lo_ready x s2 = lo_ready x s"
    and "fst (tcp_send_segment (stack_tx drv call (Suc depth)) (Some t) flags None 0 s) = 0"
    and "g_tcbs (snd (tcp_send_segment (stack_tx drv call (Suc depth)) (Some t) flags None 0 s)) =
      g_tcbs (seg_arrives (stack_tx drv call depth) (local_port b) (remote_port b) (snd_nxt b) (rcv_nxt b) flags
        (local_ip b) (remote_ip b) s2)"
proof -
  obtain nb' c s2 f where wf: "netbuf_wf nb'"
    and bts: "nb_bytes nb' = tcp_header (local_port b) (remote_port b) (snd_nxt b) (rcv_nxt b) flags (ucast (rcv_wnd b)) c"
    and ok: "net_transport_checksum (be (local_ip b)) (be (remote_ip b)) IP_PROTO_TCP (nb_bytes nb') (of_nat TCP_HDR_LEN) = 0"
    and s2: "g_tcbs s2 = (g_tcbs s)[t := b\<lparr>snd_nxt := snd_nxt b + seq_space flags 0\<rparr>]"
      "g_iss_clock s2 = g_iss_clock s" "\<And>x. lo_ready x s2 = lo_ready x s"
    and r: "tcp_send_segment (stack_tx drv call (Suc depth)) (Some t) flags None 0 s =
      (0, upd_stats LOOPBACK f (netbuf_free (Some nb') (tcp_input (stack_tx drv call depth) nb'
            (if ip_is_zero (local_ip b) then nif_ip (netif_obj s LOOPBACK) else local_ip b) (remote_ip b) s2)))"
    using segment_delivered [OF ready t b, of flags drv call depth] by metis
  show ?thesis
    by (rule that [OF s2]) (simp_all add: r if_not_P [OF nz] tcp_input_segment [OF wf bts ok])
qed

lemma tcp_lookup_unique:
  assumes i: "i < TCP_TCB_MAX" and u: "tcb_in_use (ts ! i)" "local_port (ts ! i) = lport"
    and m: "if tcb_state (ts ! i) = TCP_LISTEN then ip_is_zero (local_ip (ts ! i)) \<or> local_ip (ts ! i) = lip
            else remote_port (ts ! i) = rport \<and> remote_ip (ts ! i) = rip \<and> local_ip (ts ! i) = lip"
    and o: "\<And>j. j < TCP_TCB_MAX \<Longrightarrow> j \<noteq> i \<Longrightarrow> \<not> (tcb_in_use (ts ! j) \<and> local_port (ts ! j) = lport)"
    and ts: "g_tcbs s = ts"
  shows "tcp_lookup lip lport rip rport s = Some i"
proof -
  have skip: "tcp_lookup_loop ts lip lport rip rport js l = l" if "set js \<subseteq> {..<TCP_TCB_MAX} - {i}" for js l
    using that by (induction js arbitrary: l) (auto simp: Let_def dest: o)
  have "tcp_lookup_loop ts lip lport rip rport js l = Some i"
    if "i \<in> set js" "distinct js" "set js \<subseteq> {..<TCP_TCB_MAX}" for js l
    using that
  proof (induction js arbitrary: l)
    case (Cons j js)
    show ?case
    proof (cases "j = i")
      case True
      then have "set js \<subseteq> {..<TCP_TCB_MAX} - {i}"
        using Cons.prems by auto
      then show ?thesis
        using True u m skip by (auto simp: Let_def split: if_splits)
    next
      case False
      then have "tcp_lookup_loop ts lip lport rip rport (j # js) l = tcp_lookup_loop ts lip lport rip rport js l"
        using o [of j] Cons.prems by (simp add: Let_def)
      then show ?thesis
        using Cons False by simp
    qed
  qed simp
  from this [of "[0..<TCP_TCB_MAX]"] show ?thesis
    using i by (simp add: tcp_lookup_def ts atLeast_upt)
qed

text \<open>
  The two ends of a connection on this machine: blocks \<open>c\<close> and \<open>t\<close> whose ports are used by no
  other block.
\<close>

definition only_users :: "tcp_tcb list \<Rightarrow> nat \<Rightarrow> nat \<Rightarrow> u16 \<Rightarrow> u16 \<Rightarrow> bool" where
  "only_users ts c t cp sp \<longleftrightarrow> length ts = TCP_TCB_MAX \<and> c < TCP_TCB_MAX \<and> t < TCP_TCB_MAX \<and> c \<noteq> t \<and> cp \<noteq> sp
     \<and> (\<forall>j < TCP_TCB_MAX. j \<noteq> c \<and> j \<noteq> t \<longrightarrow> tcb_in_use (ts ! j) \<longrightarrow> local_port (ts ! j) \<noteq> cp \<and> local_port (ts ! j) \<noteq> sp)"

definition endpoint :: "tcp_tcb \<Rightarrow> ip_addr \<Rightarrow> u16 \<Rightarrow> u16 \<Rightarrow> bool" where
  "endpoint b a lp rp \<longleftrightarrow> tcb_in_use b \<and> local_ip b = a \<and> remote_ip b = a \<and> local_port b = lp \<and> remote_port b = rp"

lemma only_users_update:
  "only_users ts c t cp sp \<Longrightarrow> only_users (ts[c := x]) c t cp sp"
  "only_users ts c t cp sp \<Longrightarrow> only_users (ts[t := x]) c t cp sp"
  by (auto simp: only_users_def)

lemma lookup_endpoint:
  assumes "only_users (g_tcbs s) c t cp sp" and "endpoint (g_tcbs s ! c) a cp sp"
    and "tcb_state (g_tcbs s ! c) \<noteq> TCP_LISTEN" and "local_port (g_tcbs s ! t) = sp"
  shows "tcp_lookup a cp a sp s = Some c"
  using assms unfolding only_users_def endpoint_def
  by (intro tcp_lookup_unique [where ts = "g_tcbs s"]) auto

lemma lookup_peer:
  assumes "only_users (g_tcbs s) c t cp sp" and "tcb_in_use (g_tcbs s ! t)" "local_port (g_tcbs s ! t) = sp"
    and "local_port (g_tcbs s ! c) = cp"
    and "if tcb_state (g_tcbs s ! t) = TCP_LISTEN then ip_is_zero (local_ip (g_tcbs s ! t)) \<or> local_ip (g_tcbs s ! t) = a
         else remote_port (g_tcbs s ! t) = cp \<and> remote_ip (g_tcbs s ! t) = a \<and> local_ip (g_tcbs s ! t) = a"
  shows "tcp_lookup a sp a cp s = Some t"
  using assms unfolding only_users_def
  by (intro tcp_lookup_unique [where ts = "g_tcbs s"]) auto

lemma flag_simps [simp]:
  "has TCP_F_SYN TCP_F_SYN" "\<not> has TCP_F_SYN TCP_F_FIN" "\<not> has TCP_F_SYN TCP_F_ACK"
  "has TCP_F_ACK TCP_F_ACK" "\<not> has TCP_F_ACK TCP_F_SYN" "\<not> has TCP_F_ACK TCP_F_FIN"
  "has (TCP_F_SYN OR TCP_F_ACK) TCP_F_SYN" "has (TCP_F_SYN OR TCP_F_ACK) TCP_F_ACK"
  "\<not> has (TCP_F_SYN OR TCP_F_ACK) TCP_F_FIN"
  by (simp_all add: has_def TCP_F_SYN_def TCP_F_ACK_def TCP_F_FIN_def)

text \<open>The last step of the handshake: the acknowledgement of the client.\<close>

lemma handshake_ack:
  assumes ready: "lo_ready a s" and nz: "\<not> ip_is_zero a"
    and o: "only_users (g_tcbs s) c t cp sp" and ec: "endpoint (g_tcbs s ! c) a cp sp"
    and et: "endpoint (g_tcbs s ! t) a sp cp" and st: "tcb_state (g_tcbs s ! t) = TCP_SYN_RECEIVED"
  shows "g_tcbs (reply (stack_tx drv call (Suc depth)) c TCP_F_ACK s) =
     (g_tcbs s)[t := (g_tcbs s ! t)\<lparr>snd_una := rcv_nxt (g_tcbs s ! c), tcb_state := TCP_ESTABLISHED\<rparr>]"
proof -
  let ?b = "g_tcbs s ! c"
  have c: "c < length (g_tcbs s)" and ct: "c \<noteq> t"
    using o by (simp_all add: only_users_def)
  have r: "lo_ready (remote_ip ?b) s" and nb: "\<not> ip_is_zero (local_ip ?b)"
    using ready nz ec by (simp_all add: endpoint_def)
  obtain s2 where s2: "g_tcbs s2 = (g_tcbs s)[c := ?b\<lparr>snd_nxt := snd_nxt ?b + seq_space TCP_F_ACK 0\<rparr>]"
    and e: "g_tcbs (reply (stack_tx drv call (Suc depth)) c TCP_F_ACK s) =
      g_tcbs (seg_arrives (stack_tx drv call depth) cp sp (snd_nxt ?b) (rcv_nxt ?b) TCP_F_ACK a a s2)"
    using segment_arrives [OF r c refl nb, of TCP_F_ACK drv call depth] ec unfolding reply_def endpoint_def by metis
  have same: "g_tcbs s2 = g_tcbs s"
    using s2 by (simp add: seq_space_def)
  have "tcp_lookup a sp a cp s2 = Some t"
    using o ec et st same by (intro lookup_peer [where c = c]) (simp_all add: endpoint_def)
  then show ?thesis
    unfolding e seg_arrives_def by (simp add: same st tcp_state_machine_def upd_tcb_def)
qed

lemma lo_ready_upd_tcb [simp]: "lo_ready x (upd_tcb t f s) = lo_ready x s"
  by (rule lo_ready_cong) (simp_all add: upd_tcb_def)

lemma lo_ready_iss [simp]: "lo_ready x (s\<lparr>g_iss_clock := y\<rparr>) = lo_ready x s"
  by (rule lo_ready_cong) simp_all

lemma handshake_synack:
  assumes ready: "lo_ready a s" and nz: "\<not> ip_is_zero a"
    and o: "only_users (g_tcbs s) c t cp sp"
    and ec: "endpoint (g_tcbs s ! c) a cp sp" and sc: "tcb_state (g_tcbs s ! c) = TCP_SYN_SENT"
    and et: "endpoint (g_tcbs s ! t) a sp cp" and st: "tcb_state (g_tcbs s ! t) = TCP_SYN_RECEIVED"
  defines "bc \<equiv> g_tcbs s ! c" and "bt \<equiv> g_tcbs s ! t"
  shows "g_tcbs (reply (stack_tx drv call (Suc (Suc depth))) t (TCP_F_SYN OR TCP_F_ACK) s) =
     (g_tcbs s)[c := bc\<lparr>irs := snd_nxt bt, rcv_nxt := snd_nxt bt + 1, snd_una := rcv_nxt bt, tcb_state := TCP_ESTABLISHED\<rparr>,
        t := bt\<lparr>snd_nxt := snd_nxt bt + 1, snd_una := snd_nxt bt + 1, tcb_state := TCP_ESTABLISHED\<rparr>]"
proof -
  have len: "length (g_tcbs s) = TCP_TCB_MAX" and c: "c < TCP_TCB_MAX" and t: "t < TCP_TCB_MAX" and ct: "c \<noteq> t"
    using o by (simp_all add: only_users_def)
  have r: "lo_ready (remote_ip bt) s" and nb: "\<not> ip_is_zero (local_ip bt)"
    using ready nz et by (simp_all add: endpoint_def bt_def)
  have tl: "t < length (g_tcbs s)"
    using len t by simp
  obtain s2 where s2: "g_tcbs s2 = (g_tcbs s)[t := bt\<lparr>snd_nxt := snd_nxt bt + seq_space (TCP_F_SYN OR TCP_F_ACK) 0\<rparr>]"
    and r2: "\<And>x. lo_ready x s2 = lo_ready x s"
    and e: "g_tcbs (reply (stack_tx drv call (Suc (Suc depth))) t (TCP_F_SYN OR TCP_F_ACK) s) =
      g_tcbs (seg_arrives (stack_tx drv call (Suc depth)) sp cp (snd_nxt bt) (rcv_nxt bt) (TCP_F_SYN OR TCP_F_ACK) a a s2)"
    using segment_arrives [OF r tl _ nb, of "TCP_F_SYN OR TCP_F_ACK" drv call "Suc depth"] et
    unfolding reply_def endpoint_def bt_def by metis
  have n2: "g_tcbs s2 ! c = bc" "g_tcbs s2 ! t = bt\<lparr>snd_nxt := snd_nxt bt + 1\<rparr>" "length (g_tcbs s2) = TCP_TCB_MAX"
    using s2 len t ct by (simp_all add: bc_def seq_space_def)
  have o2: "only_users (g_tcbs s2) c t cp sp"
    using o unfolding s2 by (rule only_users_update)
  have lk: "tcp_lookup a cp a sp s2 = Some c"
    using o2 ec et sc by (intro lookup_endpoint [where t = t]) (simp_all add: n2 bc_def bt_def endpoint_def)
  define s3 where "s3 = upd_tcb c (\<lambda>b. b\<lparr>irs := snd_nxt bt, rcv_nxt := snd_nxt bt + 1, snd_una := rcv_nxt bt,
     tcb_state := TCP_ESTABLISHED\<rparr>) s2"
  have n3: "g_tcbs s3 = (g_tcbs s2)[c := bc\<lparr>irs := snd_nxt bt, rcv_nxt := snd_nxt bt + 1, snd_una := rcv_nxt bt,
     tcb_state := TCP_ESTABLISHED\<rparr>]"
    by (simp add: s3_def upd_tcb_def n2)
  have "g_tcbs (reply (stack_tx drv call (Suc depth)) c TCP_F_ACK s3) =
     (g_tcbs s3)[t := (g_tcbs s3 ! t)\<lparr>snd_una := rcv_nxt (g_tcbs s3 ! c), tcb_state := TCP_ESTABLISHED\<rparr>]"
  proof (rule handshake_ack [OF _ nz])
    show "lo_ready a s3"
      using ready r2 by (simp add: s3_def)
    show "only_users (g_tcbs s3) c t cp sp"
      unfolding n3 using o2 by (rule only_users_update)
  qed (use ec et st ct c in \<open>simp_all add: n3 n2 endpoint_def bc_def bt_def\<close>)
  moreover have "seg_arrives (stack_tx drv call (Suc depth)) sp cp (snd_nxt bt) (rcv_nxt bt) (TCP_F_SYN OR TCP_F_ACK) a a s2
      = reply (stack_tx drv call (Suc depth)) c TCP_F_ACK s3"
    using sc by (simp add: seg_arrives_def lk n2 bc_def tcp_state_machine_def on_syn_sent_def s3_def has_syn_ack)
  ultimately show ?thesis
    unfolding e using ct c t len s2
    by (simp add: n3 n2 list_update_swap [of c t] seq_space_def)
qed

lemma handshake_syn:
  assumes ready: "lo_ready a s" and nz: "\<not> ip_is_zero a"
    and o: "only_users (g_tcbs s) c t cp sp"
    and ec: "endpoint (g_tcbs s ! c) a cp sp" and sc: "tcb_state (g_tcbs s ! c) = TCP_SYN_SENT"
    and lt: "tcb_in_use (g_tcbs s ! t)" "tcb_state (g_tcbs s ! t) = TCP_LISTEN" "local_port (g_tcbs s ! t) = sp"
      "ip_is_zero (local_ip (g_tcbs s ! t)) \<or> local_ip (g_tcbs s ! t) = a"
  defines "x \<equiv> snd_nxt (g_tcbs s ! c)" and "y \<equiv> g_iss_clock s + 64000"
  shows "fst (tcp_send_segment (stack_tx drv call (Suc (Suc (Suc depth)))) (Some c) TCP_F_SYN None 0 s) = 0"
    and "g_tcbs (snd (tcp_send_segment (stack_tx drv call (Suc (Suc (Suc depth)))) (Some c) TCP_F_SYN None 0 s)) =
     (g_tcbs s)[c := (g_tcbs s ! c)\<lparr>snd_nxt := x + 1, irs := y, rcv_nxt := y + 1, snd_una := x + 1,
          tcb_state := TCP_ESTABLISHED\<rparr>,
        t := (g_tcbs s ! t)\<lparr>remote_ip := a, remote_port := cp, local_ip := a, irs := x, rcv_nxt := x + 1,
          iss := y, snd_nxt := y + 1, snd_una := y + 1, tcb_state := TCP_ESTABLISHED\<rparr>]"
proof -
  let ?tx = "stack_tx drv call (Suc (Suc (Suc depth)))"
  let ?b = "g_tcbs s ! c"
  have len: "length (g_tcbs s) = TCP_TCB_MAX" and c: "c < TCP_TCB_MAX" and t: "t < TCP_TCB_MAX" and ct: "c \<noteq> t"
    using o by (simp_all add: only_users_def)
  have r: "lo_ready (remote_ip ?b) s" and nb: "\<not> ip_is_zero (local_ip ?b)" and cl: "c < length (g_tcbs s)"
    using ready nz ec c len by (simp_all add: endpoint_def)
  obtain s2 where s2: "g_tcbs s2 = (g_tcbs s)[c := ?b\<lparr>snd_nxt := x + seq_space TCP_F_SYN 0\<rparr>]"
    and i2: "g_iss_clock s2 = g_iss_clock s" and r2: "\<And>y. lo_ready y s2 = lo_ready y s"
    and rc: "fst (tcp_send_segment ?tx (Some c) TCP_F_SYN None 0 s) = 0"
    and e: "g_tcbs (snd (tcp_send_segment ?tx (Some c) TCP_F_SYN None 0 s)) =
      g_tcbs (seg_arrives (stack_tx drv call (Suc (Suc depth))) cp sp x (rcv_nxt ?b) TCP_F_SYN a a s2)"
    using segment_arrives [OF r cl refl nb, of TCP_F_SYN drv call "Suc (Suc depth)"] ec
    unfolding endpoint_def x_def by metis
  have n2: "g_tcbs s2 ! c = ?b\<lparr>snd_nxt := x + 1\<rparr>" "g_tcbs s2 ! t = g_tcbs s ! t" "length (g_tcbs s2) = TCP_TCB_MAX"
    using c t ct len by (simp_all add: s2 seq_space_def)
  have o2: "only_users (g_tcbs s2) c t cp sp"
    unfolding s2 using o by (rule only_users_update)
  have lk: "tcp_lookup a sp a cp s2 = Some t"
    using o2 lt ec by (intro lookup_peer [where c = c]) (simp_all add: n2 endpoint_def)
  define bt where "bt = (g_tcbs s ! t)\<lparr>remote_ip := a, remote_port := cp, local_ip := a, irs := x, rcv_nxt := x + 1,
     iss := y, snd_una := y, snd_nxt := y, tcb_state := TCP_SYN_RECEIVED\<rparr>"
  define s3 where "s3 = s2\<lparr>g_iss_clock := y, g_tcbs := (g_tcbs s2)[t := bt]\<rparr>"
  have arr: "seg_arrives (stack_tx drv call (Suc (Suc depth))) cp sp x (rcv_nxt ?b) TCP_F_SYN a a s2
      = reply (stack_tx drv call (Suc (Suc depth))) t (TCP_F_SYN OR TCP_F_ACK) s3"
    using lt t by (simp add: seg_arrives_def lk n2 tcp_state_machine_def on_listen_def upd_tcb_def tcp_gen_iss_def
        i2 s3_def bt_def Let_def y_def)
  have n3: "g_tcbs s3 ! c = ?b\<lparr>snd_nxt := x + 1\<rparr>" "g_tcbs s3 ! t = bt" "length (g_tcbs s3) = TCP_TCB_MAX"
    using t ct by (simp_all add: s3_def n2)
  have o3: "only_users (g_tcbs s3) c t cp sp"
    unfolding s3_def using o2 by (simp add: only_users_update)
  have r3: "lo_ready a s3"
    using ready r2 lo_ready_cong [of s3 s2] by (simp add: s3_def)
  show "fst (tcp_send_segment ?tx (Some c) TCP_F_SYN None 0 s) = 0"
    by (rule rc)
  show "g_tcbs (snd (tcp_send_segment ?tx (Some c) TCP_F_SYN None 0 s)) =
     (g_tcbs s)[c := ?b\<lparr>snd_nxt := x + 1, irs := y, rcv_nxt := y + 1, snd_una := x + 1,
          tcb_state := TCP_ESTABLISHED\<rparr>,
        t := (g_tcbs s ! t)\<lparr>remote_ip := a, remote_port := cp, local_ip := a, irs := x, rcv_nxt := x + 1,
          iss := y, snd_nxt := y + 1, snd_una := y + 1, tcb_state := TCP_ESTABLISHED\<rparr>]"
    using handshake_synack [OF r3 nz o3, of drv call depth] ec sc lt ct
    by (simp add: e arr n3 endpoint_def bt_def) (simp add: s3_def s2 list_update_swap [of c t])
qed

text \<open>
  C3. A connection to a listener on this machine is established by the call that opens it.  With
  the loopback device up, an unused block connecting from a free port to a port on which another
  block listens returns 0 with both blocks \<open>ESTABLISHED\<close> and in agreement: each expects the
  sequence number the other will send next, everything sent is acknowledged, and both record the
  other's initial number.  Three levels of nesting, SYN, SYN with ACK and ACK, are enough.
\<close>

theorem loopback_handshake:
  assumes ready: "lo_ready a s" and nz: "\<not> ip_is_zero a"
    and o: "only_users (g_tcbs s) c t cp sp" and uc: "tcb_in_use (g_tcbs s ! c)"
    and lt: "tcb_in_use (g_tcbs s ! t)" "tcb_state (g_tcbs s ! t) = TCP_LISTEN" "local_port (g_tcbs s ! t) = sp"
      "ip_is_zero (local_ip (g_tcbs s ! t)) \<or> local_ip (g_tcbs s ! t) = a"
  shows "case tcp_connect (stack_tx drv call (Suc (Suc (Suc depth)))) (Some c) a cp a sp s of
     (rc, s') \<Rightarrow>
       let bc = g_tcbs s' ! c; bt = g_tcbs s' ! t
       in rc = 0 \<and> tcb_state bc = TCP_ESTABLISHED \<and> tcb_state bt = TCP_ESTABLISHED
          \<and> rcv_nxt bc = snd_nxt bt \<and> rcv_nxt bt = snd_nxt bc
          \<and> snd_una bc = snd_nxt bc \<and> snd_una bt = snd_nxt bt
          \<and> irs bc = iss bt \<and> irs bt = iss bc
          \<and> (\<forall>j. j \<noteq> c \<and> j \<noteq> t \<longrightarrow> g_tcbs s' ! j = g_tcbs s ! j)"
proof -
  let ?tx = "stack_tx drv call (Suc (Suc (Suc depth)))"
  have len: "length (g_tcbs s) = TCP_TCB_MAX" and c: "c < TCP_TCB_MAX" and t: "t < TCP_TCB_MAX" and ct: "c \<noteq> t"
    using o by (simp_all add: only_users_def)
  define x where "x = g_iss_clock s + 64000"
  define bc where "bc = (g_tcbs s ! c)\<lparr>local_ip := a, local_port := cp, remote_ip := a, remote_port := sp,
     iss := x, snd_una := x, snd_nxt := x, rcv_nxt := 0, tcb_state := TCP_SYN_SENT\<rparr>"
  define s1 where "s1 = s\<lparr>g_iss_clock := x, g_tcbs := (g_tcbs s)[c := bc]\<rparr>"
  have con: "tcp_connect ?tx (Some c) a cp a sp s = tcp_send_segment ?tx (Some c) TCP_F_SYN None 0 s1"
    using c len by (simp add: tcp_connect_def tcp_gen_iss_def upd_tcb_def Let_def s1_def bc_def x_def)
  have n1: "g_tcbs s1 ! c = bc" "g_tcbs s1 ! t = g_tcbs s ! t" "length (g_tcbs s1) = TCP_TCB_MAX"
    using c t ct len by (simp_all add: s1_def)
  have r1: "lo_ready a s1"
    using ready lo_ready_cong [of s1 s] by (simp add: s1_def)
  have o1: "only_users (g_tcbs s1) c t cp sp"
    unfolding s1_def using o by (simp add: only_users_update)
  note h = handshake_syn [OF r1 nz o1, of drv call depth, unfolded n1]
  have pre: "endpoint bc a cp sp" "tcb_state bc = TCP_SYN_SENT"
    using uc by (simp_all add: bc_def endpoint_def)
  obtain s' where fs: "tcp_connect ?tx (Some c) a cp a sp s = (0, s')" and g': "g_tcbs s' = (g_tcbs s1)
     [c := bc\<lparr>snd_nxt := snd_nxt bc + 1, irs := g_iss_clock s1 + 64000, rcv_nxt := g_iss_clock s1 + 64000 + 1,
          snd_una := snd_nxt bc + 1, tcb_state := TCP_ESTABLISHED\<rparr>,
        t := (g_tcbs s ! t)\<lparr>remote_ip := a, remote_port := cp, local_ip := a, irs := snd_nxt bc,
          rcv_nxt := snd_nxt bc + 1, iss := g_iss_clock s1 + 64000, snd_nxt := g_iss_clock s1 + 64000 + 1,
          snd_una := g_iss_clock s1 + 64000 + 1, tcb_state := TCP_ESTABLISHED\<rparr>]"
    using h [OF pre lt] unfolding con by (metis prod.collapse)
  have oth: "g_tcbs s' ! j = g_tcbs s ! j" if "j \<noteq> c" "j \<noteq> t" for j
    using that by (simp add: g' s1_def)
  show ?thesis
    using c t ct n1 oth by (simp add: fs g' bc_def Let_def)
qed

text \<open>A machine with one unused block and one listener, for the witness.\<close>

definition sample_tcb :: tcp_tcb where
  "sample_tcb = \<lparr> tcb_in_use = True, tcb_state = TCP_CLOSED, local_ip = IP_ADDR_ANY, remote_ip = IP_ADDR_ANY,
     local_port = 0, remote_port = 0, snd_una = 0, snd_nxt = 0, snd_wnd = 65535, iss = 0, rcv_nxt = 0,
     rcv_wnd = 65535, irs = 0 \<rparr>"

definition sample_conn :: tcp where
  "sample_conn = sample_net\<lparr>g_tcbs := sample_tcb # sample_tcb\<lparr>tcb_state := TCP_LISTEN, local_port := 80\<rparr>
     # replicate 6 (sample_tcb\<lparr>tcb_in_use := False\<rparr>)\<rparr>"

theorem loopback_handshake_witness:
  "lo_ready IP_ADDR_LOOPBACK sample_conn
   \<and> only_users (g_tcbs sample_conn) 0 1 50000 80
   \<and> tcb_state (g_tcbs sample_conn ! 1) = TCP_LISTEN
   \<and> fst (tcp_connect (stack_tx (\<lambda>i nb s. (- 1, s)) (\<lambda>c s. s) (Suc (Suc (Suc 0)))) (Some 0) IP_ADDR_LOOPBACK 50000
       IP_ADDR_LOOPBACK 80 sample_conn) = 0"
proof -
  have r: "lo_ready IP_ADDR_LOOPBACK sample_conn"
    using sample_net_ready(1) lo_ready_cong [of sample_conn sample_net] by (simp add: sample_conn_def)
  have o: "only_users (g_tcbs sample_conn) 0 1 50000 80"
    by (auto simp: only_users_def sample_conn_def TCP_TCB_MAX_def sample_tcb_def nth_Cons')
  have b: "tcb_in_use (g_tcbs sample_conn ! 0)" "tcb_in_use (g_tcbs sample_conn ! 1)"
    "tcb_state (g_tcbs sample_conn ! 1) = TCP_LISTEN" "local_port (g_tcbs sample_conn ! 1) = 80"
    "ip_is_zero (local_ip (g_tcbs sample_conn ! 1)) \<or> local_ip (g_tcbs sample_conn ! 1) = IP_ADDR_LOOPBACK"
    by (simp_all add: sample_conn_def sample_tcb_def ip_is_zero_def)
  show ?thesis
    using loopback_handshake [OF r loopback_not_zero o b, of "\<lambda>i nb s. (- 1, s)" "\<lambda>c s. s" 0] r o b(3)
    by (auto simp: Let_def split: prod.splits)
qed

subsection \<open>A connection from the unspecified address\<close>

text \<open>
  A checksum that is right for the source address 0.0.0.0 is wrong for 127.0.0.1: the two
  pseudo-headers differ by 0x7F00 + 1, no multiple of 65535.
\<close>

lemma loopback_checksum_differs:
  assumes "length h < 65536"
    and ok: "net_transport_checksum (be src) d p h (of_nat (length h)) = 0" and src: "ip_is_zero src"
  shows "net_transport_checksum (be IP_ADDR_LOOPBACK) d p h (of_nat (length h)) \<noteq> 0"
proof -
  let ?n = "of_nat (length h) :: u16"
  have z: "be src = 0" and l: "host_put32 (be IP_ADDR_LOOPBACK) = [0x7F, 0, 0, 1]"
    using src by (simp_all add: ip_is_zero_def ip_loopback_make ip_make_def push_bit_eq_mult host_put32_def drop_bit_eq_div)
  have w: "pseudo_sum (be IP_ADDR_LOOPBACK) d p ?n = pseudo_sum (be src) d p ?n + 32513"
    unfolding z pseudo_sum_def l by (simp add: host_put32_def)
  have b: "pseudo_sum (be x) d p ?n + word_sum h < 2 ^ 32" for x
    using pseudo_sum_bound [of "be x" d p ?n] word_sum_small [of h] assms(1) by simp
  have "65535 dvd pseudo_sum (be src) d p ?n + word_sum h"
    using ok net_csum_fold_zero_iff [OF b] unfolding net_transport_checksum_eq [OF assms(1)] by blast
  then have "\<not> 65535 dvd pseudo_sum (be src) d p ?n + word_sum h + 32513"
    using dvd_add_right_iff [of 65535 "pseudo_sum (be src) d p ?n + word_sum h" 32513] by simp
  then have "\<not> 65535 dvd pseudo_sum (be IP_ADDR_LOOPBACK) d p ?n + word_sum h"
    unfolding w by (simp add: ac_simps)
  then show ?thesis
    using net_csum_fold_zero_iff [OF b] unfolding net_transport_checksum_eq [OF assms(1)] by blast
qed

lemma tcp_input_rejects:
  assumes wf: "netbuf_wf nb" and b: "nb_bytes nb = tcp_header sp dp seq ack flags w c"
    and bad: "net_transport_checksum (be src) (be dst) IP_PROTO_TCP (nb_bytes nb) (of_nat TCP_HDR_LEN) \<noteq> 0"
  shows "tcp_input tx nb src dst s = s"
proof -
  obtain r where at: "nb_at nb = tcp_header sp dp seq ack flags w c @ r"
    using nb_bytes_at [OF wf, of "tcp_header sp dp seq ack flags w c" "[]"] b by auto
  have len: "netbuf_len nb = TCP_HDR_LEN"
    using wf_sizes(1,4) [OF wf] b by (simp add: tcp_header_length)
  have u: "unat (of_nat TCP_HDR_LEN :: u16) = TCP_HDR_LEN"
    by (simp add: TCP_HDR_LEN_def)
  have "net_transport_checksum (be src) (be dst) IP_PROTO_TCP (nb_at nb) (of_nat TCP_HDR_LEN) \<noteq> 0"
    using bad unfolding net_transport_checksum_def u by (simp add: b at tcp_header_length)
  then show ?thesis
    unfolding tcp_input_def Let_def len by simp
qed

text \<open>
  C39. A connection attempt whose local address is the unspecified address 0.0.0.0 is lost on the
  loopback device.  The call reports success, but \<open>tcp_build_segment\<close> computes the
  checksum over source address 0 while \<open>ipv4_output\<close> sends the interface address
  127.0.0.1, so the receiver's checksum test drops the SYN before any control block is looked up:
  whatever blocks are listening, only the caller's block changes, and it stays in SYN_SENT.
\<close>

theorem unspecified_connect_lost:
  fixes s :: "'a tcp_scheme" and cp sp :: u16
  assumes ready: "lo_ready dst s" and ip: "nif_ip (netif_obj s LOOPBACK) = IP_ADDR_LOOPBACK"
    and c: "c < length (g_tcbs s)"
  shows "let x = g_iss_clock s + 64000;
             (rc, s') = tcp_connect (stack_tx drv call (Suc depth)) (Some c) IP_ADDR_ANY cp dst sp s
         in rc = 0 \<and> g_tcbs s' = (g_tcbs s)[c := (g_tcbs s ! c)\<lparr>local_ip := IP_ADDR_ANY, local_port := cp,
              remote_ip := dst, remote_port := sp, iss := x, snd_una := x, rcv_nxt := 0,
              tcb_state := TCP_SYN_SENT, snd_nxt := x + 1\<rparr>]"
proof -
  let ?tx = "stack_tx drv call (Suc depth)"
  define x where "x = g_iss_clock s + 64000"
  define bc where "bc = (g_tcbs s ! c)\<lparr>local_ip := IP_ADDR_ANY, local_port := cp, remote_ip := dst, remote_port := sp,
     iss := x, snd_una := x, snd_nxt := x, rcv_nxt := 0, tcb_state := TCP_SYN_SENT\<rparr>"
  define s1 where "s1 = s\<lparr>g_iss_clock := x, g_tcbs := (g_tcbs s)[c := bc]\<rparr>"
  have con: "tcp_connect ?tx (Some c) IP_ADDR_ANY cp dst sp s = tcp_send_segment ?tx (Some c) TCP_F_SYN None 0 s1"
    using c by (simp add: tcp_connect_def tcp_gen_iss_def upd_tcb_def Let_def s1_def bc_def x_def)
  have n1: "bc = g_tcbs s1 ! c" "c < length (g_tcbs s1)"
    using c by (simp_all add: s1_def)
  have r1: "lo_ready (remote_ip bc) s1"
    using ready lo_ready_cong [of s1 s] by (simp add: s1_def bc_def)
  obtain nb ck s2 f where nb: "netbuf_wf nb"
      "nb_bytes nb = tcp_header (local_port bc) (remote_port bc) (snd_nxt bc) (rcv_nxt bc) TCP_F_SYN (ucast (rcv_wnd bc)) ck"
    and ok: "net_transport_checksum (be (local_ip bc)) (be (remote_ip bc)) IP_PROTO_TCP (nb_bytes nb) (of_nat TCP_HDR_LEN) = 0"
    and s2: "g_tcbs s2 = (g_tcbs s1)[c := bc\<lparr>snd_nxt := snd_nxt bc + seq_space TCP_F_SYN 0\<rparr>]"
    and snt: "tcp_send_segment ?tx (Some c) TCP_F_SYN None 0 s1 =
      (0, upd_stats LOOPBACK f (netbuf_free (Some nb) (tcp_input (stack_tx drv call depth) nb
            (if ip_is_zero (local_ip bc) then nif_ip (netif_obj s1 LOOPBACK) else local_ip bc) (remote_ip bc) s2)))"
    using segment_delivered [OF r1 n1(2,1), of TCP_F_SYN drv call depth] by metis
  have z: "ip_is_zero (local_ip bc)" and ip1: "nif_ip (netif_obj s1 LOOPBACK) = IP_ADDR_LOOPBACK"
    and len: "length (nb_bytes nb) = TCP_HDR_LEN"
    using ip by (simp_all add: bc_def ip_is_zero_def s1_def nb tcp_header_length)
  have "net_transport_checksum (be IP_ADDR_LOOPBACK) (be (remote_ip bc)) IP_PROTO_TCP (nb_bytes nb) (of_nat TCP_HDR_LEN) \<noteq> 0"
    using loopback_checksum_differs [OF _ ok [folded len] z] by (simp add: len TCP_HDR_LEN_def)
  then have "tcp_input (stack_tx drv call depth) nb IP_ADDR_LOOPBACK (remote_ip bc) s2 = s2"
    by (rule tcp_input_rejects [OF nb])
  then have r: "tcp_connect ?tx (Some c) IP_ADDR_ANY cp dst sp s = (0, upd_stats LOOPBACK f (netbuf_free (Some nb) s2))"
    by (simp only: con snt z ip1 if_True)
  have g: "g_tcbs (upd_stats LOOPBACK f (netbuf_free (Some nb) s2)) = (g_tcbs s)[c := bc\<lparr>snd_nxt := x + 1\<rparr>]"
    by (simp add: s2 s1_def netbuf_free_def upd_stats_def upd_nif_def seq_space_def) (simp add: bc_def)
  show ?thesis
    unfolding r Let_def prod.case g by (simp add: bc_def x_def)
qed

theorem unspecified_connect_lost_witness:
  "lo_ready IP_ADDR_LOOPBACK sample_conn \<and> nif_ip (netif_obj sample_conn LOOPBACK) = IP_ADDR_LOOPBACK
   \<and> tcb_state (g_tcbs (snd (tcp_connect (stack_tx (\<lambda>i nb s. (- 1, s)) (\<lambda>c s. s) (Suc 2)) (Some 0) IP_ADDR_ANY 50000
       IP_ADDR_LOOPBACK 80 sample_conn)) ! 1) = TCP_LISTEN"
proof -
  have r: "lo_ready IP_ADDR_LOOPBACK sample_conn"
    using sample_net_ready(1) lo_ready_cong [of sample_conn sample_net] by (simp add: sample_conn_def)
  have i: "nif_ip (netif_obj sample_conn LOOPBACK) = IP_ADDR_LOOPBACK"
    using sample_net_ready(2) by (simp add: sample_conn_def)
  have c: "0 < length (g_tcbs sample_conn)" and l: "tcb_state (g_tcbs sample_conn ! 1) = TCP_LISTEN"
    by (simp_all add: sample_conn_def)
  show ?thesis
    using unspecified_connect_lost [OF r i c, of "\<lambda>i nb s. (- 1, s)" "\<lambda>c s. s" 2 50000 80] r i l
    by (auto simp: Let_def split: prod.splits)
qed

end
