(* ===== verification/Socket.thy ===== *)
theory Socket
  imports Net_Conn Fifo
begin

text \<open>
  The socket table and its API (\<open>kernel/net/socket.c\<close>) over UDP and TCP.  The receiver function
  \<open>sock_udp_recv\<close> that the table registers with UDP has the number \<open>SOCK_UDP_RECV\<close> and its context
  is the index of the socket; \<open>sock_call\<close> is what calling a registered receiver does.  A stored datagram
  holds its valid bytes only.
\<close>

definition SOCK_DGRAM :: int where "SOCK_DGRAM = 1"
definition SOCK_STREAM :: int where "SOCK_STREAM = 2"
definition SOCKET_MAX :: nat where "SOCKET_MAX = 16"
definition SOCKET_RX_QUEUE :: nat where "SOCKET_RX_QUEUE = 8"
definition SOCKET_RX_PAYLOAD :: nat where "SOCKET_RX_PAYLOAD = 1472"

record sock_dgram =
  dg_src :: ip_addr
  dg_src_port :: u16
  dg_data :: "u8 list"

record socket =
  so_in_use :: bool
  so_type :: int
  so_local_ip :: ip_addr
  so_local_port :: u16
  so_remote_ip :: ip_addr
  so_remote_port :: u16
  so_bound :: bool
  so_connected :: bool
  so_rxq :: "sock_dgram list"
  rx_head :: nat
  rx_tail :: nat
  rx_count :: nat
  so_tcb :: "nat option"

record netsock = tcp +
  g_sockets :: "socket list"

definition SOCK_UDP_RECV :: nat where "SOCK_UDP_RECV = 1"

definition zero_dgram :: sock_dgram where
  "zero_dgram = \<lparr> dg_src = \<lparr> be = 0 \<rparr>, dg_src_port = 0, dg_data = [] \<rparr>"

definition zero_socket :: socket where
  "zero_socket = \<lparr> so_in_use = False, so_type = 0, so_local_ip = \<lparr> be = 0 \<rparr>, so_local_port = 0, so_remote_ip = \<lparr> be = 0 \<rparr>,
     so_remote_port = 0, so_bound = False, so_connected = False, so_rxq = replicate SOCKET_RX_QUEUE zero_dgram,
     rx_head = 0, rx_tail = 0, rx_count = 0, so_tcb = None \<rparr>"

definition upd_sock :: "nat \<Rightarrow> (socket \<Rightarrow> socket) \<Rightarrow> 'a netsock_scheme \<Rightarrow> 'a netsock_scheme" where
  "upd_sock i f s = s\<lparr>g_sockets := (g_sockets s)[i := f (g_sockets s ! i)]\<rparr>"

definition net_socket_init :: "'a netsock_scheme \<Rightarrow> 'a netsock_scheme" where
  "net_socket_init s = fold (\<lambda>i. upd_sock i (\<lambda>_. zero_socket)) [0..<SOCKET_MAX] s"

definition sock_get :: "int \<Rightarrow> 'a netsock_scheme \<Rightarrow> nat option" where
  "sock_get sd s =
     (if sd < 0 \<or> SOCKET_MAX \<le> nat sd \<or> \<not> so_in_use (g_sockets s ! nat sd) then None else Some (nat sd))"

definition sock_create :: "int \<Rightarrow> 'a netsock_scheme \<Rightarrow> int \<times> 'a netsock_scheme" where
  "sock_create typ s =
     (if typ \<noteq> SOCK_DGRAM \<and> typ \<noteq> SOCK_STREAM then (- 1, s)
      else case scan_from (\<lambda>i. \<not> so_in_use (g_sockets s ! i)) 0 SOCKET_MAX of
             None \<Rightarrow> (- 1, s)
           | Some i \<Rightarrow>
               let s = upd_sock i (\<lambda>_. zero_socket\<lparr>so_in_use := True, so_type := typ\<rparr>) s
               in if typ = SOCK_STREAM
                  then (case tcp_tcb_alloc s of
                          (None, s) \<Rightarrow> (- 1, upd_sock i (\<lambda>so. so\<lparr>so_in_use := False\<rparr>) s)
                        | (Some t, s) \<Rightarrow> (int i, upd_sock i (\<lambda>so. so\<lparr>so_tcb := Some t\<rparr>) s))
                  else (int i, s))"

text \<open>Storing into and taking from the receive ring of a socket.\<close>

definition rxq_put :: "socket \<Rightarrow> sock_dgram \<Rightarrow> socket option" where
  "rxq_put so d =
     (if SOCKET_RX_QUEUE \<le> rx_count so then None
      else Some (so\<lparr>so_rxq := (so_rxq so)[rx_tail so := d], rx_tail := (rx_tail so + 1) mod SOCKET_RX_QUEUE,
                    rx_count := rx_count so + 1\<rparr>))"

definition rxq_get :: "socket \<Rightarrow> (sock_dgram \<times> socket) option" where
  "rxq_get so =
     (if rx_count so = 0 then None
      else Some (so_rxq so ! rx_head so,
                 so\<lparr>rx_head := (rx_head so + 1) mod SOCKET_RX_QUEUE, rx_count := rx_count so - 1\<rparr>))"

definition sock_udp_recv :: "nat \<Rightarrow> ip_addr \<Rightarrow> u16 \<Rightarrow> u8 list \<Rightarrow> 'a netsock_scheme \<Rightarrow> 'a netsock_scheme" where
  "sock_udp_recv i src src_port data s =
     (let so = g_sockets s ! i
      in if \<not> so_in_use so \<or> so_type so \<noteq> SOCK_DGRAM then s
         else case rxq_put so \<lparr> dg_src = src, dg_src_port = src_port, dg_data = take SOCKET_RX_PAYLOAD data \<rparr> of
                None \<Rightarrow> s
              | Some so \<Rightarrow> upd_sock i (\<lambda>_. so) s)"

definition sock_call :: "udp_call \<Rightarrow> 'a netsock_scheme \<Rightarrow> 'a netsock_scheme" where
  "sock_call c s =
     (if uc_recv c = SOCK_UDP_RECV then sock_udp_recv (uc_ctx c) (uc_src c) (uc_src_port c) (uc_data c) s else s)"

definition sock_bind :: "int \<Rightarrow> ip_addr \<Rightarrow> u16 \<Rightarrow> 'a netsock_scheme \<Rightarrow> int \<times> 'a netsock_scheme" where
  "sock_bind sd ip port s =
     (case sock_get sd s of
        None \<Rightarrow> (- 1, s)
      | Some i \<Rightarrow>
          let so = g_sockets s ! i;
              bound = (\<lambda>port s. (0, upd_sock i (\<lambda>so. so\<lparr>so_local_ip := ip, so_local_port := port, so_bound := True\<rparr>) s))
          in if so_bound so then (- 1, s)
             else if so_type so = SOCK_DGRAM
             then let (port, s) = (if port = 0 then udp_ephemeral_port s else (port, s))
                  in if port = 0 then (- 1, s)
                     else (case udp_bind ip port (Some SOCK_UDP_RECV) i s of
                             (rc, s) \<Rightarrow> if rc \<noteq> 0 then (- 1, s) else bound port s)
             else let (port, s) = (if port = 0 then udp_ephemeral_port s else (port, s))
                  in bound port (if so_tcb so \<noteq> None then snd (tcp_listen (so_tcb so) ip port s) else s))"

definition sock_connect :: "'a netsock_scheme tx_fn \<Rightarrow> int \<Rightarrow> ip_addr \<Rightarrow> u16 \<Rightarrow> 'a netsock_scheme \<Rightarrow> int \<times> 'a netsock_scheme" where
  "sock_connect tx sd ip port s =
     (case sock_get sd s of
        None \<Rightarrow> (- 1, s)
      | Some i \<Rightarrow>
          let so = g_sockets s ! i;
              peer = (\<lambda>so. so\<lparr>so_remote_ip := ip, so_remote_port := port, so_connected := True\<rparr>)
          in if so_type so = SOCK_DGRAM
             then let (rc, s) = (if so_bound so then (0, s) else sock_bind sd IP_ADDR_ANY 0 s)
                  in if rc \<noteq> 0 then (- 1, s) else (0, upd_sock i peer s)
             else if so_tcb so = None then (- 1, s)
             else let s = (if so_bound so then s
                           else let (p, s) = udp_ephemeral_port s
                                in upd_sock i (\<lambda>so. so\<lparr>so_local_port := p, so_local_ip := IP_ADDR_ANY, so_bound := True\<rparr>) s);
                      s = upd_sock i peer s
                  in tcp_connect tx (so_tcb so) (so_local_ip (g_sockets s ! i)) (so_local_port (g_sockets s ! i)) ip port s)"

definition sock_sendto ::
    "'a netsock_scheme tx_fn \<Rightarrow> int \<Rightarrow> u8 list option \<Rightarrow> u16 \<Rightarrow> ip_addr \<Rightarrow> u16 \<Rightarrow> 'a netsock_scheme \<Rightarrow> int \<times> 'a netsock_scheme" where
  "sock_sendto tx sd buf len dst dport s =
     (case sock_get sd s of
        None \<Rightarrow> (- 1, s)
      | Some i \<Rightarrow>
          if so_type (g_sockets s ! i) \<noteq> SOCK_DGRAM then (- 1, s)
          else let (rc, s) = (if so_bound (g_sockets s ! i) then (0, s) else sock_bind sd IP_ADDR_ANY 0 s)
               in if rc \<noteq> 0 then (- 1, s)
                  else let so = g_sockets s ! i;
                           (dst, dport) = (if ip_is_zero dst \<and> dport = 0 \<and> so_connected so
                                           then (so_remote_ip so, so_remote_port so) else (dst, dport));
                           (rc, s) = udp_output tx (so_local_ip so) (so_local_port so) dst dport buf len s
                       in if rc < 0 then (- 1, s) else (int (unat len), s))"

text \<open>The outputs of \<open>sock_recvfrom\<close> are the bytes it copies and the address and port of the sender.\<close>

definition sock_recvfrom ::
    "int \<Rightarrow> u16 \<Rightarrow> 'a netsock_scheme \<Rightarrow> int \<times> (u8 list \<times> ip_addr \<times> u16) option \<times> 'a netsock_scheme" where
  "sock_recvfrom sd cap s =
     (case sock_get sd s of
        None \<Rightarrow> (- 1, None, s)
      | Some i \<Rightarrow>
          if so_type (g_sockets s ! i) \<noteq> SOCK_DGRAM then (- 1, None, s)
          else case rxq_get (g_sockets s ! i) of
                 None \<Rightarrow> (- 1, None, s)
               | Some (d, so) \<Rightarrow>
                   let n = min (length (dg_data d)) (unat cap)
                   in (int n, Some (take n (dg_data d), dg_src d, dg_src_port d), upd_sock i (\<lambda>_. so) s))"

definition sock_close :: "'a netsock_scheme tx_fn \<Rightarrow> int \<Rightarrow> 'a netsock_scheme \<Rightarrow> int \<times> 'a netsock_scheme" where
  "sock_close tx sd s =
     (case sock_get sd s of
        None \<Rightarrow> (- 1, s)
      | Some i \<Rightarrow>
          let so = g_sockets s ! i;
              s = (if so_type so = SOCK_DGRAM \<and> so_bound so then udp_unbind (so_local_ip so) (so_local_port so) s else s);
              s = (if so_type so = SOCK_STREAM \<and> so_tcb so \<noteq> None
                   then upd_sock i (\<lambda>so. so\<lparr>so_tcb := None\<rparr>) (tcp_tcb_free (so_tcb so) (snd (tcp_close tx (so_tcb so) s)))
                   else s)
          in (0, upd_sock i (\<lambda>so. so\<lparr>so_in_use := False\<rparr>) s))"

subsection \<open>The receive ring is a bounded queue\<close>

definition rx_inv :: "socket \<Rightarrow> bool" where
  "rx_inv so \<longleftrightarrow> length (so_rxq so) = SOCKET_RX_QUEUE \<and> rx_head so < SOCKET_RX_QUEUE \<and> rx_count so \<le> SOCKET_RX_QUEUE
     \<and> rx_tail so = (rx_head so + rx_count so) mod SOCKET_RX_QUEUE"

definition rx_list :: "socket \<Rightarrow> sock_dgram list" where
  "rx_list so = ring_list (so_rxq so) (rx_head so) (rx_count so)"

interpretation sq: bounded_fifo rxq_put rxq_get rx_list "\<lambda>_. SOCKET_RX_QUEUE" rx_inv
proof
  fix so :: socket and d :: sock_dgram
  assume inv: "rx_inv so"
  show "length (rx_list so) \<le> SOCKET_RX_QUEUE"
    using inv by (simp add: rx_inv_def rx_list_def)
  show "rxq_put so d = None" if "length (rx_list so) = SOCKET_RX_QUEUE"
    using that by (simp add: rxq_put_def rx_list_def)
  show "\<exists>so'. rxq_put so d = Some so' \<and> rx_inv so' \<and> rx_list so' = rx_list so @ [d] \<and> SOCKET_RX_QUEUE = SOCKET_RX_QUEUE"
    if "length (rx_list so) < SOCKET_RX_QUEUE"
    using that inv ring_list_put [of "rx_count so" "so_rxq so" "rx_head so" d]
    by (simp add: rxq_put_def rx_list_def rx_inv_def mod_simps)
  show "rxq_get so = None" if "rx_list so = []"
    using arg_cong [OF that, of length] by (simp add: rxq_get_def rx_list_def)
  show "\<exists>so'. rxq_get so = Some (x, so') \<and> rx_inv so' \<and> rx_list so' = xs \<and> SOCKET_RX_QUEUE = SOCKET_RX_QUEUE"
    if xs: "rx_list so = x # xs" for x xs
  proof -
    obtain n where n: "rx_count so = Suc n"
      using arg_cong [OF xs, of length] by (auto simp: rx_list_def)
    have "x = so_rxq so ! rx_head so" "xs = ring_list (so_rxq so) (Suc (rx_head so) mod SOCKET_RX_QUEUE) n"
      using xs inv ring_list_get [of "rx_head so" "so_rxq so" n] by (simp_all add: rx_list_def n rx_inv_def)
    then show ?thesis
      using inv n by (simp add: rxq_get_def rx_list_def rx_inv_def mod_simps SOCKET_RX_QUEUE_def)
  qed
qed

subsection \<open>A datagram over the loopback device\<close>

lemma udp_header_length: "length (udp_header sp dp n c) = UDP_HDR_LEN"
  by (simp add: udp_header_def UDP_HDR_LEN_def field_simps_wire)

lemma udp_header_fields:
  "net_get_be16 (udp_header sp dp n c @ r) = sp" "net_get_be16 (drop 2 (udp_header sp dp n c @ r)) = dp"
  "net_get_be16 (drop 4 (udp_header sp dp n c @ r)) = n" "drop UDP_HDR_LEN (udp_header sp dp n c @ r) = r"
  by (simp_all add: udp_header_def field_simps_wire UDP_HDR_LEN_def)

text \<open>The checksum a datagram is sent with verifies at the receiver, also when it is sent as 0xFFFF.\<close>

lemma udp_checksum_ok:
  assumes len: "UDP_HDR_LEN + length body < 65536" and n_def: "n = (of_nat (UDP_HDR_LEN + length body) :: u16)"
    and c_def: "c = net_transport_checksum src dst proto (udp_header sp dp n 0 @ body) n"
  shows "net_transport_checksum src dst proto (udp_header sp dp n (if c = 0 then 0xFFFF else c) @ body) n = 0"
proof -
  define pre where "pre = net_put_be16 sp @ net_put_be16 dp @ net_put_be16 n"
  have h: "udp_header sp dp n x @ body = pre @ host_put16 x @ body" for x
    by (simp add: udp_header_def pre_def)
  have z: "host_put16 0 = [0, 0]"
    by (simp add: host_put16_def)
  have pl: "length pre = 6"
    by (simp add: pre_def field_simps_wire)
  have even: "even (length pre)" and lt: "length pre + 2 + length body < 65536"
    and nn: "of_nat (length pre + 2 + length body) = n"
    using len by (simp_all add: pl n_def UDP_HDR_LEN_def)
  show ?thesis
  proof (cases "c = 0")
    case True
    have "net_transport_checksum src dst proto (pre @ [0, 0] @ body) n = 0"
      using True by (simp add: c_def h z)
    then show ?thesis
      using transport_ffff_verifies [OF even lt, of src dst proto] True unfolding nn h by simp
  next
    case False
    then show ?thesis
      using transport_store_verifies [OF even lt, of src dst proto] unfolding nn h c_def z by simp
  qed
qed

lemma csum_source_lo:
  assumes "lo_ready dst s"
  shows "csum_source src dst s = (if ip_is_zero src then nif_ip (netif_obj s LOOPBACK) else src)"
  using assms by (auto simp: csum_source_def lo_ready_def)

lemma udp_input_accepts:
  assumes wf: "netbuf_wf nb" and n: "n = (of_nat (UDP_HDR_LEN + length body) :: u16)" and len: "UDP_HDR_LEN + length body < 65536"
    and b: "nb_bytes nb = udp_header sp dp n c @ body"
    and ok: "net_transport_checksum (be src) (be dst) IP_PROTO_UDP (nb_bytes nb) n = 0"
    and find: "udp_find dst dp s = Some i" "ub_recv (g_bindings s ! i) = Some f"
  shows "udp_input call nb src dst s = call \<lparr> uc_recv = f, uc_ctx = ub_ctx (g_bindings s ! i), uc_src = src, uc_src_port = sp,
     uc_dst = dst, uc_dst_port = dp, uc_data = body \<rparr> (s\<lparr>g_datagrams_received := g_datagrams_received s + 1\<rparr>)"
proof -
  obtain r where at: "nb_at nb = udp_header sp dp n c @ (body @ r)"
    using nb_bytes_at [OF wf, of "udp_header sp dp n c" body] b by auto
  note f = udp_header_fields [of sp dp n c "body @ r", folded at]
  have u: "unat n = UDP_HDR_LEN + length body"
    using len unfolding n by (intro unat_of_nat_no_wrap) simp
  have nl: "netbuf_len nb = UDP_HDR_LEN + length body"
    using wf_sizes(1,4) [OF wf] b by (simp add: udp_header_length)
  have ok': "net_transport_checksum (be src) (be dst) IP_PROTO_UDP (nb_at nb) n = 0"
    using ok unfolding net_transport_checksum_def u by (simp add: b at udp_header_length)
  have "n - of_nat UDP_HDR_LEN = of_nat (length body)"
    by (simp add: n)
  then have pl: "unat (n - of_nat UDP_HDR_LEN) = length body"
    using len by (simp add: UDP_HDR_LEN_def)
  have "udp_find dst dp (s\<lparr>g_datagrams_received := x\<rparr>) = udp_find dst dp s" for x
    by (simp add: udp_find_def)
  then show ?thesis
    unfolding udp_input_def Let_def f nl u ok' pl using find by simp
qed

lemma udp_output_builds:
  fixes s :: "'a netsock_scheme"
  assumes ready: "lo_ready dst s" and body: "body_ok data len" and lt: "UDP_HDR_LEN + length (body_bytes data len) < 65536"
    and n_def: "n = of_nat UDP_HDR_LEN + len" and n: "n = of_nat (UDP_HDR_LEN + length (body_bytes data len))"
    and sa_def: "sa = s\<lparr>kmem_calls := kmem_calls s + 2, nb_live := nb_live s + 1\<rparr>"
    and src'_def: "src' = (if ip_is_zero src then nif_ip (netif_obj s LOOPBACK) else src)"
  obtains nb1 c' where "\<And>tx. udp_output tx src sp dst dp data len s = ipv4_output tx nb1 src dst IP_PROTO_UDP 64 sa"
    and "netbuf_wf nb1" and "nb_data nb1 = NETBUF_DEFAULT_HEADROOM" and "nb_bytes nb1 = udp_header sp dp n c' @ body_bytes data len"
    and "net_transport_checksum (be src') (be dst) IP_PROTO_UDP (nb_bytes nb1) n = 0"
proof -
  let ?b = "body_bytes data len"
  have g: "granted s" and hl: "length (udp_header sp dp n 0) < 65536"
    using ready by (simp_all add: lo_ready_def udp_header_length UDP_HDR_LEN_def)
  obtain nb where bu: "build_message (udp_header sp dp n 0) data len s = (Some (NETBUF_DEFAULT_HEADROOM, nb), sa)"
    and w: "netbuf_wf nb" "nb_data nb = NETBUF_DEFAULT_HEADROOM" and bts: "nb_bytes nb = udp_header sp dp n 0 @ ?b"
    using build_message_spec [OF g body hl] unfolding sa_def by blast
  have cong: "lo_ready x sa = lo_ready x s" for x
    by (rule lo_ready_cong) (simp_all add: sa_def)
  have ra: "lo_ready dst sa"
    using ready cong by simp
  have cs: "csum_source src dst sa = src'"
    using csum_source_lo [OF ra, of src] by (simp add: src'_def sa_def)
  define c where "c = net_transport_checksum (be src') (be dst) IP_PROTO_UDP (udp_header sp dp n 0 @ ?b) n"
  have u: "unat n = UDP_HDR_LEN + length ?b"
    using lt unfolding n by (intro unat_of_nat_no_wrap) simp
  have at: "net_transport_checksum (be src') (be dst) IP_PROTO_UDP (nb_at nb) n = c"
  proof -
    obtain r where "nb_at nb = udp_header sp dp n 0 @ ?b @ r"
      using nb_bytes_at [OF w(1) bts] by blast
    then show ?thesis
      by (simp add: net_transport_checksum_def c_def u udp_header_length)
  qed
  define c' where "c' = (if c = 0 then 0xFFFF else c)"
  define nb1 where "nb1 = nb_write (nb_data nb + 6) (host_put16 c') nb"
  have long: "6 + length (host_put16 c') \<le> length (nb_bytes nb)"
    by (simp add: bts udp_header_length UDP_HDR_LEN_def field_simps_wire)
  have b1: "nb_bytes nb1 = udp_header sp dp n c' @ ?b"
    using nb_write_patch(1) [OF w(1) long] unfolding nb1_def bts by (simp add: udp_header_def field_simps_wire)
  have w1: "netbuf_wf nb1" "nb_data nb1 = NETBUF_DEFAULT_HEADROOM"
    using nb_write_patch(2) [OF w(1) long] w(2) by (simp_all add: nb1_def)
  have out: "udp_output tx src sp dst dp data len s = ipv4_output tx nb1 src dst IP_PROTO_UDP 64 sa" for tx
    unfolding udp_output_def Let_def n_def [symmetric] bu prod.case option.case cs at
    by (simp add: nb1_def c'_def w(2))
  have ok: "net_transport_checksum (be src') (be dst) IP_PROTO_UDP (nb_bytes nb1) n = 0"
    unfolding b1 c'_def by (rule udp_checksum_ok [OF lt n c_def])
  show ?thesis
    using that out w1 b1 ok by blast
qed

lemma datagram_arrives:
  fixes s :: "'a netsock_scheme"
  assumes ready: "lo_ready dst s" and body: "body_ok data len" and small: "unat len < 65508"
    and find: "udp_find dst dp s = Some i" "ub_recv (g_bindings s ! i) = Some rcv"
  obtains f nb s2 where
    "udp_output (stack_tx drv call (Suc depth)) src sp dst dp data len s = (0, upd_stats LOOPBACK f (netbuf_free (Some nb)
       (call \<lparr> uc_recv = rcv, uc_ctx = ub_ctx (g_bindings s ! i),
          uc_src = (if ip_is_zero src then nif_ip (netif_obj s LOOPBACK) else src), uc_src_port = sp,
          uc_dst = dst, uc_dst_port = dp, uc_data = body_bytes data len \<rparr> s2)))"
    and "g_sockets s2 = g_sockets s"
proof -
  let ?b = "body_bytes data len"
  let ?src = "if ip_is_zero src then nif_ip (netif_obj s LOOPBACK) else src"
  have bl: "length ?b = unat len"
    using body by (rule body_bytes_length)
  define n where "n = of_nat UDP_HDR_LEN + len"
  have n: "n = of_nat (UDP_HDR_LEN + length ?b)"
    by (simp add: n_def bl)
  have lt: "UDP_HDR_LEN + length ?b < 65536"
    using small by (simp add: bl UDP_HDR_LEN_def)
  define sa where "sa = s\<lparr>kmem_calls := kmem_calls s + 2, nb_live := nb_live s + 1\<rparr>"
  obtain nb1 c' where out: "\<And>tx. udp_output tx src sp dst dp data len s = ipv4_output tx nb1 src dst IP_PROTO_UDP 64 sa"
    and w1: "netbuf_wf nb1" "nb_data nb1 = NETBUF_DEFAULT_HEADROOM" and b1: "nb_bytes nb1 = udp_header sp dp n c' @ ?b"
    and ok: "net_transport_checksum (be ?src) (be dst) IP_PROTO_UDP (nb_bytes nb1) n = 0"
    using udp_output_builds [OF ready body lt n_def n sa_def refl, of src sp dp] by metis
  have ra: "lo_ready dst sa"
    using ready lo_ready_cong [of sa s] by (simp add: sa_def)
  have sm: "IPV4_HDR_LEN + length (nb_bytes nb1) < 65536"
    using small by (simp add: b1 udp_header_length bl IPV4_HDR_LEN_def UDP_HDR_LEN_def)
  have lo: "nif_ip (netif_obj sa LOOPBACK) = nif_ip (netif_obj s LOOPBACK)"
    by (simp add: sa_def)
  obtain nb' f g1 where w': "netbuf_wf nb'" "nb_bytes nb' = nb_bytes nb1"
    and o: "ipv4_output (stack_tx drv call (Suc depth)) nb1 src dst IP_PROTO_UDP 64 sa =
      (0, upd_stats LOOPBACK f (netbuf_free (Some nb')
        (ipv4_dispatch (stack_tx drv call depth) call LOOPBACK IP_PROTO_UDP nb' ?src dst
          (upd_stats LOOPBACK g1
            (sa\<lparr>g_ip_id := g_ip_id sa + 1, kmem_calls := kmem_calls sa + 2, nb_live := nb_live sa + 1\<rparr>)))))"
    using loopback_delivers [OF ra w1 sm, where src = src and drv = drv and call = call
        and depth = depth and proto = IP_PROTO_UDP and ttl = 64, unfolded lo] by blast
  define s2 where "s2 = upd_stats LOOPBACK g1
     (sa\<lparr>g_ip_id := g_ip_id sa + 1, kmem_calls := kmem_calls sa + 2, nb_live := nb_live sa + 1\<rparr>)"
  have keep: "g_bindings s2 = g_bindings s" "g_sockets s2 = g_sockets s"
    by (simp_all add: s2_def sa_def upd_stats_def upd_nif_def)
  have f2: "udp_find dst dp s2 = Some i" "ub_recv (g_bindings s2 ! i) = Some rcv"
    using find by (simp_all add: udp_find_def keep)
  have udp: "ipv4_dispatch tx call LOOPBACK IP_PROTO_UDP nb' ?src dst s2 = udp_input call nb' ?src dst s2" for tx
    by (simp add: ipv4_dispatch_def IP_PROTO_ICMP_def IP_PROTO_UDP_def)
  have inp: "udp_input call nb' ?src dst s2 = call \<lparr> uc_recv = rcv, uc_ctx = ub_ctx (g_bindings s ! i), uc_src = ?src,
     uc_src_port = sp, uc_dst = dst, uc_dst_port = dp, uc_data = ?b \<rparr> (s2\<lparr>g_datagrams_received := g_datagrams_received s2 + 1\<rparr>)"
    using udp_input_accepts [OF w'(1) n lt _ _ f2, of sp c' ?src call] b1 ok w'(2) by (simp only: keep)
  show ?thesis
  proof (rule that [of f nb' "s2\<lparr>g_datagrams_received := g_datagrams_received s2 + 1\<rparr>"])
    show "udp_output (stack_tx drv call (Suc depth)) src sp dst dp data len s = (0, upd_stats LOOPBACK f (netbuf_free (Some nb')
       (call \<lparr> uc_recv = rcv, uc_ctx = ub_ctx (g_bindings s ! i), uc_src = ?src, uc_src_port = sp,
          uc_dst = dst, uc_dst_port = dp, uc_data = ?b \<rparr> (s2\<lparr>g_datagrams_received := g_datagrams_received s2 + 1\<rparr>))))"
      unfolding out o s2_def [symmetric] udp inp ..
    show "g_sockets (s2\<lparr>g_datagrams_received := g_datagrams_received s2 + 1\<rparr>) = g_sockets s"
      using keep(2) by simp
  qed
qed

lemma upd_stats_sockets [simp]: "g_sockets (upd_stats i f s) = g_sockets s"
  by (simp add: upd_stats_def upd_nif_def)

lemma netbuf_free_sockets [simp]: "g_sockets (netbuf_free nb s) = g_sockets s"
  by (simp add: netbuf_free_def split: option.split)

lemma sock_call_stores:
  assumes so: "so = g_sockets s ! b" "so_in_use so" "so_type so = SOCK_DGRAM" "rx_inv so" "rx_count so < SOCKET_RX_QUEUE"
    and b: "b < length (g_sockets s)" and c: "uc_recv c = SOCK_UDP_RECV" "uc_ctx c = b"
  shows "\<exists>so'. g_sockets (sock_call c s) = (g_sockets s)[b := so'] \<and> rx_inv so'
     \<and> rx_list so' = rx_list so @ [\<lparr> dg_src = uc_src c, dg_src_port = uc_src_port c, dg_data = take SOCKET_RX_PAYLOAD (uc_data c) \<rparr>]
     \<and> so_in_use so' \<and> so_type so' = SOCK_DGRAM"
proof -
  let ?d = "\<lparr> dg_src = uc_src c, dg_src_port = uc_src_port c, dg_data = take SOCKET_RX_PAYLOAD (uc_data c) \<rparr>"
  have "length (rx_list so) < SOCKET_RX_QUEUE"
    using so(5) by (simp add: rx_list_def)
  then obtain so' where p: "rxq_put so ?d = Some so'" and i: "rx_inv so'" "rx_list so' = rx_list so @ [?d]"
    using sq.put_ok [OF so(4)] by blast
  have "so_in_use so'" "so_type so' = SOCK_DGRAM"
    using p so(2,3) by (auto simp: rxq_put_def split: if_splits)
  moreover have "g_sockets (sock_call c s) = (g_sockets s)[b := so']"
    using p so c by (simp add: sock_call_def sock_udp_recv_def Let_def upd_sock_def)
  ultimately show ?thesis
    using i by blast
qed

text \<open>
  C4. A datagram sent to a bound socket over the loopback device is delivered.  When the destination resolves to
  a socket with room in its queue, \<open>sock_sendto\<close> returns the length, appends exactly the datagram with the sender's
  address and port to that socket's queue and changes no other socket; from an empty queue
  \<open>sock_recvfrom\<close> then returns these bytes, cut to the capacity of the caller's buffer, and the sender.
\<close>

theorem datagram_delivered:
  fixes s :: "'a netsock_scheme"
  assumes ready: "lo_ready dst s" and dst: "\<not> ip_is_zero dst" and n: "length (g_sockets s) = SOCKET_MAX"
    and snd: "sock_get sa s = Some a" "so_type (g_sockets s ! a) = SOCK_DGRAM" "so_bound (g_sockets s ! a)"
    and buf: "unat len \<le> length buf" "unat len \<le> SOCKET_RX_PAYLOAD"
    and rcv: "sock_get sb s = Some b" "so_type (g_sockets s ! b) = SOCK_DGRAM" "rx_inv (g_sockets s ! b)"
      "rx_count (g_sockets s ! b) < SOCKET_RX_QUEUE"
    and find: "udp_find dst dport s = Some i" "ub_recv (g_bindings s ! i) = Some SOCK_UDP_RECV" "ub_ctx (g_bindings s ! i) = b"
  shows "let so = g_sockets s ! a;
             src = (if ip_is_zero (so_local_ip so) then nif_ip (netif_obj s LOOPBACK) else so_local_ip so);
             d = \<lparr> dg_src = src, dg_src_port = so_local_port so, dg_data = take (unat len) buf \<rparr>;
             (rc, s') = sock_sendto (stack_tx drv sock_call (Suc depth)) sa (Some buf) len dst dport s;
             k = min (unat len) (unat cap)
         in rc = int (unat len) \<and> rx_inv (g_sockets s' ! b)
            \<and> rx_list (g_sockets s' ! b) = rx_list (g_sockets s ! b) @ [d]
            \<and> (\<forall>j. j \<noteq> b \<longrightarrow> g_sockets s' ! j = g_sockets s ! j)
            \<and> (rx_list (g_sockets s ! b) = [] \<longrightarrow>
                fst (sock_recvfrom sb cap s') = int k
                \<and> fst (snd (sock_recvfrom sb cap s')) = Some (take k buf, src, so_local_port so))"
proof -
  let ?so = "g_sockets s ! a" and ?q = "g_sockets s ! b"
  define src where "src = (if ip_is_zero (so_local_ip ?so) then nif_ip (netif_obj s LOOPBACK) else so_local_ip ?so)"
  define d where "d = \<lparr> dg_src = src, dg_src_port = so_local_port ?so, dg_data = take (unat len) buf \<rparr>"
  have bl: "b < length (g_sockets s)" "so_in_use ?q"
    using rcv(1) n by (auto simp: sock_get_def split: if_splits)
  have ok: "body_ok (Some buf) len" and sm: "unat len < 65508" and bb: "body_bytes (Some buf) len = take (unat len) buf"
    using buf by (simp_all add: body_ok_def body_bytes_def SOCKET_RX_PAYLOAD_def)
  let ?c = "\<lparr> uc_recv = SOCK_UDP_RECV, uc_ctx = b, uc_src = src, uc_src_port = so_local_port ?so,
       uc_dst = dst, uc_dst_port = dport, uc_data = take (unat len) buf \<rparr>"
  obtain f nb s2 where out: "udp_output (stack_tx drv sock_call (Suc depth)) (so_local_ip ?so) (so_local_port ?so) dst dport
       (Some buf) len s = (0, upd_stats LOOPBACK f (netbuf_free (Some nb) (sock_call ?c s2)))"
    and s2: "g_sockets s2 = g_sockets s"
    using datagram_arrives [OF ready ok sm find(1,2), of drv sock_call depth "so_local_ip ?so" "so_local_port ?so"]
    unfolding find(3) bb src_def by metis
  define s' where "s' = upd_stats LOOPBACK f (netbuf_free (Some nb) (sock_call ?c s2))"
  obtain so' where so': "g_sockets (sock_call ?c s2) = (g_sockets s2)[b := so']" "rx_inv so'" "rx_list so' = rx_list ?q @ [d]"
    "so_in_use so'" "so_type so' = SOCK_DGRAM"
    using sock_call_stores [of ?q s2 b ?c] rcv bl buf(2) by (auto simp: s2 d_def)
  have g': "g_sockets s' = (g_sockets s)[b := so']"
    by (simp add: s'_def so' s2)
  have send: "sock_sendto (stack_tx drv sock_call (Suc depth)) sa (Some buf) len dst dport s = (int (unat len), s')"
    using dst by (simp add: sock_sendto_def snd out s'_def Let_def)
  have get: "sock_get sb s' = Some b"
    using rcv(1) bl so'(4) by (auto simp: sock_get_def g' split: if_splits)
  have recv: "fst (sock_recvfrom sb cap s') = int (min (unat len) (unat cap))
      \<and> fst (snd (sock_recvfrom sb cap s')) = Some (take (min (unat len) (unat cap)) buf, src, so_local_port ?so)"
    if empty: "rx_list ?q = []"
  proof -
    obtain so2 where "rxq_get so' = Some (d, so2)"
      using sq.get_ok [OF so'(2), of d "[]"] so'(3) empty by auto
    then show ?thesis
      using bl so'(5) buf(1) by (simp add: sock_recvfrom_def get g' d_def Let_def min.commute min.left_commute)
  qed
  show ?thesis
    unfolding Let_def send prod.case src_def [symmetric] d_def [symmetric]
    using recv so' bl by (simp add: g')
qed

text \<open>A machine with a sending socket and a socket bound to port 7.\<close>

definition sample_socks :: netsock where
  "sample_socks = (net_init (\<lambda>t. (None, t)) (undefined\<lparr>kmem_grant := \<lambda>n. Some (\<lambda>a. 0),
     g_routes := replicate IP_ROUTE_MAX \<lparr> rt_dest = IP_ADDR_ANY, rt_netmask = IP_ADDR_ANY,
        rt_gateway = IP_ADDR_ANY, rt_nif = 0, rt_valid = False, rt_prefix_len = 0 \<rparr>\<rparr>))
     \<lparr>g_bindings := \<lparr> ub_in_use = True, ub_ip = IP_ADDR_ANY, ub_port = 7, ub_recv = Some SOCK_UDP_RECV, ub_ctx = 1 \<rparr>
        # replicate 15 \<lparr> ub_in_use = False, ub_ip = IP_ADDR_ANY, ub_port = 0, ub_recv = None, ub_ctx = 0 \<rparr>,
      g_sockets := zero_socket\<lparr>so_in_use := True, so_type := SOCK_DGRAM, so_bound := True, so_local_port := 50000\<rparr>
        # zero_socket\<lparr>so_in_use := True, so_type := SOCK_DGRAM, so_bound := True, so_local_port := 7\<rparr>
        # replicate 14 zero_socket\<rparr>"

lemma sample_socks_ready: "lo_ready IP_ADDR_LOOPBACK sample_socks"
proof -
  let ?s = "(undefined :: netsock)\<lparr>kmem_grant := \<lambda>n. Some (\<lambda>a. 0),
     g_routes := replicate IP_ROUTE_MAX \<lparr> rt_dest = IP_ADDR_ANY, rt_netmask = IP_ADDR_ANY,
        rt_gateway = IP_ADDR_ANY, rt_nif = 0, rt_valid = False, rt_prefix_len = 0 \<rparr>\<rparr>"
  have g: "granted ?s" and len: "length (g_routes ?s) = IP_ROUTE_MAX"
    by (simp_all add: granted_def)
  have m: "be IP_ADDR_LOOPBACK AND be (ip_make 255 0 0 0) = be (ip_make 127 0 0 0) AND be (ip_make 255 0 0 0)"
    by (simp add: ip_loopback_make ip_make_def push_bit_eq_mult)
  have "lo_ready IP_ADDR_LOOPBACK sample_socks = lo_ready IP_ADDR_LOOPBACK (net_init (\<lambda>t. (None, t)) ?s)"
    unfolding sample_socks_def by (rule lo_ready_cong) simp_all
  then show ?thesis
    using net_init_lo_ready(1) [OF g len m] by simp
qed

lemma sample_socks_find:
  "udp_find IP_ADDR_LOOPBACK 7 sample_socks = Some 0"
proof -
  have "upt 0 UDP_BIND_MAX = 0 # upt 1 16"
    by (simp add: UDP_BIND_MAX_def upt_rec)
  moreover have "udp_find_loop (b # replicate 15 u) ip port js w = w" if "\<not> ub_in_use u" "set js \<subseteq> {1..<16}" for b u ip port js w
    using that by (induction js arbitrary: w) (auto simp: nth_Cons')
  ultimately show ?thesis
    by (simp add: udp_find_def sample_socks_def ip_is_zero_def del: upt_rec_numeral)
qed

theorem datagram_delivered_witness:
  "fst (sock_recvfrom 1 100 (snd (sock_sendto (stack_tx (\<lambda>i nb s. (- 1, s)) sock_call (Suc 0)) 0 (Some [1, 2, 3]) 3
     IP_ADDR_LOOPBACK 7 sample_socks))) = 3"
proof -
  have n: "length (g_sockets sample_socks) = SOCKET_MAX"
    by (simp add: sample_socks_def SOCKET_MAX_def)
  have a: "sock_get 0 sample_socks = Some 0" "so_type (g_sockets sample_socks ! 0) = SOCK_DGRAM"
    "so_bound (g_sockets sample_socks ! 0)"
    by (simp_all add: sample_socks_def sock_get_def SOCKET_MAX_def)
  have l: "unat (3 :: u16) \<le> length [1 :: u8, 2, 3]" "unat (3 :: u16) \<le> SOCKET_RX_PAYLOAD"
    by (simp_all add: SOCKET_RX_PAYLOAD_def)
  have b: "sock_get 1 sample_socks = Some 1" "so_type (g_sockets sample_socks ! 1) = SOCK_DGRAM"
    "rx_inv (g_sockets sample_socks ! 1)" "rx_count (g_sockets sample_socks ! 1) < SOCKET_RX_QUEUE"
    by (simp_all add: sample_socks_def sock_get_def SOCKET_MAX_def rx_inv_def zero_socket_def SOCKET_RX_QUEUE_def)
  have f: "ub_recv (g_bindings sample_socks ! 0) = Some SOCK_UDP_RECV" "ub_ctx (g_bindings sample_socks ! 0) = 1"
    by (simp_all add: sample_socks_def)
  have e: "rx_list (g_sockets sample_socks ! 1) = []"
    by (simp add: sample_socks_def rx_list_def zero_socket_def)
  note d = datagram_delivered [OF sample_socks_ready loopback_not_zero n a l b sample_socks_find f,
      of "\<lambda>i nb s. (- 1, s)" 0 100, unfolded Let_def split_beta e]
  show ?thesis
    using d by simp
qed

end
