(* ===== verification/Sched.thy ===== *)
theory Sched
  imports Prelude
begin

text \<open>
  The scheduler (\<open>kernel/sched/scheduler.c\<close>), tick-based sleeping (\<open>kernel/sched/sleep.c\<close>), the
  exit of a thread (\<open>kernel/sched/thread.c\<close>) and the timer interrupt that drives them
  (\<open>kernel/arch/x86_64/timer.c\<close>, \<open>irq_dispatch\<close>).

  A thread is named by a number, and \<open>threads\<close> maps it to its structure; the ready queue and the
  sleep list are the singly linked lists of the source through \<open>th_next\<close>.  Every function here runs
  with interrupts disabled.  \<open>context_switch\<close> saves and restores registers and stacks, which are
  not part of the state: after \<open>schedule\<close> the machine continues in \<open>g_current\<close>, and the code that
  follows the call in the previous thread runs when that thread is current again.
\<close>

datatype thread_state =
  THREAD_NEW | THREAD_READY | THREAD_RUNNING | THREAD_SLEEPING | THREAD_BLOCKED | THREAD_DEAD

record thread =
  th_state :: thread_state
  wake_tick :: u64
  th_cr3 :: u64
  th_next :: "nat option"

record sched =
  threads :: "nat \<Rightarrow> thread"
  g_ready_head :: "nat option"
  g_ready_tail :: "nat option"
  g_current :: nat
  g_idle :: nat
  g_started :: bool
  g_need_resched :: bool
  g_slice :: u32
  g_switch_count :: u64
  g_preempt_count :: u64
  g_kernel_cr3 :: u64
  cpu_cr3 :: u64
  tss_rsp0 :: nat
  g_sleep_head :: "nat option"
  g_wakeup_count :: u64
  g_ticks :: u64

definition SCHEDULER_TIME_SLICE_TICKS :: u32 where "SCHEDULER_TIME_SLICE_TICKS = 5"
definition KERNEL_TIMER_HZ :: u64 where "KERNEL_TIMER_HZ = 100"

definition upd_thread :: "nat \<Rightarrow> (thread \<Rightarrow> thread) \<Rightarrow> 'a sched_scheme \<Rightarrow> 'a sched_scheme" where
  "upd_thread t f s = s\<lparr>threads := (threads s)(t := f (threads s t))\<rparr>"

definition thread_cr3 :: "nat \<Rightarrow> 'a sched_scheme \<Rightarrow> u64" where
  "thread_cr3 t s = (if th_cr3 (threads s t) \<noteq> 0 then th_cr3 (threads s t) else g_kernel_cr3 s)"

definition ready_dequeue :: "'a sched_scheme \<Rightarrow> nat option \<times> 'a sched_scheme" where
  "ready_dequeue s =
     (case g_ready_head s of
        None \<Rightarrow> (None, s)
      | Some t \<Rightarrow>
          let s = s\<lparr>g_ready_head := th_next (threads s t)\<rparr>;
              s = (if g_ready_head s = None then s\<lparr>g_ready_tail := None\<rparr> else s)
          in (Some t, upd_thread t (\<lambda>th. th\<lparr>th_next := None\<rparr>) s))"

definition scheduler_make_ready :: "nat \<Rightarrow> 'a sched_scheme \<Rightarrow> 'a sched_scheme" where
  "scheduler_make_ready t s =
     (let s = upd_thread t (\<lambda>th. th\<lparr>th_state := THREAD_READY, th_next := None\<rparr>) s;
          s = (case g_ready_tail s of
                 Some l \<Rightarrow> upd_thread l (\<lambda>th. th\<lparr>th_next := Some t\<rparr>) s
               | None \<Rightarrow> s\<lparr>g_ready_head := Some t\<rparr>)
      in s\<lparr>g_ready_tail := Some t\<rparr>)"

text \<open>The second half of \<open>schedule\<close>, once the next thread is chosen.\<close>

definition switch_to :: "nat \<Rightarrow> 'a sched_scheme \<Rightarrow> 'a sched_scheme" where
  "switch_to nxt s =
     (let prev = g_current s;
          s = (if th_state (threads s prev) = THREAD_RUNNING \<and> prev \<noteq> g_idle s
               then scheduler_make_ready prev s else s)
      in if nxt = prev
         then upd_thread prev (\<lambda>th. th\<lparr>th_state := THREAD_RUNNING\<rparr>) s\<lparr>g_slice := SCHEDULER_TIME_SLICE_TICKS\<rparr>
         else let s = s\<lparr>g_current := nxt\<rparr>;
                  s = upd_thread nxt (\<lambda>th. th\<lparr>th_state := THREAD_RUNNING\<rparr>) s;
                  s = s\<lparr>g_slice := SCHEDULER_TIME_SLICE_TICKS, g_switch_count := g_switch_count s + 1, tss_rsp0 := nxt\<rparr>
              in if thread_cr3 nxt s \<noteq> thread_cr3 prev s then s\<lparr>cpu_cr3 := thread_cr3 nxt s\<rparr> else s)"

definition schedule :: "'a sched_scheme \<Rightarrow> 'a sched_scheme" where
  "schedule s =
     (case ready_dequeue s of
        (None, s) \<Rightarrow>
          if th_state (threads s (g_current s)) = THREAD_RUNNING
          then s\<lparr>g_slice := SCHEDULER_TIME_SLICE_TICKS\<rparr>
          else switch_to (g_idle s) s
      | (Some nxt, s) \<Rightarrow> switch_to nxt s)"

definition scheduler_start :: "'a sched_scheme \<Rightarrow> 'a sched_scheme" where
  "scheduler_start s =
     schedule (upd_thread (g_current s) (\<lambda>th. th\<lparr>th_state := THREAD_DEAD\<rparr>) (s\<lparr>g_started := True\<rparr>))"

definition scheduler_yield :: "'a sched_scheme \<Rightarrow> 'a sched_scheme" where
  "scheduler_yield s = schedule s"

definition thread_exit :: "'a sched_scheme \<Rightarrow> 'a sched_scheme" where
  "thread_exit s = schedule (upd_thread (g_current s) (\<lambda>th. th\<lparr>th_state := THREAD_DEAD\<rparr>) s)"

definition thread_sleep_ticks :: "u64 \<Rightarrow> 'a sched_scheme \<Rightarrow> 'a sched_scheme" where
  "thread_sleep_ticks ticks s =
     (if ticks = 0 then scheduler_yield s
      else let t = g_current s;
               s = upd_thread t (\<lambda>th. th\<lparr>wake_tick := g_ticks s + ticks, th_state := THREAD_SLEEPING,
                                        th_next := g_sleep_head s\<rparr>) s
           in schedule (s\<lparr>g_sleep_head := Some t\<rparr>))"

definition thread_sleep_ms :: "u64 \<Rightarrow> 'a sched_scheme \<Rightarrow> 'a sched_scheme" where
  "thread_sleep_ms milliseconds s =
     (let ticks = (milliseconds * KERNEL_TIMER_HZ + 999) div 1000
      in thread_sleep_ticks (if ticks = 0 then 1 else ticks) s)"

text \<open>\<open>pp\<close> is the address of a link: of the list head, or of the \<open>next\<close> field of a thread.\<close>

definition link_get :: "nat option \<Rightarrow> 'a sched_scheme \<Rightarrow> nat option" where
  "link_get pp s = (case pp of None \<Rightarrow> g_sleep_head s | Some p \<Rightarrow> th_next (threads s p))"

definition link_set :: "nat option \<Rightarrow> nat option \<Rightarrow> 'a sched_scheme \<Rightarrow> 'a sched_scheme" where
  "link_set pp v s =
     (case pp of None \<Rightarrow> s\<lparr>g_sleep_head := v\<rparr> | Some p \<Rightarrow> upd_thread p (\<lambda>th. th\<lparr>th_next := v\<rparr>) s)"

partial_function (option) sweep :: "u64 \<Rightarrow> nat option \<Rightarrow> 'a sched_scheme \<Rightarrow> 'a sched_scheme option" where
  "sweep current_tick pp s =
     (case link_get pp s of
        None \<Rightarrow> Some s
      | Some t \<Rightarrow>
          if wake_tick (threads s t) \<le> current_tick
          then let s = link_set pp (th_next (threads s t)) s;
                   s = scheduler_make_ready t (upd_thread t (\<lambda>th. th\<lparr>th_next := None\<rparr>) s)
               in sweep current_tick pp (s\<lparr>g_wakeup_count := g_wakeup_count s + 1\<rparr>)
          else sweep current_tick (Some t) s)"

definition sleep_wakeup_expired :: "u64 \<Rightarrow> 'a sched_scheme \<Rightarrow> 'a sched_scheme option" where
  "sleep_wakeup_expired current_tick s = sweep current_tick None s"

definition scheduler_on_timer_tick :: "'a sched_scheme \<Rightarrow> 'a sched_scheme option" where
  "scheduler_on_timer_tick s =
     (if \<not> g_started s then Some s
      else (case sleep_wakeup_expired (g_ticks s) s of
              None \<Rightarrow> None
            | Some s \<Rightarrow>
                let s = (if 0 < g_slice s then s\<lparr>g_slice := g_slice s - 1\<rparr> else s)
                in Some (if g_slice s = 0 then s\<lparr>g_need_resched := True\<rparr> else s)))"

definition scheduler_irq_exit :: "'a sched_scheme \<Rightarrow> 'a sched_scheme" where
  "scheduler_irq_exit s =
     (if \<not> g_started s \<or> \<not> g_need_resched s then s
      else let s = s\<lparr>g_need_resched := False\<rparr>;
               s = (if g_ready_head s \<noteq> None then s\<lparr>g_preempt_count := g_preempt_count s + 1\<rparr> else s)
           in schedule s)"

text \<open>A timer interrupt: the handler counts the tick and calls the scheduler, which acts on the way out.\<close>

definition timer_interrupt :: "'a sched_scheme \<Rightarrow> 'a sched_scheme option" where
  "timer_interrupt s =
     map_option scheduler_irq_exit (scheduler_on_timer_tick (s\<lparr>g_ticks := g_ticks s + 1\<rparr>))"

subsection \<open>Linked lists of threads\<close>

primrec chain :: "(nat \<Rightarrow> thread) \<Rightarrow> nat option \<Rightarrow> nat list \<Rightarrow> bool" where
  "chain f h [] \<longleftrightarrow> h = None"
| "chain f h (x # xs) \<longleftrightarrow> h = Some x \<and> chain f (th_next (f x)) xs"

lemma chain_cong: "(\<And>x. x \<in> set xs \<Longrightarrow> th_next (f x) = th_next (g x)) \<Longrightarrow> chain f h xs = chain g h xs"
  by (induction xs arbitrary: h) simp_all

lemma chain_snoc:
  "\<lbrakk>chain f h xs; xs \<noteq> []; distinct xs; t \<notin> set xs; th_next (g t) = None;
    \<And>x. x \<in> set xs \<Longrightarrow> th_next (g x) = (if x = last xs then Some t else th_next (f x))\<rbrakk>
   \<Longrightarrow> chain g h (xs @ [t])"
proof (induction xs arbitrary: h)
  case (Cons x xs)
  show ?case
  proof (cases "xs = []")
    case True
    then show ?thesis using Cons.prems by simp
  next
    case False
    then have l: "last (x # xs) = last xs" "x \<noteq> last xs"
      using Cons.prems(3) by auto
    have n: "th_next (g x) = th_next (f x)"
      using Cons.prems(6) [of x] l by simp
    have "chain g (th_next (f x)) (xs @ [t])"
      using Cons.prems False l by (intro Cons.IH) auto
    then show ?thesis
      using Cons.prems(1) by (simp add: n)
  qed
qed simp

text \<open>
  The state of the scheduler with its two lists: the ready queue \<open>q\<close> and the sleep list \<open>sl\<close>.
\<close>

definition sched_wf :: "nat list \<Rightarrow> nat list \<Rightarrow> 'a sched_scheme \<Rightarrow> bool" where
  "sched_wf q sl s \<longleftrightarrow>
     chain (threads s) (g_ready_head s) q \<and> chain (threads s) (g_sleep_head s) sl
     \<and> g_ready_tail s = (if q = [] then None else Some (last q))
     \<and> distinct (q @ sl)
     \<and> (\<forall>t \<in> set q. th_state (threads s t) = THREAD_READY)
     \<and> (\<forall>t \<in> set sl. th_state (threads s t) = THREAD_SLEEPING)
     \<and> g_idle s \<notin> set q \<union> set sl"

lemma wfD:
  assumes "sched_wf q sl s"
  shows "chain (threads s) (g_ready_head s) q" "chain (threads s) (g_sleep_head s) sl"
    "g_ready_tail s = (if q = [] then None else Some (last q))" "distinct q" "distinct sl" "set q \<inter> set sl = {}"
    "\<And>t. t \<in> set q \<Longrightarrow> th_state (threads s t) = THREAD_READY"
    "\<And>t. t \<in> set sl \<Longrightarrow> th_state (threads s t) = THREAD_SLEEPING"
    "g_idle s \<notin> set q" "g_idle s \<notin> set sl"
  using assms by (auto simp: sched_wf_def)

lemma ready_dequeue_empty:
  assumes "sched_wf [] sl s"
  shows "ready_dequeue s = (None, s)"
  using assms by (simp add: sched_wf_def ready_dequeue_def)

lemma ready_dequeue_cons:
  assumes wf: "sched_wf (t # q) sl s"
  shows "\<exists>s'. ready_dequeue s = (Some t, s') \<and> sched_wf q sl s'
     \<and> s' = s\<lparr>threads := (threads s)(t := (threads s t)\<lparr>th_next := None\<rparr>), g_ready_head := g_ready_head s',
         g_ready_tail := g_ready_tail s'\<rparr>"
proof -
  define s' where "s' = snd (ready_dequeue s)"
  have h: "g_ready_head s = Some t" and c: "chain (threads s) (th_next (threads s t)) q"
    using wfD(1) [OF wf] by simp_all
  have nil: "th_next (threads s t) = None \<longleftrightarrow> q = []"
    using c by (cases q) auto
  have r: "ready_dequeue s = (Some t, s')"
    by (simp add: s'_def ready_dequeue_def h Let_def)
  have th: "threads s' = (threads s)(t := (threads s t)\<lparr>th_next := None\<rparr>)"
    and hd: "g_ready_head s' = th_next (threads s t)" and tl: "g_ready_tail s' = (if q = [] then None else Some (last q))"
    and rest: "g_sleep_head s' = g_sleep_head s" "g_idle s' = g_idle s"
    and eq: "s' = s\<lparr>threads := threads s', g_ready_head := g_ready_head s', g_ready_tail := g_ready_tail s'\<rparr>"
    using wfD(3) [OF wf] nil by (simp_all add: s'_def ready_dequeue_def h Let_def upd_thread_def)
  have d: "t \<notin> set q" "t \<notin> set sl"
    using wfD(4,6) [OF wf] by auto
  have "sched_wf q sl s'"
    unfolding sched_wf_def
  proof (intro conjI ballI)
    show "chain (threads s') (g_ready_head s') q"
      using c d(1) unfolding th hd by (subst chain_cong [where g = "threads s"]) auto
    show "chain (threads s') (g_sleep_head s') sl"
      using wfD(2) [OF wf] d(2) unfolding th rest by (subst chain_cong [where g = "threads s"]) auto
  qed (use wf d in \<open>auto simp: tl th rest sched_wf_def\<close>)
  then show ?thesis
    using r eq th by metis
qed

lemma make_ready_wf:
  assumes wf: "sched_wf q sl s" and t: "t \<notin> set q" "t \<notin> set sl" "t \<noteq> g_idle s"
  shows "sched_wf (q @ [t]) sl (scheduler_make_ready t s)"
proof -
  define s' where "s' = scheduler_make_ready t s"
  have rest: "g_sleep_head s' = g_sleep_head s" "g_idle s' = g_idle s" "g_ready_tail s' = Some t"
    by (simp_all add: s'_def scheduler_make_ready_def upd_thread_def Let_def split: option.split)
  have hd: "g_ready_head s' = (if q = [] then Some t else g_ready_head s)"
    using wfD(3) [OF wf] by (simp add: s'_def scheduler_make_ready_def upd_thread_def Let_def split: option.split)
  have st: "th_state (threads s' x) = (if x = t then THREAD_READY else th_state (threads s x))" for x
    using wfD(3) [OF wf] t(1) by (simp add: s'_def scheduler_make_ready_def upd_thread_def Let_def)
  have nx: "th_next (threads s' x) = (if x = t then None else if q \<noteq> [] \<and> x = last q then Some t else th_next (threads s x))" for x
    using wfD(3) [OF wf] t(1) last_in_set [of q]
    by (auto simp: s'_def scheduler_make_ready_def upd_thread_def Let_def)
  have q: "chain (threads s') (g_ready_head s') (q @ [t])"
  proof (cases "q = []")
    case True
    then show ?thesis by (simp add: hd nx)
  next
    case False
    have "chain (threads s') (g_ready_head s) (q @ [t])"
      using wfD(1,4) [OF wf] False t(1) by (intro chain_snoc [where f = "threads s"]) (auto simp: nx)
    then show ?thesis
      using False by (simp add: hd)
  qed
  have "chain (threads s') (g_sleep_head s') sl"
    using wfD(2) [OF wf] t(2) wfD(6) [OF wf] last_in_set [of q] unfolding rest
    by (subst chain_cong [where g = "threads s"]) (auto simp: nx disjoint_iff)
  then show ?thesis
    using q wf t by (auto simp: sched_wf_def rest st simp flip: s'_def)
qed

lemma make_ready_fields [simp]:
  "g_current (scheduler_make_ready t s) = g_current s" "g_idle (scheduler_make_ready t s) = g_idle s"
  "g_started (scheduler_make_ready t s) = g_started s" "g_need_resched (scheduler_make_ready t s) = g_need_resched s"
  "g_slice (scheduler_make_ready t s) = g_slice s" "g_ticks (scheduler_make_ready t s) = g_ticks s"
  "g_wakeup_count (scheduler_make_ready t s) = g_wakeup_count s"
  "wake_tick (threads (scheduler_make_ready t s) x) = wake_tick (threads s x)"
  "th_state (threads (scheduler_make_ready t s) x) = (if x = t then THREAD_READY else th_state (threads s x))"
  by (auto simp: scheduler_make_ready_def upd_thread_def Let_def split: option.split)

lemma sched_wf_upd:
  assumes "sched_wf q sl s" and "\<And>x. th_next (threads s' x) = th_next (threads s x)"
    and "\<And>x. x \<in> set q \<union> set sl \<Longrightarrow> th_state (threads s' x) = th_state (threads s x)"
    and "g_ready_head s' = g_ready_head s" "g_ready_tail s' = g_ready_tail s" "g_sleep_head s' = g_sleep_head s"
    and "g_idle s' = g_idle s"
  shows "sched_wf q sl s'"
proof -
  have "chain (threads s') h xs = chain (threads s) h xs" for h xs
    by (rule chain_cong) (simp add: assms(2))
  then show ?thesis
    using assms(1,3-) by (auto simp: sched_wf_def)
qed

lemma switch_to_spec:
  assumes wf: "sched_wf q sl s" and n: "n \<noteq> g_current s" "n \<notin> set q" "n \<notin> set sl"
    and p: "g_current s \<notin> set q" and ps: "th_state (threads s (g_current s)) = THREAD_RUNNING \<Longrightarrow> g_current s \<notin> set sl"
  shows "sched_wf (if th_state (threads s (g_current s)) = THREAD_RUNNING \<and> g_current s \<noteq> g_idle s
           then q @ [g_current s] else q) sl (switch_to n s)"
    and "g_current (switch_to n s) = n" and "th_state (threads (switch_to n s) n) = THREAD_RUNNING"
    and "g_slice (switch_to n s) = SCHEDULER_TIME_SLICE_TICKS"
    and "g_started (switch_to n s) = g_started s" "g_need_resched (switch_to n s) = g_need_resched s"
      "g_idle (switch_to n s) = g_idle s" "g_ticks (switch_to n s) = g_ticks s"
proof -
  define b where "b \<longleftrightarrow> th_state (threads s (g_current s)) = THREAD_RUNNING \<and> g_current s \<noteq> g_idle s"
  define s1 where "s1 = (if b then scheduler_make_ready (g_current s) s else s)"
  have w1: "sched_wf (if b then q @ [g_current s] else q) sl s1"
    using make_ready_wf [OF wf p] ps wf by (simp add: s1_def b_def)
  have s': "switch_to n s = (let s = upd_thread n (\<lambda>th. th\<lparr>th_state := THREAD_RUNNING\<rparr>) (s1\<lparr>g_current := n\<rparr>);
       s = s\<lparr>g_slice := SCHEDULER_TIME_SLICE_TICKS, g_switch_count := g_switch_count s + 1, tss_rsp0 := n\<rparr>
     in if thread_cr3 n s \<noteq> thread_cr3 (g_current s1) s then s\<lparr>cpu_cr3 := thread_cr3 n s\<rparr> else s)"
    using n(1) by (auto simp: switch_to_def s1_def b_def Let_def)
  have f: "g_started s1 = g_started s" "g_need_resched s1 = g_need_resched s" "g_idle s1 = g_idle s" "g_ticks s1 = g_ticks s"
    by (simp_all add: s1_def)
  have nq: "n \<notin> set (if b then q @ [g_current s] else q) \<union> set sl"
    using n by auto
  have "sched_wf (if b then q @ [g_current s] else q) sl (switch_to n s)"
    unfolding s' by (rule sched_wf_upd [OF w1]) (use nq in \<open>auto simp: upd_thread_def Let_def\<close>)
  then show "sched_wf (if th_state (threads s (g_current s)) = THREAD_RUNNING \<and> g_current s \<noteq> g_idle s
           then q @ [g_current s] else q) sl (switch_to n s)"
    by (simp only: b_def)
  show "g_current (switch_to n s) = n" "th_state (threads (switch_to n s) n) = THREAD_RUNNING"
    "g_slice (switch_to n s) = SCHEDULER_TIME_SLICE_TICKS" "g_started (switch_to n s) = g_started s"
    "g_need_resched (switch_to n s) = g_need_resched s" "g_idle (switch_to n s) = g_idle s" "g_ticks (switch_to n s) = g_ticks s"
    unfolding s' by (simp_all add: Let_def upd_thread_def f)
qed

lemma schedule_cons:
  assumes wf: "sched_wf (n # q) sl s" and p: "g_current s \<notin> set (n # q)"
    and ps: "th_state (threads s (g_current s)) = THREAD_RUNNING \<Longrightarrow> g_current s \<notin> set sl"
  shows "sched_wf (if th_state (threads s (g_current s)) = THREAD_RUNNING \<and> g_current s \<noteq> g_idle s
           then q @ [g_current s] else q) sl (schedule s)"
    and "g_current (schedule s) = n" and "th_state (threads (schedule s) n) = THREAD_RUNNING"
    and "g_slice (schedule s) = SCHEDULER_TIME_SLICE_TICKS"
    and "g_started (schedule s) = g_started s" "g_need_resched (schedule s) = g_need_resched s"
      "g_idle (schedule s) = g_idle s" "g_ticks (schedule s) = g_ticks s"
proof -
  obtain s1 where d: "ready_dequeue s = (Some n, s1)" and w1: "sched_wf q sl s1"
    and eq: "s1 = s\<lparr>threads := (threads s)(n := (threads s n)\<lparr>th_next := None\<rparr>), g_ready_head := g_ready_head s1,
         g_ready_tail := g_ready_tail s1\<rparr>"
    using ready_dequeue_cons [OF wf] by blast
  have sch: "schedule s = switch_to n s1"
    by (simp add: schedule_def d)
  have nn: "n \<noteq> g_current s" "n \<notin> set q" "n \<notin> set sl"
    using p wfD(4,6) [OF wf] by auto
  have f: "g_current s1 = g_current s" "g_idle s1 = g_idle s" "g_started s1 = g_started s"
    "g_need_resched s1 = g_need_resched s" "g_ticks s1 = g_ticks s"
    "th_state (threads s1 (g_current s)) = th_state (threads s (g_current s))"
    using nn(1) by (subst eq; simp)+
  have pre: "n \<noteq> g_current s1" "g_current s1 \<notin> set q"
    "th_state (threads s1 (g_current s1)) = THREAD_RUNNING \<Longrightarrow> g_current s1 \<notin> set sl"
    using nn p ps by (simp_all add: f)
  note sw = switch_to_spec [OF w1 pre(1) nn(2,3) pre(2,3), unfolded f, folded sch]
  show "sched_wf (if th_state (threads s (g_current s)) = THREAD_RUNNING \<and> g_current s \<noteq> g_idle s
           then q @ [g_current s] else q) sl (schedule s)"
    by (rule sw(1))
  show "g_current (schedule s) = n" "th_state (threads (schedule s) n) = THREAD_RUNNING"
    "g_slice (schedule s) = SCHEDULER_TIME_SLICE_TICKS" "g_started (schedule s) = g_started s"
    "g_need_resched (schedule s) = g_need_resched s" "g_idle (schedule s) = g_idle s" "g_ticks (schedule s) = g_ticks s"
    using sw(2-8) by simp_all
qed

lemma schedule_alone:
  assumes "sched_wf [] sl s" and "th_state (threads s (g_current s)) = THREAD_RUNNING"
  shows "schedule s = s\<lparr>g_slice := SCHEDULER_TIME_SLICE_TICKS\<rparr>"
  using assms by (simp add: schedule_def ready_dequeue_empty [OF assms(1)])

subsection \<open>Waking sleepers\<close>

lemma chain_link: "chain f h (a @ b) \<Longrightarrow> chain f (if a = [] then h else th_next (f (last a))) b"
  by (induction a arbitrary: h) auto

lemma chain_unlink:
  "\<lbrakk>chain f h (a @ x # b); distinct (a @ x # b); a \<noteq> [];
    \<And>y. y \<in> set (a @ b) \<Longrightarrow> th_next (g y) = (if y = last a then th_next (f x) else th_next (f y))\<rbrakk>
   \<Longrightarrow> chain g h (a @ b)"
proof (induction a arbitrary: h)
  case (Cons y a)
  show ?case
  proof (cases "a = []")
    case True
    have "chain f (th_next (f x)) b"
      using Cons.prems(1) True by simp
    moreover have "chain g (th_next (f x)) b = chain f (th_next (f x)) b"
      using Cons.prems(2,4) True by (intro chain_cong) auto
    ultimately show ?thesis
      using Cons.prems True by simp
  next
    case False
    then have n: "last (y # a) = last a" "y \<noteq> last a"
      using Cons.prems(2) by auto
    have "th_next (g y) = th_next (f y)"
      using Cons.prems(4) [of y] n by simp
    moreover have "chain g (th_next (f y)) (a @ b)"
      using Cons.prems False n by (intro Cons.IH) auto
    ultimately show ?thesis
      using Cons.prems(1) by simp
  qed
qed simp

definition link_of :: "nat list \<Rightarrow> nat option" where
  "link_of a = (if a = [] then None else Some (last a))"

lemma link_get_eq:
  assumes "sched_wf q (a @ b) s"
  shows "link_get (link_of a) s = (case b of [] \<Rightarrow> None | x # _ \<Rightarrow> Some x)"
  using chain_link [OF wfD(2) [OF assms]] by (cases b) (auto simp: link_get_def link_of_def split: if_splits)

lemma unlink_wf:
  assumes wf: "sched_wf q (a @ x # b) s"
  shows "sched_wf q (a @ b) (link_set (link_of a) (th_next (threads s x)) s)"
proof -
  define s' where "s' = link_set (link_of a) (th_next (threads s x)) s"
  have nx: "th_next (threads s' y) = (if a \<noteq> [] \<and> y = last a then th_next (threads s x) else th_next (threads s y))" for y
    by (simp add: s'_def link_set_def link_of_def upd_thread_def)
  have st: "th_state (threads s' y) = th_state (threads s y)" for y
    by (simp add: s'_def link_set_def link_of_def upd_thread_def)
  have f: "g_ready_head s' = g_ready_head s" "g_ready_tail s' = g_ready_tail s" "g_idle s' = g_idle s"
    "g_sleep_head s' = (if a = [] then th_next (threads s x) else g_sleep_head s)"
    by (simp_all add: s'_def link_set_def link_of_def upd_thread_def)
  have "chain (threads s') (g_sleep_head s') (a @ b)"
  proof (cases "a = []")
    case True
    then show ?thesis
      using wfD(2) [OF wf] chain_cong [of b "threads s'" "threads s"] by (simp add: nx f)
  next
    case False
    have "chain (threads s') (g_sleep_head s) (a @ b)"
      by (rule chain_unlink [OF wfD(2) [OF wf] wfD(5) [OF wf] False]) (simp add: nx False)
    then show ?thesis
      using False by (simp only: f if_False)
  qed
  moreover have "a \<noteq> [] \<Longrightarrow> last a \<notin> set q"
    using wfD(6) [OF wf] last_in_set [of a] by (auto simp: disjoint_iff)
  then have "chain (threads s') (g_ready_head s') q"
    using wfD(1) [OF wf] unfolding f by (subst chain_cong [where g = "threads s"]) (auto simp: nx)
  ultimately show ?thesis
    using wf by (auto simp: sched_wf_def f st simp flip: s'_def)
qed

definition due :: "u64 \<Rightarrow> 'a sched_scheme \<Rightarrow> nat \<Rightarrow> bool" where
  "due now s t \<longleftrightarrow> wake_tick (threads s t) \<le> now"

lemma sweep_spec:
  fixes s :: "'a sched_scheme"
  assumes "sched_wf q (a @ b) s"
  shows "\<exists>s'. sweep now (link_of a) s = Some s'
     \<and> sched_wf (q @ filter (due now s) b) (a @ filter (\<lambda>t. \<not> due now s t) b) s'
     \<and> g_wakeup_count s' = g_wakeup_count s + of_nat (length (filter (due now s) b))
     \<and> g_current s' = g_current s \<and> g_idle s' = g_idle s \<and> g_started s' = g_started s
     \<and> g_need_resched s' = g_need_resched s \<and> g_slice s' = g_slice s \<and> g_ticks s' = g_ticks s
     \<and> (\<forall>t. wake_tick (threads s' t) = wake_tick (threads s t))
     \<and> (\<forall>t. t \<notin> set b \<longrightarrow> th_state (threads s' t) = th_state (threads s t))"
  using assms
proof (induction b arbitrary: a q s)
  case Nil
  then show ?case
    using link_get_eq [OF Nil(1)] by (subst sweep.simps) simp
next
  case (Cons x b)
  note wf = Cons.prems
  have g: "link_get (link_of a) s = Some x"
    using link_get_eq [OF wf] by simp
  show ?case
  proof (cases "due now s x")
    case False
    have l: "link_of (a @ [x]) = Some x"
      by (simp add: link_of_def)
    have "sweep now (link_of a) s = sweep now (link_of (a @ [x])) s"
      unfolding l using False by (subst sweep.simps) (simp add: g due_def)
    then show ?thesis
      using Cons.IH [of q "a @ [x]" s] wf False by auto
  next
    case True
    let ?u = "link_set (link_of a) (th_next (threads s x)) s"
    let ?m = "scheduler_make_ready x (upd_thread x (\<lambda>th. th\<lparr>th_next := None\<rparr>) ?u)"
    let ?n = "?m\<lparr>g_wakeup_count := g_wakeup_count ?m + 1\<rparr>"
    have xq: "x \<notin> set q" "x \<notin> set (a @ b)" "x \<noteq> g_idle s"
      using wfD(4-6,10) [OF wf] by auto
    have f: "g_idle ?u = g_idle s" "g_current ?u = g_current s" "g_started ?u = g_started s"
      "g_need_resched ?u = g_need_resched s" "g_slice ?u = g_slice s" "g_ticks ?u = g_ticks s"
      "g_wakeup_count ?u = g_wakeup_count s" "\<And>y. wake_tick (threads ?u y) = wake_tick (threads s y)"
      "\<And>y. th_state (threads ?u y) = th_state (threads s y)"
      by (simp_all add: link_set_def upd_thread_def split: option.split)
    have "scheduler_make_ready x (upd_thread x (\<lambda>th. th\<lparr>th_next := None\<rparr>) ?u) = scheduler_make_ready x ?u"
      by (simp add: scheduler_make_ready_def upd_thread_def Let_def)
    then have "sched_wf (q @ [x]) (a @ b) ?m"
      using make_ready_wf [OF unlink_wf [OF wf]] xq by (simp add: f)
    then have w: "sched_wf (q @ [x]) (a @ b) ?n"
      by (rule sched_wf_upd) simp_all
    have wt: "wake_tick (threads ?n y) = wake_tick (threads s y)" for y
      by (simp add: f upd_thread_def)
    then have du: "due now ?n = due now s"
      by (simp add: due_def fun_eq_iff)
    have fs: "g_current ?n = g_current s" "g_idle ?n = g_idle s" "g_started ?n = g_started s"
      "g_need_resched ?n = g_need_resched s" "g_slice ?n = g_slice s" "g_ticks ?n = g_ticks s"
      "g_wakeup_count ?n = g_wakeup_count s + 1"
      and ts: "\<And>y. y \<noteq> x \<Longrightarrow> th_state (threads ?n y) = th_state (threads s y)"
      by (simp_all add: f upd_thread_def)
    have r: "sweep now (link_of a) s = sweep now (link_of a) ?n"
      using True by (subst sweep.simps) (simp add: g Let_def due_def)
    show ?thesis
      using Cons.IH [OF w] True ts unfolding r wt fs du by (auto simp: algebra_simps)
  qed
qed

subsection \<open>The running system\<close>

text \<open>
  \<open>sched_run\<close> is the state between interrupts once the scheduler has started: the current
  thread runs, is on neither list and has part of its time slice left.
\<close>

definition sched_pre :: "nat list \<Rightarrow> nat list \<Rightarrow> 'a sched_scheme \<Rightarrow> bool" where
  "sched_pre q sl s \<longleftrightarrow> sched_wf q sl s \<and> g_started s \<and> \<not> g_need_resched s
     \<and> g_current s \<notin> set q \<union> set sl \<and> th_state (threads s (g_current s)) = THREAD_RUNNING"

definition sched_run :: "nat list \<Rightarrow> nat list \<Rightarrow> 'a sched_scheme \<Rightarrow> bool" where
  "sched_run q sl s \<longleftrightarrow> sched_pre q sl s \<and> 0 < g_slice s \<and> g_slice s \<le> SCHEDULER_TIME_SLICE_TICKS"

lemma schedule_run_alone:
  assumes "sched_pre [] sl s"
  shows "sched_run [] sl (schedule s) \<and> g_current (schedule s) = g_current s"
proof -
  have w: "sched_wf [] sl s" and r: "th_state (threads s (g_current s)) = THREAD_RUNNING"
    using assms by (simp_all add: sched_pre_def)
  have "sched_wf [] sl (s\<lparr>g_slice := SCHEDULER_TIME_SLICE_TICKS\<rparr>)"
    by (rule sched_wf_upd [OF w]) simp_all
  then show ?thesis
    using assms by (simp add: sched_run_def sched_pre_def schedule_alone [OF w r] SCHEDULER_TIME_SLICE_TICKS_def)
qed

lemma schedule_run_next:
  assumes r: "sched_pre (n # q) sl s"
  shows "sched_run (if g_current s \<noteq> g_idle s then q @ [g_current s] else q) sl (schedule s)
     \<and> g_current (schedule s) = n \<and> g_slice (schedule s) = SCHEDULER_TIME_SLICE_TICKS"
proof -
  have w: "sched_wf (n # q) sl s" and p: "g_current s \<notin> set (n # q)" "g_current s \<notin> set sl"
    and run: "th_state (threads s (g_current s)) = THREAD_RUNNING"
    using r by (auto simp: sched_pre_def)
  note sc = schedule_cons [OF w p(1) p(2), unfolded run]
  have "n \<notin> set q" "n \<notin> set sl" "n \<noteq> g_current s"
    using wfD(4,6) [OF w] p by auto
  then show ?thesis
    using sc r by (simp add: sched_run_def sched_pre_def SCHEDULER_TIME_SLICE_TICKS_def)
qed

lemma slice_unat:
  assumes "0 < (x :: u32)" "x \<le> SCHEDULER_TIME_SLICE_TICKS"
  shows "0 < unat x" "unat x \<le> 5" "unat (x - 1) = unat x - 1"
proof -
  show p: "0 < unat x" "unat x \<le> 5"
    using assms by (simp_all add: word_less_unat word_le_unat SCHEDULER_TIME_SLICE_TICKS_def)
  have "1 \<le> x"
    using p by (simp add: word_le_unat)
  then show "unat (x - 1) = unat x - 1"
    by (simp add: unat_minus_no_wrap)
qed

lemma slice_pred:
  assumes "0 < (x :: u32)" "x \<le> SCHEDULER_TIME_SLICE_TICKS" "x \<noteq> 1"
  shows "0 < x - 1 \<and> x - 1 \<le> SCHEDULER_TIME_SLICE_TICKS"
proof -
  have "unat x \<noteq> 1"
    using assms(3) by (metis unat_1 unat_eq_iff)
  then show ?thesis
    using slice_unat [OF assms(1,2)] by (simp add: word_less_unat word_le_unat SCHEDULER_TIME_SLICE_TICKS_def)
qed

lemma tick_spec:
  assumes r: "sched_run q sl s"
  defines "now \<equiv> g_ticks s + 1"
  shows "\<exists>s1. scheduler_on_timer_tick (s\<lparr>g_ticks := now\<rparr>) = Some s1
     \<and> sched_wf (q @ filter (due now s) sl) (filter (\<lambda>t. \<not> due now s t) sl) s1
     \<and> g_slice s1 = g_slice s - 1 \<and> g_need_resched s1 = (g_slice s = 1)
     \<and> g_current s1 = g_current s \<and> g_idle s1 = g_idle s \<and> g_started s1 \<and> g_ticks s1 = now
     \<and> th_state (threads s1 (g_current s)) = THREAD_RUNNING
     \<and> (\<forall>t. wake_tick (threads s1 t) = wake_tick (threads s t))"
proof -
  let ?s = "s\<lparr>g_ticks := now\<rparr>"
  have w: "sched_wf q ([] @ sl) ?s"
    using r by (auto simp: sched_run_def sched_pre_def intro: sched_wf_upd)
  have d: "due now ?s = due now s"
    by (simp add: due_def fun_eq_iff)
  obtain s1 where s1: "sweep now (link_of []) ?s = Some s1"
    and w1: "sched_wf (q @ filter (due now s) sl) (filter (\<lambda>t. \<not> due now s t) sl) s1"
    and f: "g_current s1 = g_current s" "g_idle s1 = g_idle s" "g_started s1 = g_started s"
      "g_need_resched s1 = g_need_resched s" "g_slice s1 = g_slice s" "g_ticks s1 = now"
      "\<And>t. wake_tick (threads s1 t) = wake_tick (threads s t)"
      "\<And>t. t \<notin> set sl \<Longrightarrow> th_state (threads s1 t) = th_state (threads s t)"
    using sweep_spec [OF w, of now] by (auto simp: d)
  have sl: "g_slice s \<noteq> 0"
    using r by (auto simp: sched_run_def)
  let ?t = "s1\<lparr>g_slice := g_slice s - 1\<rparr>"
  let ?u = "if g_slice s = 1 then ?t\<lparr>g_need_resched := True\<rparr> else ?t"
  have "scheduler_on_timer_tick ?s = Some ?u"
    using s1 r sl by (auto simp: scheduler_on_timer_tick_def sleep_wakeup_expired_def link_of_def f sched_run_def sched_pre_def
        word_neq_0_conv [symmetric] Let_def)
  moreover have "sched_wf (q @ filter (due now s) sl) (filter (\<lambda>t. \<not> due now s t) sl) ?u"
    by (rule sched_wf_upd [OF w1]) simp_all
  ultimately show ?thesis
    using r by (auto simp: f sched_run_def sched_pre_def)
qed

lemma timer_interrupt_spec:
  assumes r: "sched_run q sl s"
  obtains s' E sl' where "timer_interrupt s = Some s'" and "E = filter (due (g_ticks s + 1) s) sl"
    and "sl' = filter (\<lambda>t. \<not> due (g_ticks s + 1) s t) sl"
    and "g_slice s \<noteq> 1 \<Longrightarrow> sched_run (q @ E) sl' s' \<and> g_current s' = g_current s \<and> g_slice s' = g_slice s - 1"
    and "g_slice s = 1 \<Longrightarrow> q @ E = [] \<Longrightarrow> sched_run [] sl' s' \<and> g_current s' = g_current s"
    and "\<And>n q'. g_slice s = 1 \<Longrightarrow> q @ E = n # q' \<Longrightarrow>
       sched_run (if g_current s \<noteq> g_idle s then q' @ [g_current s] else q') sl' s'
       \<and> g_current s' = n \<and> g_slice s' = SCHEDULER_TIME_SLICE_TICKS"
proof -
  define now where "now = g_ticks s + 1"
  define E where "E = filter (due now s) sl"
  define sl' where "sl' = filter (\<lambda>t. \<not> due now s t) sl"
  obtain s1 where s1: "scheduler_on_timer_tick (s\<lparr>g_ticks := now\<rparr>) = Some s1" and w: "sched_wf (q @ E) sl' s1"
    and f: "g_slice s1 = g_slice s - 1" "g_need_resched s1 = (g_slice s = 1)" "g_current s1 = g_current s"
      "g_idle s1 = g_idle s" "g_started s1" "th_state (threads s1 (g_current s)) = THREAD_RUNNING"
    using tick_spec [OF r] unfolding E_def sl'_def now_def by metis
  have cur: "g_current s \<notin> set (q @ E) \<union> set sl'"
    using r by (auto simp: sched_run_def sched_pre_def E_def sl'_def)
  have ti: "timer_interrupt s = Some (scheduler_irq_exit s1)"
    using s1 by (simp add: timer_interrupt_def now_def)
  show ?thesis
  proof (rule that [of "scheduler_irq_exit s1" E sl'])
    show "timer_interrupt s = Some (scheduler_irq_exit s1)" by (rule ti)
    show "E = filter (due (g_ticks s + 1) s) sl" "sl' = filter (\<lambda>t. \<not> due (g_ticks s + 1) s t) sl"
      by (simp_all add: E_def sl'_def now_def)
    show "sched_run (q @ E) sl' (scheduler_irq_exit s1) \<and> g_current (scheduler_irq_exit s1) = g_current s
        \<and> g_slice (scheduler_irq_exit s1) = g_slice s - 1" if ne: "g_slice s \<noteq> 1"
    proof -
      have "0 < g_slice s - 1 \<and> g_slice s - 1 \<le> SCHEDULER_TIME_SLICE_TICKS"
        using slice_pred [of "g_slice s"] r ne by (simp add: sched_run_def)
      then show ?thesis
        using ne w f cur by (simp add: scheduler_irq_exit_def sched_run_def sched_pre_def)
    qed
    define s2 where "s2 = s1\<lparr>g_need_resched := False, g_preempt_count := if g_ready_head s1 \<noteq> None
        then g_preempt_count s1 + 1 else g_preempt_count s1\<rparr>"
    have ex: "scheduler_irq_exit s1 = schedule s2" if "g_slice s = 1"
      using that f by (simp add: scheduler_irq_exit_def s2_def)
    have s2: "sched_pre (q @ E) sl' s2" "g_current s2 = g_current s" "g_idle s2 = g_idle s"
      using sched_wf_upd [OF w, of s2] cur f by (simp_all add: sched_pre_def s2_def)
    show "sched_run [] sl' (scheduler_irq_exit s1) \<and> g_current (scheduler_irq_exit s1) = g_current s"
      if "g_slice s = 1" "q @ E = []"
      using schedule_run_alone [of sl' s2] s2 unfolding ex [OF that(1)] that(2) by simp
    show "sched_run (if g_current s \<noteq> g_idle s then q' @ [g_current s] else q') sl' (scheduler_irq_exit s1)
       \<and> g_current (scheduler_irq_exit s1) = n \<and> g_slice (scheduler_irq_exit s1) = SCHEDULER_TIME_SLICE_TICKS"
      if "g_slice s = 1" "q @ E = n # q'" for n q'
      using schedule_run_next [of n q' sl' s2] s2(1) unfolding ex [OF that(1)] that(2) s2(2,3) by blast
  qed
qed

primrec run_ticks :: "nat \<Rightarrow> 'a sched_scheme \<Rightarrow> 'a sched_scheme option" where
  "run_ticks 0 s = Some s"
| "run_ticks (Suc n) s = (case timer_interrupt s of None \<Rightarrow> None | Some s \<Rightarrow> run_ticks n s)"

lemma run_ticks_slice:
  assumes "sched_run q sl s" and "q = n # q'"
  shows "\<exists>s' r sl'. run_ticks (unat (g_slice s)) s = Some s' \<and> sched_run (q' @ r) sl' s' \<and> g_current s' = n
     \<and> g_slice s' = SCHEDULER_TIME_SLICE_TICKS"
  using assms
proof (induction "unat (g_slice s)" arbitrary: s q q' sl)
  case 0
  then show ?case
    using slice_unat(1) [of "g_slice s"] by (simp add: sched_run_def)
next
  case (Suc k)
  obtain s1 E sl1 where t: "timer_interrupt s = Some s1"
    and c: "g_slice s \<noteq> 1 \<Longrightarrow> sched_run (q @ E) sl1 s1 \<and> g_current s1 = g_current s \<and> g_slice s1 = g_slice s - 1"
    and e: "\<And>n q'. g_slice s = 1 \<Longrightarrow> q @ E = n # q' \<Longrightarrow>
       sched_run (if g_current s \<noteq> g_idle s then q' @ [g_current s] else q') sl1 s1
       \<and> g_current s1 = n \<and> g_slice s1 = SCHEDULER_TIME_SLICE_TICKS"
    by (rule timer_interrupt_spec [OF Suc.prems(1)]) metis
  have u: "unat (g_slice s - 1) = k"
    using slice_unat(3) [of "g_slice s"] Suc.prems(1) Suc.hyps(2) by (simp add: sched_run_def)
  have r: "run_ticks (unat (g_slice s)) s = run_ticks k s1"
    using t by (simp flip: Suc.hyps(2))
  show ?case
  proof (cases "g_slice s = 1")
    case True
    then have "k = 0" using u by simp
    moreover have "sched_run (q' @ (E @ (if g_current s \<noteq> g_idle s then [g_current s] else []))) sl1 s1 \<and> g_current s1 = n
       \<and> g_slice s1 = SCHEDULER_TIME_SLICE_TICKS"
      using e [OF True, of n "q' @ E"] Suc.prems(2) by (auto split: if_splits)
    ultimately show ?thesis
      unfolding r by auto
  next
    case False
    have k: "k = unat (g_slice s1)"
      using c [OF False] u by simp
    obtain s' rr sl' where "run_ticks (unat (g_slice s1)) s1 = Some s'" "sched_run ((q' @ E) @ rr) sl' s'" "g_current s' = n"
      "g_slice s' = SCHEDULER_TIME_SLICE_TICKS"
      using Suc.hyps(1) [OF k, of "q @ E" sl1 "q' @ E"] c [OF False] Suc.prems(2) by auto
    then show ?thesis
      unfolding r k append_assoc by blast
  qed
qed

lemma run_ticks_add: "run_ticks (m + n) s = (case run_ticks m s of None \<Rightarrow> None | Some s \<Rightarrow> run_ticks n s)"
  by (induction m arbitrary: s) (simp_all split: option.split)

text \<open>
  C2. No thread that is ready starves.  In a started system, whatever threads sleep, wake up or use up
  their time slices, the thread at position \<open>k\<close> of the ready queue is running after exactly the rest of
  the current time slice and \<open>k\<close> further slices of five ticks, and the timer interrupt never fails to return
  on the way (its walk over the sleep list ends).
\<close>

theorem ready_thread_runs:
  fixes s :: "'a sched_scheme"
  assumes "sched_run q sl s" and "k < length q"
  shows "\<exists>s'. run_ticks (unat (g_slice s) + 5 * k) s = Some s' \<and> g_current s' = q ! k
     \<and> th_state (threads s' (q ! k)) = THREAD_RUNNING"
  using assms
proof (induction k arbitrary: q sl s)
  case 0
  then obtain n q' where q: "q = n # q'" by (cases q) auto
  show ?case
    using run_ticks_slice [OF "0.prems"(1) q] q by (auto simp: sched_run_def sched_pre_def)
next
  case (Suc k)
  then obtain n q' where q: "q = n # q'" by (cases q) auto
  obtain s1 r sl1 where r: "run_ticks (unat (g_slice s)) s = Some s1" "sched_run (q' @ r) sl1 s1" 
    "g_slice s1 = SCHEDULER_TIME_SLICE_TICKS"
    using run_ticks_slice [OF Suc.prems(1) q] by blast
  have k: "k < length (q' @ r)" "(q' @ r) ! k = q ! Suc k"
    using Suc.prems(2) q by (simp_all add: nth_append)
  have "unat (g_slice s1) = 5"
    by (simp add: r SCHEDULER_TIME_SLICE_TICKS_def)
  then have "run_ticks (unat (g_slice s) + 5 * Suc k) s = run_ticks (unat (g_slice s1) + 5 * k) s1"
    using run_ticks_add [of "unat (g_slice s)" "5 + 5 * k" s] r by simp
  then show ?case
    using Suc.IH [OF r(2) k(1)] k(2) by simp
qed

text \<open>A system with an idle thread, a running thread and two ready ones.\<close>

definition sample_sched :: sched where
  "sample_sched = \<lparr> threads = (\<lambda>t. \<lparr> th_state = (if t \<le> 1 then THREAD_RUNNING else THREAD_READY), wake_tick = 0, th_cr3 = 0,
       th_next = (if t = 2 then Some 3 else None) \<rparr>),
     g_ready_head = Some 2, g_ready_tail = Some 3, g_current = 1, g_idle = 0, g_started = True, g_need_resched = False,
     g_slice = 5, g_switch_count = 0, g_preempt_count = 0, g_kernel_cr3 = 0, cpu_cr3 = 0, tss_rsp0 = 1,
     g_sleep_head = None, g_wakeup_count = 0, g_ticks = 0 \<rparr>"

lemma sample_sched_run: "sched_run [2, 3] [] sample_sched"
  by (simp add: sched_run_def sched_pre_def sched_wf_def sample_sched_def SCHEDULER_TIME_SLICE_TICKS_def)

theorem ready_thread_runs_witness:
  "sched_run [2, 3] [] sample_sched \<and> (\<exists>s'. run_ticks 10 sample_sched = Some s' \<and> g_current s' = 3)"
proof -
  have k: "1 < length [2 :: nat, 3]" and sl: "unat (g_slice sample_sched) = 5"
    by (simp_all add: sample_sched_def)
  show ?thesis
    using ready_thread_runs [OF sample_sched_run k] sample_sched_run unfolding sl by auto
qed

subsection \<open>Sleeping\<close>

lemma ready_dequeue_keeps [simp]:
  "wake_tick (threads (snd (ready_dequeue s)) t) = wake_tick (threads s t)"
  "g_ticks (snd (ready_dequeue s)) = g_ticks s" "g_idle (snd (ready_dequeue s)) = g_idle s"
  by (simp_all add: ready_dequeue_def upd_thread_def Let_def split: option.split)

lemma switch_to_keeps [simp]:
  "wake_tick (threads (switch_to n s) t) = wake_tick (threads s t)" "g_ticks (switch_to n s) = g_ticks s"
  "g_idle (switch_to n s) = g_idle s"
  unfolding switch_to_def Let_def by (simp_all add: upd_thread_def del: fun_upd_apply) simp_all

lemma schedule_keeps_ticks [simp]:
  "wake_tick (threads (schedule s) t) = wake_tick (threads s t)" "g_ticks (schedule s) = g_ticks s"
  "g_idle (schedule s) = g_idle s"
proof -
  have "schedule s = (let s1 = snd (ready_dequeue s) in case fst (ready_dequeue s) of
      None \<Rightarrow> if th_state (threads s1 (g_current s1)) = THREAD_RUNNING
        then s1\<lparr>g_slice := SCHEDULER_TIME_SLICE_TICKS\<rparr> else switch_to (g_idle s1) s1
    | Some nxt \<Rightarrow> switch_to nxt s1)"
    by (simp add: schedule_def Let_def split: prod.split option.split)
  then show "wake_tick (threads (schedule s) t) = wake_tick (threads s t)" "g_ticks (schedule s) = g_ticks s"
    "g_idle (schedule s) = g_idle s"
    by (simp_all add: Let_def split: option.split)
qed

lemma irq_exit_keeps_ticks [simp]:
  "wake_tick (threads (scheduler_irq_exit s) t) = wake_tick (threads s t)"
  "g_ticks (scheduler_irq_exit s) = g_ticks s" "g_idle (scheduler_irq_exit s) = g_idle s"
  by (simp_all add: scheduler_irq_exit_def Let_def)

definition present :: "nat list \<Rightarrow> nat list \<Rightarrow> 'a sched_scheme \<Rightarrow> nat set" where
  "present q sl s = set q \<union> set sl \<union> {g_current s}"

lemma timer_interrupt_sleepers:
  assumes r: "sched_run q sl s"
  shows "\<exists>s' q'. timer_interrupt s = Some s'
     \<and> sched_run q' (filter (\<lambda>t. \<not> due (g_ticks s + 1) s t) sl) s'
     \<and> (\<forall>t. wake_tick (threads s' t) = wake_tick (threads s t)) \<and> g_ticks s' = g_ticks s + 1 \<and> g_idle s' = g_idle s
     \<and> present q sl s - {g_idle s} \<subseteq> present q' (filter (\<lambda>t. \<not> due (g_ticks s + 1) s t) sl) s'"
proof -
  obtain s1 where s1: "scheduler_on_timer_tick (s\<lparr>g_ticks := g_ticks s + 1\<rparr>) = Some s1"
    "g_ticks s1 = g_ticks s + 1" "\<And>t. wake_tick (threads s1 t) = wake_tick (threads s t)" "g_idle s1 = g_idle s"
    using tick_spec [OF r] by metis
  have k: "timer_interrupt s = Some (scheduler_irq_exit s1)"
    by (simp add: timer_interrupt_def s1)
  obtain s' E sl' where t: "timer_interrupt s = Some s'" and E: "E = filter (due (g_ticks s + 1) s) sl"
    and sl': "sl' = filter (\<lambda>t. \<not> due (g_ticks s + 1) s t) sl"
    and c1: "g_slice s \<noteq> 1 \<Longrightarrow> sched_run (q @ E) sl' s' \<and> g_current s' = g_current s \<and> g_slice s' = g_slice s - 1"
    and c2: "g_slice s = 1 \<Longrightarrow> q @ E = [] \<Longrightarrow> sched_run [] sl' s' \<and> g_current s' = g_current s"
    and c3: "\<And>n q'. g_slice s = 1 \<Longrightarrow> q @ E = n # q' \<Longrightarrow>
       sched_run (if g_current s \<noteq> g_idle s then q' @ [g_current s] else q') sl' s'
       \<and> g_current s' = n \<and> g_slice s' = SCHEDULER_TIME_SLICE_TICKS"
    by (rule timer_interrupt_spec [OF r]) metis
  have s': "s' = scheduler_irq_exit s1"
    using t k by simp
  have sub: "set sl \<subseteq> set E \<union> set sl'"
    by (auto simp: E sl')
  have "\<exists>q'. sched_run q' sl' s' \<and> present q sl s - {g_idle s} \<subseteq> present q' sl' s'"
  proof (cases "g_slice s = 1")
    case False
    then show ?thesis
      using c1 sub by (intro exI [of _ "q @ E"]) (auto simp: present_def)
  next
    case True
    show ?thesis
    proof (cases "q @ E")
      case Nil
      then show ?thesis
        using c2 [OF True] sub by (intro exI [of _ "[]"]) (auto simp: present_def)
    next
      case (Cons n q')
      have "set q \<union> set E = insert n (set q')"
        using arg_cong [OF Cons, of set] by simp
      then show ?thesis
        using c3 [OF True Cons] sub
        by (intro exI [of _ "if g_current s \<noteq> g_idle s then q' @ [g_current s] else q'"]) (auto simp: present_def)
    qed
  qed
  then show ?thesis
    using t s1(2-4) unfolding s' sl' by auto
qed

lemma run_ticks_sleepers:
  assumes "sched_run q sl s" and "unat (g_ticks s) + n < 2 ^ 64"
  shows "\<exists>s' q'. run_ticks n s = Some s'
     \<and> sched_run q' (filter (\<lambda>t. unat (g_ticks s) + n < unat (wake_tick (threads s t)) \<or> n = 0) sl) s'
     \<and> present q sl s - {g_idle s}
        \<subseteq> present q' (filter (\<lambda>t. unat (g_ticks s) + n < unat (wake_tick (threads s t)) \<or> n = 0) sl) s'"
  using assms
proof (induction n arbitrary: q sl s)
  case 0
  then show ?case by auto
next
  case (Suc n)
  let ?sl = "filter (\<lambda>t. \<not> due (g_ticks s + 1) s t) sl"
  obtain s1 q1 where s1: "timer_interrupt s = Some s1" and r1: "sched_run q1 ?sl s1"
    and w: "\<And>t. wake_tick (threads s1 t) = wake_tick (threads s t)" and g: "g_ticks s1 = g_ticks s + 1"
    and i: "g_idle s1 = g_idle s" and p: "present q sl s - {g_idle s} \<subseteq> present q1 ?sl s1"
    using timer_interrupt_sleepers [OF Suc.prems(1)] by blast
  have u: "unat (g_ticks s + 1) = unat (g_ticks s) + 1"
    using Suc.prems(2) by (simp add: unat_plus_no_wrap)
  let ?f = "\<lambda>t. unat (g_ticks s) + Suc n < unat (wake_tick (threads s t)) \<or> Suc n = 0"
  have f: "filter (\<lambda>t. unat (g_ticks s1) + n < unat (wake_tick (threads s1 t)) \<or> n = 0) ?sl = filter ?f sl"
    by (auto simp: w g u due_def word_le_unat intro!: filter_cong)
  obtain s' q' where "run_ticks n s1 = Some s'" "sched_run q' (filter ?f sl) s'"
    "present q1 ?sl s1 - {g_idle s1} \<subseteq> present q' (filter ?f sl) s'"
    using Suc.IH [OF r1] Suc.prems(2) unfolding f by (auto simp: g u)
  then show ?case
    using p i s1 by auto
qed

lemma sleep_enters:
  assumes r: "sched_run q sl s" and p: "g_current s \<noteq> g_idle s" and k: "0 < k"
  defines "s0 \<equiv> thread_sleep_ticks k s"
  shows "\<exists>q'. sched_run q' (g_current s # sl) s0" and "g_current s0 \<noteq> g_current s"
    and "wake_tick (threads s0 (g_current s)) = g_ticks s + k" and "g_ticks s0 = g_ticks s" "g_idle s0 = g_idle s"
proof -
  let ?p = "g_current s"
  have w: "sched_wf q sl s" and run: "g_started s" "\<not> g_need_resched s" "?p \<notin> set q" "?p \<notin> set sl"
    using r by (auto simp: sched_run_def sched_pre_def)
  define s1 where "s1 = upd_thread ?p (\<lambda>th. th\<lparr>wake_tick := g_ticks s + k, th_state := THREAD_SLEEPING,
       th_next := g_sleep_head s\<rparr>) s\<lparr>g_sleep_head := Some ?p\<rparr>"
  have s0: "s0 = schedule s1"
    using k by (auto simp: s0_def s1_def thread_sleep_ticks_def Let_def upd_thread_def)
  have f: "g_current s1 = ?p" "g_idle s1 = g_idle s" "g_started s1" "\<not> g_need_resched s1" "g_ticks s1 = g_ticks s"
    "th_state (threads s1 ?p) = THREAD_SLEEPING" "wake_tick (threads s1 ?p) = g_ticks s + k"
    using run by (simp_all add: s1_def upd_thread_def)
  have "chain (threads s1) h xs = chain (threads s) h xs" if "?p \<notin> set xs" for h xs
    using that by (intro chain_cong) (auto simp: s1_def upd_thread_def)
  then have w1: "sched_wf q (?p # sl) s1"
    using w run p by (auto simp: sched_wf_def) (auto simp: s1_def upd_thread_def)
  have idle: "g_idle s \<notin> set sl" "g_idle s \<notin> set q"
    using wfD(9,10) [OF w] by simp_all
  have "(\<exists>q'. sched_run q' (?p # sl) s0) \<and> g_current s0 \<noteq> ?p"
  proof (cases q)
    case Nil
    have sc: "s0 = switch_to (g_idle s1) s1"
      using ready_dequeue_empty [of "?p # sl" s1] w1 by (simp add: s0 schedule_def Nil f)
    show ?thesis
      using switch_to_spec [of "[]" "?p # sl" s1 "g_idle s1"] w1 p idle f
      by (auto simp: sc Nil sched_run_def sched_pre_def SCHEDULER_TIME_SLICE_TICKS_def)
  next
    case (Cons n q')
    have n: "n \<notin> set q'" "n \<notin> set sl" "n \<noteq> ?p"
      using wfD(4,6) [OF w] run(3) by (auto simp: Cons)
    show ?thesis
      using schedule_cons [of n q' "?p # sl" s1] w1 run(3) f n
      by (auto simp: s0 Cons sched_run_def sched_pre_def SCHEDULER_TIME_SLICE_TICKS_def)
  qed
  then show "\<exists>q'. sched_run q' (?p # sl) s0" "g_current s0 \<noteq> ?p" by blast+
  show "wake_tick (threads s0 ?p) = g_ticks s + k" "g_ticks s0 = g_ticks s" "g_idle s0 = g_idle s"
    by (simp_all add: s0 f)
qed

text \<open>
  C11. A sleeping thread wakes up at its time, neither earlier nor later.  When the running
  thread sleeps for \<open>k\<close> ticks it gives up the processor at once; during the following \<open>k - 1\<close> timer
  interrupts it stays asleep, and the \<open>k\<close>-th makes it ready (or runs it).  The tick counter must not
  wrap around meanwhile.
\<close>

theorem sleep_wakes_on_time:
  fixes s :: "'a sched_scheme"
  assumes r: "sched_run q sl s" and p: "g_current s \<noteq> g_idle s" and k: "0 < k"
    and wrap: "unat (g_ticks s) + unat k < 2 ^ 64"
  shows "g_current (thread_sleep_ticks k s) \<noteq> g_current s
    \<and> (\<forall>n \<le> unat k. \<exists>s'. run_ticks n (thread_sleep_ticks k s) = Some s'
        \<and> (if n < unat k then th_state (threads s' (g_current s)) = THREAD_SLEEPING
           else th_state (threads s' (g_current s)) \<in> {THREAD_READY, THREAD_RUNNING}))"
proof -
  let ?s0 = "thread_sleep_ticks k s"
  note e = sleep_enters [OF r p k]
  obtain q' where r0: "sched_run q' (g_current s # sl) ?s0"
    using e(1) by blast
  have u: "unat (wake_tick (threads ?s0 (g_current s))) = unat (g_ticks s) + unat k"
    unfolding e(3) using wrap by (simp add: unat_plus_no_wrap)
  have "\<exists>s'. run_ticks n ?s0 = Some s'
        \<and> (if n < unat k then th_state (threads s' (g_current s)) = THREAD_SLEEPING
           else th_state (threads s' (g_current s)) \<in> {THREAD_READY, THREAD_RUNNING})" if n: "n \<le> unat k" for n
  proof -
    let ?f = "\<lambda>t. unat (g_ticks ?s0) + n < unat (wake_tick (threads ?s0 t)) \<or> n = 0"
    have "unat (g_ticks ?s0) + n < 2 ^ 64"
      unfolding e(4) using wrap n by linarith
    then obtain s' q1 where s': "run_ticks n ?s0 = Some s'" and r1: "sched_run q1 (filter ?f (g_current s # sl)) s'"
      and pr: "present q' (g_current s # sl) ?s0 - {g_idle ?s0} \<subseteq> present q1 (filter ?f (g_current s # sl)) s'"
      using run_ticks_sleepers [OF r0, of n] by blast
    have w1: "sched_wf q1 (filter ?f (g_current s # sl)) s'" and run: "th_state (threads s' (g_current s')) = THREAD_RUNNING"
      using r1 by (simp_all add: sched_run_def sched_pre_def)
    have k0: "0 < unat k"
      using k by (simp add: word_less_unat)
    have iff: "?f (g_current s) \<longleftrightarrow> n < unat k"
      unfolding e(4) u using k0 by linarith
    show ?thesis
    proof (cases "n < unat k")
      case True
      then have "g_current s \<in> set (filter ?f (g_current s # sl))"
        using iff by simp
      then show ?thesis
        using wfD(8) [OF w1] s' True by auto
    next
      case False
      have "g_current s \<notin> set (filter ?f (g_current s # sl))"
        using False iff by auto
      moreover have "g_current s \<in> present q1 (filter ?f (g_current s # sl)) s'"
        using pr p e(5) by (auto simp: present_def)
      ultimately have "g_current s \<in> set q1 \<or> g_current s = g_current s'"
        by (auto simp: present_def)
      then show ?thesis
        using wfD(7) [OF w1] run s' False by auto
    qed
  qed
  then show ?thesis
    using e(2) by blast
qed

theorem sleep_wakes_on_time_witness:
  "\<exists>s'. run_ticks 3 (thread_sleep_ticks 4 sample_sched) = Some s' \<and> th_state (threads s' 1) = THREAD_SLEEPING"
proof -
  have a: "g_current sample_sched \<noteq> g_idle sample_sched" "(0 :: u64) < 4"
    "unat (g_ticks sample_sched) + unat (4 :: u64) < 2 ^ 64"
    and c: "g_current sample_sched = 1"
    by (simp_all add: sample_sched_def)
  show ?thesis
    using sleep_wakes_on_time [OF sample_sched_run a, THEN conjunct2, rule_format, of 3] unfolding c by simp
qed

end
