(* ===== verification/Mutex.thy ===== *)
theory Mutex
  imports Sched
begin

text \<open>
  Spinlocks, wait queues and the sleeping mutex (\<open>kernel/sync/spinlock.c\<close>,
  \<open>kernel/sync/waitqueue.c\<close>, \<open>kernel/sync/mutex.c\<close>) under preemption.

  The machine has one processor and a thread may be preempted wherever interrupts are enabled.
  A section between \<open>irq_save_flags_and_disable\<close> and \<open>irq_restore_flags\<close> is one step, and so is a
  single access outside such sections; the step relation lets the timer preempt the current thread
  before every step.  An entry of a wait queue lives on the stack of the thread that waits, so
  the intrusive list of entries is the list of their threads, oldest first.
\<close>

subsection \<open>Spinlocks\<close>

record spinlock =
  sl_locked :: bool
  sl_acquisitions :: u64
  sl_contended :: u64

definition spinlock_init :: spinlock where
  "spinlock_init = \<lparr> sl_locked = False, sl_acquisitions = 0, sl_contended = 0 \<rparr>"

text \<open>
  With interrupts disabled nothing can release a lock that is held: the loop of \<open>spinlock_lock\<close>
  then never ends, which is the result \<open>None\<close>.
\<close>

definition spinlock_lock :: "spinlock \<Rightarrow> spinlock option" where
  "spinlock_lock l =
     (if sl_locked l then None else Some (l\<lparr>sl_locked := True, sl_acquisitions := sl_acquisitions l + 1\<rparr>))"

definition spinlock_unlock :: "spinlock \<Rightarrow> spinlock" where
  "spinlock_unlock l = l\<lparr>sl_locked := False\<rparr>"

subsection \<open>Wait queues\<close>

record waitqueue =
  waiters :: "nat list"
  wq_lock :: spinlock
  wakeups :: u64

definition waitqueue_init :: waitqueue where
  "waitqueue_init = \<lparr> waiters = [], wq_lock = spinlock_init, wakeups = 0 \<rparr>"

definition waitqueue_dequeue :: "waitqueue \<Rightarrow> (nat option \<times> waitqueue) option" where
  "waitqueue_dequeue wq =
     (case spinlock_lock (wq_lock wq) of
        None \<Rightarrow> None
      | Some l \<Rightarrow>
          let (e, ws) = (case waiters wq of [] \<Rightarrow> (None, []) | w # ws \<Rightarrow> (Some w, ws))
          in Some (e, wq\<lparr>waiters := ws, wq_lock := spinlock_unlock l\<rparr>))"

text \<open>\<open>waitqueue_wait\<close> up to the call of the scheduler, and after it.\<close>

definition waitqueue_park :: "waitqueue \<Rightarrow> 'a sched_scheme \<Rightarrow> waitqueue \<times> 'a sched_scheme" where
  "waitqueue_park wq s =
     (let t = g_current s
      in (wq\<lparr>waiters := waiters wq @ [t]\<rparr>, schedule (upd_thread t (\<lambda>th. th\<lparr>th_state := THREAD_BLOCKED\<rparr>) s)))"

definition waitqueue_resume :: "nat \<Rightarrow> waitqueue \<Rightarrow> waitqueue" where
  "waitqueue_resume t wq = (if t \<in> set (waiters wq) then wq\<lparr>waiters := remove1 t (waiters wq)\<rparr> else wq)"

definition wake_entry :: "nat \<Rightarrow> waitqueue \<Rightarrow> 'a sched_scheme \<Rightarrow> waitqueue \<times> 'a sched_scheme" where
  "wake_entry t wq s = (wq\<lparr>wakeups := wakeups wq + 1\<rparr>, scheduler_make_ready t s)"

subsection \<open>The mutex\<close>

record mutex =
  m_locked :: bool
  owner :: "nat option"
  m_waiters :: waitqueue
  m_acquisitions :: u64
  m_contended :: u64

definition mutex_init :: mutex where
  "mutex_init = \<lparr> m_locked = False, owner = None, m_waiters = waitqueue_init, m_acquisitions = 0, m_contended = 0 \<rparr>"

text \<open>
  Where a thread is in \<open>mutex_lock\<close> and \<open>mutex_unlock\<close>: outside, before the first and the later
  attempts of \<open>mutex_trylock\<close>, between the exchange that took the lock and the record of the owner, before
  and after the switch in \<open>waitqueue_wait\<close>, in the critical section, and at the three statements of the release;
  the waker has dequeued \<open>e\<close> before it makes it ready.
\<close>

datatype mpc = Outside | Try | Contend | Retry | Got | Park | Parked | Critical | Rel_owner | Rel_lock | Rel_wake | Wake nat

record msys = sched +
  mtx :: mutex
  pc :: "nat \<Rightarrow> mpc"

definition goto :: "nat \<Rightarrow> mpc \<Rightarrow> 'a msys_scheme \<Rightarrow> 'a msys_scheme" where
  "goto t p s = s\<lparr>pc := (pc s)(t := p)\<rparr>"

definition mutex_trylock_step :: "mpc \<Rightarrow> msys \<Rightarrow> msys" where
  "mutex_trylock_step fail s =
     (let t = g_current s
      in if \<not> m_locked (mtx s) then goto t Got (s\<lparr>mtx := (mtx s)\<lparr>m_locked := True\<rparr>\<rparr>) else goto t fail s)"

definition mutex_lock_step :: "msys \<Rightarrow> msys option" where
  "mutex_lock_step s =
     (let t = g_current s; m = mtx s
      in case pc s t of
           Try \<Rightarrow> Some (mutex_trylock_step Contend s)
         | Contend \<Rightarrow> Some (goto t Retry (s\<lparr>mtx := m\<lparr>m_contended := m_contended m + 1\<rparr>\<rparr>))
         | Retry \<Rightarrow> Some (mutex_trylock_step Park s)
         | Got \<Rightarrow> Some (goto t Critical (s\<lparr>mtx := m\<lparr>owner := Some t, m_acquisitions := m_acquisitions m + 1\<rparr>\<rparr>))
         | Park \<Rightarrow> (let (wq, s) = waitqueue_park (m_waiters m) (goto t Parked s)
                    in Some (s\<lparr>mtx := m\<lparr>m_waiters := wq\<rparr>\<rparr>))
         | Parked \<Rightarrow> Some (goto t Retry (s\<lparr>mtx := m\<lparr>m_waiters := waitqueue_resume t (m_waiters m)\<rparr>\<rparr>))
         | _ \<Rightarrow> None)"

definition mutex_unlock_step :: "msys \<Rightarrow> msys option" where
  "mutex_unlock_step s =
     (let t = g_current s; m = mtx s
      in case pc s t of
           Rel_owner \<Rightarrow> Some (goto t Rel_lock (s\<lparr>mtx := m\<lparr>owner := None\<rparr>\<rparr>))
         | Rel_lock \<Rightarrow> Some (goto t Rel_wake (s\<lparr>mtx := m\<lparr>m_locked := False\<rparr>\<rparr>))
         | Rel_wake \<Rightarrow>
             (case waitqueue_dequeue (m_waiters m) of
                None \<Rightarrow> None
              | Some (None, wq) \<Rightarrow> Some (goto t Outside (s\<lparr>mtx := m\<lparr>m_waiters := wq\<rparr>\<rparr>))
              | Some (Some e, wq) \<Rightarrow> Some (goto t (Wake e) (s\<lparr>mtx := m\<lparr>m_waiters := wq\<rparr>\<rparr>)))
         | Wake e \<Rightarrow>
             (let (wq, s) = wake_entry e (m_waiters m) s
              in Some (goto t Outside (s\<lparr>mtx := m\<lparr>m_waiters := wq\<rparr>\<rparr>)))
         | _ \<Rightarrow> None)"

text \<open>
  One step of the machine: the current thread takes a step in \<open>mutex_lock\<close> or \<open>mutex_unlock\<close>, enters
  one of them, or ends while it is outside, or the timer preempts it.
\<close>

inductive mstep :: "msys \<Rightarrow> msys \<Rightarrow> bool" where
  lock_step: "g_current s \<noteq> g_idle s \<Longrightarrow> mutex_lock_step s = Some s' \<Longrightarrow> mstep s s'"
| unlock_step: "g_current s \<noteq> g_idle s \<Longrightarrow> mutex_unlock_step s = Some s' \<Longrightarrow> mstep s s'"
| call_lock: "g_current s \<noteq> g_idle s \<Longrightarrow> pc s (g_current s) = Outside \<Longrightarrow> mstep s (goto (g_current s) Try s)"
| call_unlock: "g_current s \<noteq> g_idle s \<Longrightarrow> pc s (g_current s) = Critical \<Longrightarrow> mstep s (goto (g_current s) Rel_owner s)"
| ends: "g_current s \<noteq> g_idle s \<Longrightarrow> pc s (g_current s) = Outside \<Longrightarrow> mstep s (thread_exit s)"
| preempted: "mstep s (schedule s)"

inductive mreach :: "msys \<Rightarrow> msys \<Rightarrow> bool" for s0 where
  mreach_refl: "mreach s0 s0"
| mreach_step: "mreach s0 s \<Longrightarrow> mstep s s' \<Longrightarrow> mreach s0 s'"

definition mutex_start :: "nat list \<Rightarrow> msys \<Rightarrow> bool" where
  "mutex_start q s \<longleftrightarrow> sched_pre q [] s \<and> mtx s = mutex_init \<and> (\<forall>t. pc s t = Outside)"

subsection \<open>Mutual exclusion\<close>

text \<open>The threads between the exchange that takes the lock and the store that releases it.\<close>

definition holding :: "mpc \<Rightarrow> bool" where
  "holding p \<longleftrightarrow> p = Got \<or> p = Critical \<or> p = Rel_owner \<or> p = Rel_lock"

definition mutex_ok :: "mutex \<Rightarrow> (nat \<Rightarrow> mpc) \<Rightarrow> bool" where
  "mutex_ok m pcs \<longleftrightarrow> \<not> sl_locked (wq_lock (m_waiters m)) \<and>
     (if m_locked m
      then \<exists>h. holding (pcs h) \<and> (\<forall>t. t \<noteq> h \<longrightarrow> \<not> holding (pcs t))
             \<and> owner m = (if pcs h = Critical \<or> pcs h = Rel_owner then Some h else None)
      else (\<forall>t. \<not> holding (pcs t)) \<and> owner m = None)"

lemma make_ready_msys [simp]:
  "mtx (scheduler_make_ready t s) = mtx s" "pc (scheduler_make_ready t s) = pc s"
  by (simp_all add: scheduler_make_ready_def upd_thread_def Let_def split: option.split)

lemma ready_dequeue_msys [simp]: "mtx (snd (ready_dequeue s)) = mtx s" "pc (snd (ready_dequeue s)) = pc s"
  by (simp_all add: ready_dequeue_def upd_thread_def Let_def split: option.split)

lemma upd_thread_msys [simp]:
  "mtx (upd_thread t f s) = mtx s" "pc (upd_thread t f s) = pc s" "g_current (upd_thread t f s) = g_current s"
  "g_idle (upd_thread t f s) = g_idle s"
  by (simp_all add: upd_thread_def)

lemma switch_to_msys [simp]: "mtx (switch_to n s) = mtx s" "pc (switch_to n s) = pc s"
  by (simp_all add: switch_to_def Let_def)

lemma schedule_cases:
  "schedule s = (let s1 = snd (ready_dequeue s) in case fst (ready_dequeue s) of
      None \<Rightarrow> if th_state (threads s1 (g_current s1)) = THREAD_RUNNING
        then s1\<lparr>g_slice := SCHEDULER_TIME_SLICE_TICKS\<rparr> else switch_to (g_idle s1) s1
    | Some nxt \<Rightarrow> switch_to nxt s1)"
  by (simp add: schedule_def Let_def split: prod.split option.split)

lemma schedule_msys [simp]: "mtx (schedule s) = mtx s" "pc (schedule s) = pc s"
  by (simp_all add: schedule_cases Let_def split: option.split)

lemma goto_simps [simp]:
  "mtx (goto t p s) = mtx s" "pc (goto t p s) = (pc s)(t := p)" "threads (goto t p s) = threads s"
  "g_current (goto t p s) = g_current s" "g_idle (goto t p s) = g_idle s"
  by (simp_all add: goto_def)

lemmas mutex_steps = mutex_trylock_step_def waitqueue_park_def waitqueue_resume_def wake_entry_def
  waitqueue_dequeue_def spinlock_lock_def spinlock_unlock_def

lemma ok_neutral:
  assumes "mutex_ok m pcs" "\<not> holding (pcs t)" "\<not> holding p" "m_locked m' = m_locked m" "owner m' = owner m"
    "\<not> sl_locked (wq_lock (m_waiters m'))"
  shows "mutex_ok m' (pcs(t := p))"
proof -
  have h: "holding ((pcs(t := p)) u) \<longleftrightarrow> holding (pcs u)" for u
    using assms(2,3) by simp
  show ?thesis
  proof (cases "m_locked m")
    case True
    then obtain g where g: "holding (pcs g)" "\<And>u. u \<noteq> g \<Longrightarrow> \<not> holding (pcs u)"
        "owner m = (if pcs g = Critical \<or> pcs g = Rel_owner then Some g else None)"
      using assms(1) by (auto simp: mutex_ok_def)
    have "(pcs(t := p)) g = pcs g"
      using g(1) assms(2) by auto
    then show ?thesis
      unfolding mutex_ok_def h using True assms(4-6) g by (auto intro!: exI [of _ g])
  next
    case False
    then show ?thesis
      unfolding mutex_ok_def h using assms by (simp add: mutex_ok_def)
  qed
qed

lemma ok_take:
  assumes "mutex_ok m pcs" "\<not> m_locked m"
  shows "mutex_ok (m\<lparr>m_locked := True\<rparr>) (pcs(t := Got))"
  using assms by (auto simp: mutex_ok_def holding_def intro!: exI [of _ t])

lemma ok_holder:
  assumes "mutex_ok m pcs" "holding (pcs t)"
  shows "m_locked m" "\<And>u. u \<noteq> t \<Longrightarrow> \<not> holding (pcs u)"
    "owner m = (if pcs t = Critical \<or> pcs t = Rel_owner then Some t else None)"
proof -
  show l: "m_locked m"
    using assms by (auto simp: mutex_ok_def split: if_splits)
  obtain g where g: "\<And>u. u \<noteq> g \<Longrightarrow> \<not> holding (pcs u)"
      "owner m = (if pcs g = Critical \<or> pcs g = Rel_owner then Some g else None)"
    using assms(1) l by (auto simp: mutex_ok_def)
  have "g = t"
    using g(1) [of t] assms(2) by blast
  then show "\<And>u. u \<noteq> t \<Longrightarrow> \<not> holding (pcs u)" "owner m = (if pcs t = Critical \<or> pcs t = Rel_owner then Some t else None)"
    using g by simp_all
qed

lemma ok_advance:
  assumes "mutex_ok m pcs" "holding (pcs t)" "holding p"
    and "m_locked m' = m_locked m" "owner m' = (if p = Critical \<or> p = Rel_owner then Some t else None)" "m_waiters m' = m_waiters m"
  shows "mutex_ok m' (pcs(t := p))"
  using assms ok_holder [OF assms(1,2)] by (auto simp: mutex_ok_def intro!: exI [of _ t])

lemma ok_release:
  assumes "mutex_ok m pcs" "pcs t = Rel_lock"
  shows "mutex_ok (m\<lparr>m_locked := False\<rparr>) (pcs(t := Rel_wake))"
  using assms ok_holder [OF assms(1), of t] by (auto simp: mutex_ok_def holding_def)

lemma mutex_lock_ok:
  assumes ok: "mutex_ok (mtx s) (pc s)" and st: "mutex_lock_step s = Some s'"
  shows "mutex_ok (mtx s') (pc s')"
proof -
  let ?t = "g_current s"
  have nl: "\<not> sl_locked (wq_lock (m_waiters (mtx s)))"
    using ok by (simp add: mutex_ok_def)
  note neutral = ok_neutral [OF ok, of ?t]
  have try1: "mutex_ok (mtx (mutex_trylock_step p s)) (pc (mutex_trylock_step p s))"
    if "\<not> holding (pc s ?t)" "\<not> holding p" for p
    using that neutral [of p "mtx s"] ok_take [OF ok, of ?t] nl by (simp add: mutex_trylock_step_def Let_def)
  show ?thesis
  proof (cases "pc s ?t")
    case Try
    then show ?thesis using st try1 [of Contend] by (simp add: mutex_lock_step_def holding_def)
  next
    case Retry
    then show ?thesis using st try1 [of Park] by (simp add: mutex_lock_step_def holding_def)
  next
    case Contend
    then have "s' = goto ?t Retry (s\<lparr>mtx := (mtx s)\<lparr>m_contended := m_contended (mtx s) + 1\<rparr>\<rparr>)"
      using st by (simp add: mutex_lock_step_def Let_def)
    then show ?thesis
      using Contend nl by (simp add: neutral holding_def)
  next
    case Got
    then have "s' = goto ?t Critical (s\<lparr>mtx := (mtx s)\<lparr>owner := Some ?t, m_acquisitions := m_acquisitions (mtx s) + 1\<rparr>\<rparr>)"
      using st by (simp add: mutex_lock_step_def Let_def)
    then show ?thesis
      using Got by (simp add: ok_advance [OF ok] holding_def)
  next
    case Park
    then have "mtx s' = (mtx s)\<lparr>m_waiters := (m_waiters (mtx s))\<lparr>waiters := waiters (m_waiters (mtx s)) @ [?t]\<rparr>\<rparr>"
      "pc s' = (pc s)(?t := Parked)"
      using st by (auto simp: mutex_lock_step_def Let_def waitqueue_park_def)
    then show ?thesis
      using Park nl by (simp add: neutral holding_def)
  next
    case Parked
    then have "s' = goto ?t Retry (s\<lparr>mtx := (mtx s)\<lparr>m_waiters := waitqueue_resume ?t (m_waiters (mtx s))\<rparr>\<rparr>)"
      using st by (simp add: mutex_lock_step_def Let_def)
    then show ?thesis
      using Parked nl by (simp add: neutral holding_def waitqueue_resume_def)
  qed (use st in \<open>simp_all add: mutex_lock_step_def\<close>)
qed

lemma dequeue_free:
  "\<not> sl_locked (wq_lock wq) \<Longrightarrow> waitqueue_dequeue wq = Some (if waiters wq = [] then None else Some (hd (waiters wq)),
     wq\<lparr>waiters := tl (waiters wq), wq_lock := (wq_lock wq)\<lparr>sl_acquisitions := sl_acquisitions (wq_lock wq) + 1, sl_locked := False\<rparr>\<rparr>)"
  by (simp add: waitqueue_dequeue_def spinlock_lock_def spinlock_unlock_def split: list.split)

lemma mutex_unlock_ok:
  assumes ok: "mutex_ok (mtx s) (pc s)" and st: "mutex_unlock_step s = Some s'"
  shows "mutex_ok (mtx s') (pc s')"
proof -
  let ?t = "g_current s"
  have nl: "\<not> sl_locked (wq_lock (m_waiters (mtx s)))"
    using ok by (simp add: mutex_ok_def)
  note neutral = ok_neutral [OF ok, of ?t]
  show ?thesis
  proof (cases "pc s ?t")
    case Rel_owner
    then have "s' = goto ?t Rel_lock (s\<lparr>mtx := (mtx s)\<lparr>owner := None\<rparr>\<rparr>)"
      using st by (simp add: mutex_unlock_step_def Let_def)
    then show ?thesis
      using Rel_owner by (simp add: ok_advance [OF ok] holding_def)
  next
    case Rel_lock
    then have "s' = goto ?t Rel_wake (s\<lparr>mtx := (mtx s)\<lparr>m_locked := False\<rparr>\<rparr>)"
      using st by (simp add: mutex_unlock_step_def Let_def)
    then show ?thesis
      using ok_release [OF ok, of ?t] Rel_lock by simp
  next
    case Rel_wake
    obtain wq where wq: "\<not> sl_locked (wq_lock wq)" and d: "waitqueue_dequeue (m_waiters (mtx s)) =
        Some (if waiters (m_waiters (mtx s)) = [] then None else Some (hd (waiters (m_waiters (mtx s)))), wq)"
      by (rule that [OF _ dequeue_free [OF nl]]) simp
    obtain p where "s' = goto ?t p (s\<lparr>mtx := (mtx s)\<lparr>m_waiters := wq\<rparr>\<rparr>)" "\<not> holding p"
      using st by (auto simp: mutex_unlock_step_def Let_def Rel_wake d holding_def split: if_splits)
    then show ?thesis
      using Rel_wake wq by (simp add: neutral holding_def)
  next
    case (Wake e)
    then have "mtx s' = (mtx s)\<lparr>m_waiters := (m_waiters (mtx s))\<lparr>wakeups := wakeups (m_waiters (mtx s)) + 1\<rparr>\<rparr>"
      "pc s' = (pc s)(?t := Outside)"
      using st by (auto simp: mutex_unlock_step_def Let_def wake_entry_def)
    then show ?thesis
      using Wake nl by (simp add: neutral holding_def)
  qed (use st in \<open>simp_all add: mutex_unlock_step_def\<close>)
qed

lemma mstep_ok:
  assumes "mstep s s'" and ok: "mutex_ok (mtx s) (pc s)"
  shows "mutex_ok (mtx s') (pc s')"
  using assms(1)
proof cases
  case lock_step
  then show ?thesis by (intro mutex_lock_ok [OF ok])
next
  case unlock_step
  then show ?thesis by (intro mutex_unlock_ok [OF ok])
next
  case call_lock
  have nl: "\<not> sl_locked (wq_lock (m_waiters (mtx s)))"
    using ok by (simp add: mutex_ok_def)
  have "mutex_ok (mtx s) ((pc s)(g_current s := Try))"
    by (rule ok_neutral [OF ok]) (simp_all add: call_lock holding_def nl)
  then show ?thesis
    by (simp add: call_lock)
next
  case call_unlock
  have h: "holding (pc s (g_current s))"
    by (simp add: call_unlock holding_def)
  have "mutex_ok (mtx s) ((pc s)(g_current s := Rel_owner))"
    by (rule ok_advance [OF ok h]) (simp_all add: holding_def ok_holder(3) [OF ok h] call_unlock)
  then show ?thesis
    by (simp add: call_unlock)
next
  case ends
  then show ?thesis using ok by (simp add: thread_exit_def)
next
  case preempted
  then show ?thesis using ok by simp
qed

subsection \<open>The wait queue and the scheduler\<close>

lemma schedule_state:
  assumes "t \<noteq> g_current s \<or> th_state (threads s t) \<noteq> THREAD_RUNNING" and "t \<noteq> g_current (schedule s)"
  shows "th_state (threads (schedule s) t) = th_state (threads s t)"
proof -
  have d: "th_state (threads (snd (ready_dequeue s)) x) = th_state (threads s x)" "g_current (snd (ready_dequeue s)) = g_current s" for x
    by (simp_all add: ready_dequeue_def upd_thread_def Let_def split: option.split)
  have sw: "th_state (threads (switch_to n u) t) = th_state (threads u t)"
    if "t \<noteq> n" "t \<noteq> g_current u \<or> th_state (threads u t) \<noteq> THREAD_RUNNING" for n and u :: "'a sched_scheme"
    using that by (auto simp: switch_to_def Let_def upd_thread_def)
  have cur: "g_current (switch_to n u) = n" for n and u :: "'a sched_scheme"
    by (simp add: switch_to_def Let_def upd_thread_def)
  show ?thesis
    using assms by (auto simp: schedule_cases Let_def d cur split: option.splits if_splits intro!: sw [THEN trans])
qed

text \<open>
  Threads in the queue, and threads a waker has taken from it, are blocked; every other thread
  inside the wait is ready or running.  No waker therefore puts a thread on the ready queue twice.
\<close>

definition wait_ok :: "(nat \<Rightarrow> thread_state) \<Rightarrow> (nat \<Rightarrow> mpc) \<Rightarrow> nat list \<Rightarrow> nat \<Rightarrow> bool" where
  "wait_ok st pcs ws i \<longleftrightarrow> distinct ws
     \<and> (\<forall>t \<in> set ws. pcs t = Parked \<and> st t = THREAD_BLOCKED \<and> t \<noteq> i)
     \<and> (\<forall>u e. pcs u = Wake e \<longrightarrow> pcs e = Parked \<and> st e = THREAD_BLOCKED \<and> e \<noteq> i \<and> e \<notin> set ws
           \<and> (\<forall>v. pcs v = Wake e \<longrightarrow> v = u))"

lemma wait_okI:
  assumes "distinct ws" "\<And>t. t \<in> set ws \<Longrightarrow> pcs t = Parked \<and> st t = THREAD_BLOCKED \<and> t \<noteq> i"
    "\<And>u e. pcs u = Wake e \<Longrightarrow> pcs e = Parked \<and> st e = THREAD_BLOCKED \<and> e \<noteq> i \<and> e \<notin> set ws"
    "\<And>u v e. pcs u = Wake e \<Longrightarrow> pcs v = Wake e \<Longrightarrow> v = u"
  shows "wait_ok st pcs ws i"
  unfolding wait_ok_def using assms by blast

lemma wait_okD:
  assumes "wait_ok st pcs ws i"
  shows "distinct ws" "\<And>t. t \<in> set ws \<Longrightarrow> pcs t = Parked \<and> st t = THREAD_BLOCKED \<and> t \<noteq> i"
    "\<And>u e. pcs u = Wake e \<Longrightarrow> pcs e = Parked \<and> st e = THREAD_BLOCKED \<and> e \<noteq> i \<and> e \<notin> set ws"
    "\<And>u v e. pcs u = Wake e \<Longrightarrow> pcs v = Wake e \<Longrightarrow> v = u"
  using assms unfolding wait_ok_def by blast+

lemma wait_ok_move:
  assumes w: "wait_ok st pcs ws i" and t: "st t \<noteq> THREAD_BLOCKED" "\<And>e. p \<noteq> Wake e"
  shows "wait_ok st (pcs(t := p)) ws i"
proof (rule wait_okI)
  show "distinct ws" by (rule wait_okD(1) [OF w])
  show "(pcs(t := p)) x = Parked \<and> st x = THREAD_BLOCKED \<and> x \<noteq> i" if "x \<in> set ws" for x
    using wait_okD(2) [OF w that] t(1) by (cases "x = t") simp_all
  fix u e
  assume u: "(pcs(t := p)) u = Wake e"
  then have u': "pcs u = Wake e"
    using t(2) by (cases "u = t") simp_all
  show "(pcs(t := p)) e = Parked \<and> st e = THREAD_BLOCKED \<and> e \<noteq> i \<and> e \<notin> set ws"
    using wait_okD(3) [OF w u'] t(1) by (cases "e = t") simp_all
  show "v = u" if "(pcs(t := p)) v = Wake e" for v
    using wait_okD(4) [OF w u'] that t(2) by (cases "v = t") simp_all
qed

lemma wait_ok_state:
  assumes w: "wait_ok st pcs ws i" and st: "\<And>t. st t = THREAD_BLOCKED \<Longrightarrow> t \<noteq> i \<Longrightarrow> st' t = THREAD_BLOCKED"
  shows "wait_ok st' pcs ws i"
  by (rule wait_okI) (use wait_okD [OF w] st in blast)+

lemma wait_ok_park:
  assumes w: "wait_ok st pcs ws i" and t: "st t \<noteq> THREAD_BLOCKED" "t \<noteq> i"
  shows "wait_ok (st(t := THREAD_BLOCKED)) (pcs(t := Parked)) (ws @ [t]) i"
proof -
  have "wait_ok st (pcs(t := Parked)) ws i"
    by (rule wait_ok_move [OF w t(1)]) simp
  then have w': "wait_ok (st(t := THREAD_BLOCKED)) (pcs(t := Parked)) ws i"
    by (rule wait_ok_state) simp
  have n: "t \<notin> set ws"
    using wait_okD(2) [OF w, of t] t(1) by blast
  have m: "e \<noteq> t" if "(pcs(t := Parked)) u = Wake e" for u e
    using wait_okD(3) [OF w, of u e] that t(1) by (cases "u = t") auto
  show ?thesis
  proof (rule wait_okI)
    show "distinct (ws @ [t])" using wait_okD(1) [OF w] n by simp
    show "(pcs(t := Parked)) x = Parked \<and> (st(t := THREAD_BLOCKED)) x = THREAD_BLOCKED \<and> x \<noteq> i" if "x \<in> set (ws @ [t])" for x
      using wait_okD(2) [OF w', of x] that t(2) by (cases "x = t") simp_all
    fix u e
    assume u: "(pcs(t := Parked)) u = Wake e"
    show "(pcs(t := Parked)) e = Parked \<and> (st(t := THREAD_BLOCKED)) e = THREAD_BLOCKED \<and> e \<noteq> i \<and> e \<notin> set (ws @ [t])"
      using wait_okD(3) [OF w' u] m [OF u] by simp
    show "v = u" if "(pcs(t := Parked)) v = Wake e" for v
      by (rule wait_okD(4) [OF w' u that])
  qed
qed

lemma wait_ok_dequeue:
  assumes w: "wait_ok st pcs (e # ws) i" and t: "st t \<noteq> THREAD_BLOCKED"
  shows "wait_ok st (pcs(t := Wake e)) ws i"
proof -
  have e: "pcs e = Parked" "st e = THREAD_BLOCKED" "e \<noteq> i" "e \<notin> set ws" "e \<noteq> t"
    using wait_okD(1,2) [OF w] t by auto
  have ne: "pcs u \<noteq> Wake e" for u
    using wait_okD(3) [OF w, of u e] by auto
  show ?thesis
  proof (rule wait_okI)
    show "distinct ws" using wait_okD(1) [OF w] by simp
    show "(pcs(t := Wake e)) x = Parked \<and> st x = THREAD_BLOCKED \<and> x \<noteq> i" if "x \<in> set ws" for x
      using wait_okD(2) [OF w, of x] that t by (cases "x = t") simp_all
    fix u d
    assume u: "(pcs(t := Wake e)) u = Wake d"
    show "(pcs(t := Wake e)) d = Parked \<and> st d = THREAD_BLOCKED \<and> d \<noteq> i \<and> d \<notin> set ws"
      using wait_okD(3) [OF w, of u d] u e t by (cases "u = t"; cases "d = t") auto
    show "v = u" if v: "(pcs(t := Wake e)) v = Wake d" for v
      using wait_okD(4) [OF w, of u d v] u v ne [of u] ne [of v] by (auto split: if_splits)
  qed
qed

lemma wait_ok_wake:
  assumes w: "wait_ok st pcs ws i" and t: "st t \<noteq> THREAD_BLOCKED" "pcs t = Wake e"
  shows "wait_ok (st(e := THREAD_READY)) (pcs(t := Outside)) ws i"
proof -
  have w': "wait_ok st (pcs(t := Outside)) ws i"
    by (rule wait_ok_move [OF w t(1)]) simp
  have e: "e \<notin> set ws"
    using wait_okD(3) [OF w t(2)] by blast
  have d: "d \<noteq> e" if "(pcs(t := Outside)) u = Wake d" for u d
    using wait_okD(4) [OF w t(2), of u] that by (auto split: if_splits)
  show ?thesis
  proof (rule wait_okI)
    show "distinct ws" by (rule wait_okD(1) [OF w])
    show "(pcs(t := Outside)) x = Parked \<and> (st(e := THREAD_READY)) x = THREAD_BLOCKED \<and> x \<noteq> i" if "x \<in> set ws" for x
      using wait_okD(2) [OF w' that] that e by (cases "x = e") simp_all
    fix u c
    assume u: "(pcs(t := Outside)) u = Wake c"
    show "(pcs(t := Outside)) c = Parked \<and> (st(e := THREAD_READY)) c = THREAD_BLOCKED \<and> c \<noteq> i \<and> c \<notin> set ws"
      using wait_okD(3) [OF w' u] d [OF u] by simp
    show "v = u" if "(pcs(t := Outside)) v = Wake c" for v
      by (rule wait_okD(4) [OF w' u that])
  qed
qed

definition park_inv :: "nat list \<Rightarrow> msys \<Rightarrow> bool" where
  "park_inv q s \<longleftrightarrow>
     sched_wf q [] s \<and> g_current s \<notin> set q \<and> th_state (threads s (g_current s)) = THREAD_RUNNING
     \<and> wait_ok (\<lambda>t. th_state (threads s t)) (pc s) (waiters (m_waiters (mtx s))) (g_idle s)"

lemma schedule_inv:
  assumes wf: "sched_wf q [] s" and cur: "g_current s \<notin> set q"
    and run: "th_state (threads s (g_current s)) = THREAD_RUNNING \<or> g_current s \<noteq> g_idle s"
  shows "\<exists>q'. sched_wf q' [] (schedule s) \<and> g_current (schedule s) \<notin> set q'
     \<and> th_state (threads (schedule s) (g_current (schedule s))) = THREAD_RUNNING"
    and "\<And>t. th_state (threads s t) = THREAD_BLOCKED \<Longrightarrow> t \<noteq> g_idle s
     \<Longrightarrow> th_state (threads (schedule s) t) = THREAD_BLOCKED"
proof -
  have a: "(\<exists>q'. sched_wf q' [] (schedule s) \<and> g_current (schedule s) \<notin> set q'
      \<and> th_state (threads (schedule s) (g_current (schedule s))) = THREAD_RUNNING)
    \<and> (g_current (schedule s) \<in> set q \<union> {g_idle s} \<or> g_current (schedule s) = g_current s
        \<and> th_state (threads s (g_current s)) = THREAD_RUNNING)"
  proof (cases q)
    case (Cons n q')
    note sc = schedule_cons [of n q' "[]" s, OF wf [unfolded Cons] cur [unfolded Cons]]
    have "n \<notin> set q'" "n \<noteq> g_current s"
      using wfD(4) [OF wf] cur by (auto simp: Cons)
    then show ?thesis
      using sc(1-3) by (auto simp: Cons intro!: exI split: if_splits)
  next
    case Nil
    show ?thesis
    proof (cases "th_state (threads s (g_current s)) = THREAD_RUNNING")
      case True
      have "sched_wf [] [] (s\<lparr>g_slice := SCHEDULER_TIME_SLICE_TICKS\<rparr>)"
        using wf Nil by (auto intro: sched_wf_upd)
      then show ?thesis
        using schedule_alone [of "[]" s] wf True by (auto simp: Nil intro!: exI [of _ "[]"])
    next
      case False
      then have "schedule s = switch_to (g_idle s) s"
        using wf by (simp add: schedule_def Nil ready_dequeue_empty)
      then show ?thesis
        using switch_to_spec(1-3) [of "[]" "[]" s "g_idle s"] wf run False by (auto simp: Nil intro!: exI [of _ "[]"])
    qed
  qed
  then show "\<exists>q'. sched_wf q' [] (schedule s) \<and> g_current (schedule s) \<notin> set q'
     \<and> th_state (threads (schedule s) (g_current (schedule s))) = THREAD_RUNNING"
    by blast
  fix t
  assume t: "th_state (threads s t) = THREAD_BLOCKED" "t \<noteq> g_idle s"
  have "t \<noteq> g_current (schedule s)"
    using a t wfD(7) [OF wf, of t] by auto
  then show "th_state (threads (schedule s) t) = THREAD_BLOCKED"
    using schedule_state [of t s] t(1) by simp
qed

lemma sched_wf_msys [simp]:
  "sched_wf q sl (goto t p s) = sched_wf q sl s" "sched_wf q sl (s\<lparr>mtx := m\<rparr>) = sched_wf q sl s"
  by (simp_all add: sched_wf_def goto_def)

lemma park_goto:
  assumes inv: "park_inv q s" and ws: "waiters (m_waiters m) = waiters (m_waiters (mtx s))" and p: "\<And>e. p \<noteq> Wake e"
  shows "park_inv q (goto (g_current s) p (s\<lparr>mtx := m\<rparr>))"
proof -
  have "wait_ok (\<lambda>t. th_state (threads s t)) ((pc s)(g_current s := p)) (waiters (m_waiters (mtx s))) (g_idle s)"
    by (rule wait_ok_move) (use inv p in \<open>simp_all add: park_inv_def\<close>)
  then show ?thesis
    using inv by (simp add: park_inv_def ws)
qed

lemma park_schedule:
  assumes wf: "sched_wf q [] s" and cur: "g_current s \<notin> set q"
    and run: "th_state (threads s (g_current s)) = THREAD_RUNNING \<or> g_current s \<noteq> g_idle s"
    and w: "wait_ok (\<lambda>t. th_state (threads s t)) (pc s) (waiters (m_waiters m)) (g_idle s)"
  shows "\<exists>q'. park_inv q' (schedule s\<lparr>mtx := m\<rparr>)"
proof -
  obtain q' where "sched_wf q' [] (schedule s)" "g_current (schedule s) \<notin> set q'"
     "th_state (threads (schedule s) (g_current (schedule s))) = THREAD_RUNNING"
    using schedule_inv(1) [OF wf cur run] by blast
  moreover have "wait_ok (\<lambda>t. th_state (threads (schedule s) t)) (pc s) (waiters (m_waiters m)) (g_idle s)"
    by (rule wait_ok_state [OF w]) (rule schedule_inv(2) [OF wf cur run])
  ultimately show ?thesis
    by (auto simp: park_inv_def intro!: exI [of _ q'])
qed

lemma park_trylock: "park_inv q s \<Longrightarrow> (\<And>e. p \<noteq> Wake e) \<Longrightarrow> park_inv q (mutex_trylock_step p s)"
  using park_goto [of q s "(mtx s)\<lparr>m_locked := True\<rparr>" Got] park_goto [of q s "mtx s" p]
  by (simp add: mutex_trylock_step_def Let_def)

lemma mutex_lock_park:
  assumes inv: "park_inv q s" and idle: "g_current s \<noteq> g_idle s" and st: "mutex_lock_step s = Some s'"
  shows "\<exists>q'. park_inv q' s'"
proof -
  let ?t = "g_current s" and ?m = "mtx s"
  note go = park_goto [OF inv]
  have wf: "sched_wf q [] s" and cur: "?t \<notin> set q" and run: "th_state (threads s ?t) = THREAD_RUNNING"
    and w: "wait_ok (\<lambda>t. th_state (threads s t)) (pc s) (waiters (m_waiters ?m)) (g_idle s)"
    using inv by (simp_all add: park_inv_def)
  show ?thesis
  proof (cases "pc s ?t")
    case Try
    then show ?thesis using st park_trylock [OF inv, of Contend] by (auto simp: mutex_lock_step_def)
  next
    case Retry
    then show ?thesis using st park_trylock [OF inv, of Park] by (auto simp: mutex_lock_step_def)
  next
    case Contend
    then have "s' = goto ?t Retry (s\<lparr>mtx := ?m\<lparr>m_contended := m_contended ?m + 1\<rparr>\<rparr>)"
      using st by (simp add: mutex_lock_step_def Let_def)
    then show ?thesis
      using go [of "?m\<lparr>m_contended := m_contended ?m + 1\<rparr>" Retry] by auto
  next
    case Got
    then have "s' = goto ?t Critical (s\<lparr>mtx := ?m\<lparr>owner := Some ?t, m_acquisitions := m_acquisitions ?m + 1\<rparr>\<rparr>)"
      using st by (simp add: mutex_lock_step_def Let_def)
    then show ?thesis
      using go [of "?m\<lparr>owner := Some ?t, m_acquisitions := m_acquisitions ?m + 1\<rparr>" Critical] by auto
  next
    case Parked
    have "waitqueue_resume ?t (m_waiters ?m) = m_waiters ?m"
      using wait_okD(2) [OF w, of ?t] run by (auto simp: waitqueue_resume_def)
    then have "s' = goto ?t Retry (s\<lparr>mtx := ?m\<rparr>)"
      using st Parked by (simp add: mutex_lock_step_def Let_def)
    then show ?thesis
      using go [of ?m Retry] by auto
  next
    case Park
    define u where "u = upd_thread ?t (\<lambda>th. th\<lparr>th_state := THREAD_BLOCKED\<rparr>) (goto ?t Parked s)"
    define m where "m = ?m\<lparr>m_waiters := (m_waiters ?m)\<lparr>waiters := waiters (m_waiters ?m) @ [?t]\<rparr>\<rparr>"
    have s': "s' = schedule u\<lparr>mtx := m\<rparr>"
      using st Park by (simp add: mutex_lock_step_def Let_def waitqueue_park_def u_def m_def)
    have f: "th_next (threads u x) = th_next (threads s x)" "g_ready_head u = g_ready_head s" "g_ready_tail u = g_ready_tail s"
      "g_sleep_head u = g_sleep_head s" "g_idle u = g_idle s" "pc u = (pc s)(?t := Parked)" for x
      by (simp_all add: u_def upd_thread_def goto_def)
    have st: "(\<lambda>t. th_state (threads u t)) = (\<lambda>t. th_state (threads s t))(?t := THREAD_BLOCKED)"
      by (simp add: u_def upd_thread_def fun_eq_iff)
    have "sched_wf q [] u"
      by (rule sched_wf_upd [OF wf]) (use cur fun_cong [OF st] in \<open>auto simp: f\<close>)
    moreover have "wait_ok (\<lambda>t. th_state (threads u t)) (pc u) (waiters (m_waiters m)) (g_idle u)"
      unfolding st f using wait_ok_park [OF w, of ?t] run idle by (simp add: m_def)
    ultimately show ?thesis
      unfolding s' using cur idle by (intro park_schedule [of q]) (simp_all add: u_def)
  qed (use st in \<open>simp_all add: mutex_lock_step_def\<close>)
qed

lemma mutex_unlock_park:
  assumes inv: "park_inv q s" and ok: "mutex_ok (mtx s) (pc s)" and st: "mutex_unlock_step s = Some s'"
  shows "\<exists>q'. park_inv q' s'"
proof -
  let ?t = "g_current s" and ?m = "mtx s"
  note go = park_goto [OF inv]
  have wf: "sched_wf q [] s" and cur: "?t \<notin> set q" and run: "th_state (threads s ?t) = THREAD_RUNNING"
    and w: "wait_ok (\<lambda>t. th_state (threads s t)) (pc s) (waiters (m_waiters ?m)) (g_idle s)"
    using inv by (simp_all add: park_inv_def)
  have nl: "\<not> sl_locked (wq_lock (m_waiters ?m))"
    using ok by (simp add: mutex_ok_def)
  show ?thesis
  proof (cases "pc s ?t")
    case Rel_owner
    then have "s' = goto ?t Rel_lock (s\<lparr>mtx := ?m\<lparr>owner := None\<rparr>\<rparr>)"
      using st by (simp add: mutex_unlock_step_def Let_def)
    then show ?thesis using go [of "?m\<lparr>owner := None\<rparr>" Rel_lock] by auto
  next
    case Rel_lock
    then have "s' = goto ?t Rel_wake (s\<lparr>mtx := ?m\<lparr>m_locked := False\<rparr>\<rparr>)"
      using st by (simp add: mutex_unlock_step_def Let_def)
    then show ?thesis using go [of "?m\<lparr>m_locked := False\<rparr>" Rel_wake] by auto
  next
    case Rel_wake
    define ws where "ws = waiters (m_waiters ?m)"
    obtain wq where d: "waitqueue_dequeue (m_waiters ?m) = Some (if ws = [] then None else Some (hd ws), wq)"
      and wq: "waiters wq = tl ws"
      by (rule that [OF dequeue_free [OF nl, folded ws_def]]) simp
    let ?p = "if ws = [] then Outside else Wake (hd ws)"
    have s': "s' = goto ?t ?p (s\<lparr>mtx := ?m\<lparr>m_waiters := wq\<rparr>\<rparr>)"
      using st by (simp add: mutex_unlock_step_def Let_def Rel_wake d split: if_splits)
    have "wait_ok (\<lambda>t. th_state (threads s t)) ((pc s)(?t := ?p)) (tl ws) (g_idle s)"
      using w run wait_ok_dequeue [of _ _ "hd ws" "tl ws"] wait_ok_move [OF w, of ?t Outside]
      by (cases "ws = []") (simp_all flip: ws_def)
    then show ?thesis
      using wf cur run by (auto simp: s' park_inv_def wq intro!: exI [of _ q])
  next
    case (Wake e)
    have e: "th_state (threads s e) = THREAD_BLOCKED" "e \<noteq> g_idle s"
      using wait_okD(3) [OF w Wake] by auto
    have "e \<notin> set q"
      using wfD(7) [OF wf, of e] e(1) by auto
    then have wf': "sched_wf (q @ [e]) [] (scheduler_make_ready e s)"
      using make_ready_wf [OF wf] e(2) by simp
    have "wait_ok (\<lambda>t. th_state (threads (scheduler_make_ready e s) t)) ((pc s)(?t := Outside)) (waiters (m_waiters ?m)) (g_idle s)"
      using wait_ok_wake [OF w _ Wake] run by (simp add: fun_upd_def)
    then show ?thesis
      using st wf' cur run e
      by (auto simp: mutex_unlock_step_def Let_def Wake wake_entry_def park_inv_def intro!: exI [of _ "q @ [e]"])
  qed (use st in \<open>simp_all add: mutex_unlock_step_def\<close>)
qed

lemma mstep_park:
  assumes "mstep s s'" and inv: "park_inv q s" and ok: "mutex_ok (mtx s) (pc s)"
  shows "\<exists>q'. park_inv q' s'"
proof -
  have wf: "sched_wf q [] s" and cur: "g_current s \<notin> set q" and run: "th_state (threads s (g_current s)) = THREAD_RUNNING"
    and w: "wait_ok (\<lambda>t. th_state (threads s t)) (pc s) (waiters (m_waiters (mtx s))) (g_idle s)"
    using inv by (simp_all add: park_inv_def)
  show ?thesis
    using assms(1)
  proof cases
    case lock_step
    then show ?thesis by (intro mutex_lock_park [OF inv])
  next
    case unlock_step
    then show ?thesis by (intro mutex_unlock_park [OF inv ok])
  next
    case call_lock
    then show ?thesis using park_goto [OF inv, of "mtx s" Try] by auto
  next
    case call_unlock
    then show ?thesis using park_goto [OF inv, of "mtx s" Rel_owner] by auto
  next
    case ends
    define u where "u = upd_thread (g_current s) (\<lambda>th. th\<lparr>th_state := THREAD_DEAD\<rparr>) s"
    have st: "th_state (threads u t) = (if t = g_current s then THREAD_DEAD else th_state (threads s t))"
      and nx: "th_next (threads u t) = th_next (threads s t)" for t
      by (simp_all add: u_def upd_thread_def)
    have f: "g_ready_head u = g_ready_head s" "g_ready_tail u = g_ready_tail s" "g_sleep_head u = g_sleep_head s"
      "g_idle u = g_idle s"
      by (simp_all add: u_def upd_thread_def)
    have wf': "sched_wf q [] u"
      by (rule sched_wf_upd [OF wf]) (use cur in \<open>auto simp: f nx st\<close>)
    have "wait_ok (\<lambda>t. th_state (threads u t)) (pc u) (waiters (m_waiters (mtx u))) (g_idle u)"
      unfolding u_def upd_thread_msys by (rule wait_ok_state [OF w]) (use run in \<open>auto simp: upd_thread_def\<close>)
    then have "\<exists>q'. park_inv q' (schedule u\<lparr>mtx := mtx u\<rparr>)"
      using cur ends by (intro park_schedule [OF wf']) (simp_all add: u_def)
    moreover have "schedule u\<lparr>mtx := mtx u\<rparr> = s'"
      using schedule_msys(1) [of u] by (simp add: ends thread_exit_def u_def)
    ultimately show ?thesis
      by simp
  next
    case preempted
    have "schedule s\<lparr>mtx := mtx s\<rparr> = s'"
      using schedule_msys(1) [of s] by (simp add: preempted)
    then show ?thesis
      using park_schedule [OF wf cur, of "mtx s"] run w by simp
  qed
qed

lemma mreach_inv:
  assumes "mreach s0 s" and "mutex_start q s0"
  shows "mutex_ok (mtx s) (pc s) \<and> (\<exists>q. park_inv q s)"
  using assms(1)
proof induction
  case mreach_refl
  then show ?case
    using assms(2) by (auto simp: mutex_start_def sched_pre_def mutex_ok_def mutex_init_def waitqueue_init_def
        spinlock_init_def holding_def park_inv_def wait_ok_def)
next
  case (mreach_step s s')
  then show ?case
    using mstep_ok mstep_park by metis
qed

text \<open>
  C1. The mutex excludes, under every interleaving of lock and unlock calls, preemptions, waits and wake-ups: at
  most one thread is between taking and releasing the lock; the lock word is set exactly while there is one; the
  recorded owner is the thread in the critical section.  The spinlock of the wait queue is always free between
  sections, so no thread spins for ever on it.  The threads of the wait queue are blocked, different from each other
  and on no other queue, and the ready queue stays a well-formed list of ready threads.
\<close>

theorem mutex_mutual_exclusion:
  assumes "mutex_start q0 s0" and "mreach s0 s"
  shows "(\<forall>t u. holding (pc s t) \<longrightarrow> holding (pc s u) \<longrightarrow> t = u)
    \<and> (m_locked (mtx s) \<longleftrightarrow> (\<exists>t. holding (pc s t)))
    \<and> (\<forall>t. pc s t = Critical \<longrightarrow> owner (mtx s) = Some t)
    \<and> \<not> sl_locked (wq_lock (m_waiters (mtx s)))
    \<and> distinct (waiters (m_waiters (mtx s)))
    \<and> (\<forall>t \<in> set (waiters (m_waiters (mtx s))). pc s t = Parked \<and> th_state (threads s t) = THREAD_BLOCKED)
    \<and> (\<exists>q. sched_wf q [] s \<and> g_current s \<notin> set q)"
proof -
  have ok: "mutex_ok (mtx s) (pc s)" and "\<exists>q. park_inv q s"
    using mreach_inv [OF assms(2,1)] by blast+
  then obtain q where q: "park_inv q s" by blast
  have c: "holding Critical"
    by (simp add: holding_def)
  have u: "\<forall>t u. holding (pc s t) \<longrightarrow> holding (pc s u) \<longrightarrow> t = u"
    using ok_holder(2) [OF ok] by blast
  have l: "m_locked (mtx s) \<longleftrightarrow> (\<exists>t. holding (pc s t))"
    using ok ok_holder(1) [OF ok] by (auto simp: mutex_ok_def)
  have o: "\<forall>t. pc s t = Critical \<longrightarrow> owner (mtx s) = Some t"
  proof (intro allI impI)
    fix t
    assume "pc s t = Critical"
    then show "owner (mtx s) = Some t"
      using ok_holder(3) [OF ok, of t] c by simp
  qed
  have n: "\<not> sl_locked (wq_lock (m_waiters (mtx s)))"
    using ok by (simp add: mutex_ok_def)
  have w: "wait_ok (\<lambda>t. th_state (threads s t)) (pc s) (waiters (m_waiters (mtx s))) (g_idle s)"
    and sw: "sched_wf q [] s \<and> g_current s \<notin> set q"
    using q by (simp_all add: park_inv_def)
  show ?thesis
    using u l o n wait_okD(1,2) [OF w] sw by blast
qed

subsection \<open>A lost wake-up\<close>

text \<open>Schedules of the machine, to run it on concrete inputs.\<close>

datatype mact = Step | Call_lock | Call_unlock | End | Preempt

definition mact_step :: "mact \<Rightarrow> msys \<Rightarrow> msys option" where
  "mact_step a s =
     (if a = Preempt then Some (schedule s)
      else if g_current s = g_idle s then None
      else case a of
             Step \<Rightarrow> (case mutex_lock_step s of Some s \<Rightarrow> Some s | None \<Rightarrow> mutex_unlock_step s)
           | Call_lock \<Rightarrow> if pc s (g_current s) = Outside then Some (goto (g_current s) Try s) else None
           | Call_unlock \<Rightarrow> if pc s (g_current s) = Critical then Some (goto (g_current s) Rel_owner s) else None
           | End \<Rightarrow> if pc s (g_current s) = Outside then Some (thread_exit s) else None
           | Preempt \<Rightarrow> None)"

primrec mrun :: "mact list \<Rightarrow> msys \<Rightarrow> msys option" where
  "mrun [] s = Some s"
| "mrun (a # as) s = (case mact_step a s of None \<Rightarrow> None | Some s \<Rightarrow> mrun as s)"

lemma mact_step_mstep: "mact_step a s = Some s' \<Longrightarrow> mstep s s'"
  by (cases a) (auto simp: mact_step_def intro: mstep.intros split: if_splits option.splits)

lemma mrun_mreach: "mreach s0 s \<Longrightarrow> mrun as s = Some s' \<Longrightarrow> mreach s0 s'"
  by (induction as arbitrary: s) (auto split: option.splits dest: mact_step_mstep intro: mreach_step)

text \<open>Thread 0 is idle, thread 1 runs and thread 2 is ready.\<close>

definition lost_start :: msys where
  "lost_start = \<lparr> threads = (\<lambda>t. \<lparr> th_state = (if t = 1 then THREAD_RUNNING else THREAD_READY), wake_tick = 0, th_cr3 = 0,
       th_next = None \<rparr>),
     g_ready_head = Some 2, g_ready_tail = Some 2, g_current = 1, g_idle = 0, g_started = True, g_need_resched = False,
     g_slice = 5, g_switch_count = 0, g_preempt_count = 0, g_kernel_cr3 = 0, cpu_cr3 = 0, tss_rsp0 = 1,
     g_sleep_head = None, g_wakeup_count = 0, g_ticks = 0, mtx = mutex_init, pc = (\<lambda>t. Outside) \<rparr>"

lemma lost_start_ok: "mutex_start [2] lost_start"
  by (simp add: mutex_start_def sched_pre_def sched_wf_def lost_start_def)

theorem mutex_mutual_exclusion_witness:
  "mutex_start [2] lost_start \<and> (\<exists>s. mreach lost_start s \<and> pc s 1 = Critical \<and> m_locked (mtx s) \<and> owner (mtx s) = Some 1)"
proof -
  have "case mrun [Call_lock, Step, Step] lost_start of None \<Rightarrow> False | Some s \<Rightarrow> pc s 1 = Critical"
    by code_simp
  then obtain s where r: "mrun [Call_lock, Step, Step] lost_start = Some s" and c: "pc s 1 = Critical"
    by (auto split: option.splits)
  have s: "mreach lost_start s"
    using mrun_mreach [OF mreach_refl r] .
  have "holding (pc s 1)"
    unfolding c by (simp add: holding_def)
  then show ?thesis
    using mutex_mutual_exclusion [OF lost_start_ok s] s c lost_start_ok by blast
qed

text \<open>
  Thread 1 takes the lock; thread 2 fails to take it twice and is preempted just before it
  parks itself; thread 1 releases the lock, finds nobody to wake and ends; thread 2 parks itself.
\<close>

definition lost_schedule :: "mact list" where
  "lost_schedule = [Call_lock, Step, Step, Preempt, Call_lock, Step, Step, Step, Preempt,
     Call_unlock, Step, Step, Step, End, Step]"

definition lost_end :: "msys \<Rightarrow> bool" where
  "lost_end s \<longleftrightarrow> g_current s = g_idle s \<and> g_ready_head s = None \<and> th_state (threads s (g_idle s)) = THREAD_RUNNING
     \<and> \<not> m_locked (mtx s) \<and> pc s 2 = Parked \<and> th_state (threads s 2) = THREAD_BLOCKED"

lemma lost_run: "\<exists>s. mrun lost_schedule lost_start = Some s \<and> lost_end s"
proof -
  have "case mrun lost_schedule lost_start of None \<Rightarrow> False | Some s \<Rightarrow> lost_end s"
    by code_simp
  then show ?thesis
    by (auto split: option.splits)
qed

lemma lost_end_stays:
  assumes "mstep s s'" and e: "lost_end s"
  shows "lost_end s'"
  using assms(1)
proof cases
  case preempted
  have "schedule s = s\<lparr>g_slice := SCHEDULER_TIME_SLICE_TICKS\<rparr>"
    using e by (simp add: lost_end_def schedule_def ready_dequeue_def)
  then show ?thesis
    using e by (simp add: preempted lost_end_def)
qed (use e in \<open>simp_all add: lost_end_def\<close>)

lemma lost_end_reach: "mreach s s' \<Longrightarrow> lost_end s \<Longrightarrow> lost_end s'"
  by (induction rule: mreach.induct) (auto intro: lost_end_stays)

text \<open>
  C40. The mutex can lose a wake-up.  From two threads that use it correctly, a preemption between the failed
  attempt of \<open>mutex_lock\<close> and its \<open>waitqueue_wait\<close> leads to a state where the lock is free and the
  second thread is blocked in the wait queue, and where no later step of the machine changes that: the thread
  waits for ever for a lock that nobody holds.
\<close>

theorem mutex_lost_wakeup:
  "\<exists>s. mutex_start [2] lost_start \<and> mreach lost_start s \<and> \<not> m_locked (mtx s) \<and> pc s 2 = Parked
     \<and> (\<forall>s'. mreach s s' \<longrightarrow> \<not> m_locked (mtx s') \<and> pc s' 2 = Parked \<and> th_state (threads s' 2) = THREAD_BLOCKED)"
proof -
  obtain s where s: "mrun lost_schedule lost_start = Some s" "lost_end s"
    using lost_run by blast
  have "mreach lost_start s"
    using mrun_mreach [OF mreach_refl s(1)] .
  moreover have "\<not> m_locked (mtx s') \<and> pc s' 2 = Parked \<and> th_state (threads s' 2) = THREAD_BLOCKED" if "mreach s s'" for s'
    using lost_end_reach [OF that s(2)] by (simp add: lost_end_def)
  ultimately show ?thesis
    using s(2) lost_start_ok by (auto simp: lost_end_def)
qed

theorem mutex_lost_wakeup_witness:
  "\<exists>s. mreach lost_start s \<and> \<not> m_locked (mtx s) \<and> th_state (threads s 2) = THREAD_BLOCKED"
proof -
  obtain s where s: "mreach lost_start s"
    and f: "\<forall>s'. mreach s s' \<longrightarrow> \<not> m_locked (mtx s') \<and> pc s' 2 = Parked \<and> th_state (threads s' 2) = THREAD_BLOCKED"
    using mutex_lost_wakeup by blast
  show ?thesis
    using s f mreach_refl [of s] by blast
qed

end
