(* ===== verification/Rwlock.thy ===== *)
theory Rwlock
  imports Prelude
begin

text \<open>
  The writer-preferring reader-writer lock (\<open>kernel/sync/rwlock.c\<close>) under interleaving.  The two counters are 32-bit
  signed numbers.  A wait queue is the list of its waiting threads, oldest first.  Each section between
  \<open>spinlock_lock_irqsave\<close> and \<open>spinlock_unlock_irqrestore\<close> is one step, and so are
  \<open>waitqueue_wait\<close> up to its reschedule, which runs with interrupts off, and each removal of a waiter by the
  wake-up functions.  A thread on a queue does nothing until it is woken.
\<close>

type_synonym i32 = "32 word"

record rwlock =
  rw_state :: i32
  waiting_writers :: i32
  readers :: "nat list"
  writers :: "nat list"

definition rwlock_init :: rwlock where
  "rwlock_init = \<lparr> rw_state = 0, waiting_writers = 0, readers = [], writers = [] \<rparr>"

definition rwlock_read_trylock :: "rwlock \<Rightarrow> bool \<times> rwlock" where
  "rwlock_read_trylock rw =
     (if 0 \<le>s rw_state rw \<and> waiting_writers rw = 0 then (True, rw\<lparr>rw_state := rw_state rw + 1\<rparr>) else (False, rw))"

definition rwlock_read_unlock :: "rwlock \<Rightarrow> bool \<times> rwlock" where
  "rwlock_read_unlock rw =
     (let rw = (if 0 <s rw_state rw then rw\<lparr>rw_state := rw_state rw - 1\<rparr> else rw)
      in (rw_state rw = 0 \<and> 0 <s waiting_writers rw, rw))"

definition rwlock_write_trylock :: "rwlock \<Rightarrow> bool \<times> rwlock" where
  "rwlock_write_trylock rw = (if rw_state rw = 0 then (True, rw\<lparr>rw_state := - 1\<rparr>) else (False, rw))"

text \<open>The first and the last section of \<open>rwlock_write_lock\<close>.\<close>

definition write_lock_enter :: "rwlock \<Rightarrow> rwlock" where
  "write_lock_enter rw = rw\<lparr>waiting_writers := waiting_writers rw + 1\<rparr>"

definition write_lock_leave :: "rwlock \<Rightarrow> rwlock" where
  "write_lock_leave rw =
     (if 0 <s waiting_writers rw then rw\<lparr>waiting_writers := waiting_writers rw - 1\<rparr> else rw)"

definition rwlock_write_unlock :: "rwlock \<Rightarrow> bool \<times> rwlock" where
  "rwlock_write_unlock rw = (let rw = rw\<lparr>rw_state := 0\<rparr> in (0 <s waiting_writers rw, rw))"

definition rwlock_reader_count :: "rwlock \<Rightarrow> i32" where
  "rwlock_reader_count rw = (if 0 <s rw_state rw then rw_state rw else 0)"

definition rwlock_write_held :: "rwlock \<Rightarrow> bool" where
  "rwlock_write_held rw \<longleftrightarrow> rw_state rw <s 0"

text \<open>
  Where a thread is: outside; in \<open>rwlock_read_lock\<close> about to try, about to wait, waiting; reading; in
  \<open>rwlock_write_lock\<close> about to try, about to wait, waiting, successful; writing; and in the wake-up part of an unlock
  operation.
\<close>

datatype rwpc = RW_out | R_try | R_park | R_wait | R_held | W_try | W_park | W_wait | W_got | W_held | Wake_one | Wake_all

text \<open>The steps of \<open>n\<close> threads.\<close>

inductive rwstep :: "nat \<Rightarrow> rwlock \<times> (nat \<Rightarrow> rwpc) \<Rightarrow> rwlock \<times> (nat \<Rightarrow> rwpc) \<Rightarrow> bool" for n where
  read_call: "t < n \<Longrightarrow> f t = RW_out \<Longrightarrow> rwstep n (rw, f) (rw, f(t := R_try))"
| read_try: "t < n \<Longrightarrow> f t = R_try \<Longrightarrow> rwlock_read_trylock rw = (ok, rw') \<Longrightarrow>
    rwstep n (rw, f) (rw', f(t := if ok then R_held else R_park))"
| read_park: "t < n \<Longrightarrow> f t = R_park \<Longrightarrow> rwstep n (rw, f) (rw\<lparr>readers := readers rw @ [t]\<rparr>, f(t := R_wait))"
| read_only_try: "t < n \<Longrightarrow> f t = RW_out \<Longrightarrow> rwlock_read_trylock rw = (ok, rw') \<Longrightarrow>
    rwstep n (rw, f) (rw', f(t := if ok then R_held else RW_out))"
| read_release: "t < n \<Longrightarrow> f t = R_held \<Longrightarrow> rwlock_read_unlock rw = (wake, rw') \<Longrightarrow>
    rwstep n (rw, f) (rw', f(t := if wake then Wake_one else RW_out))"
| write_call: "t < n \<Longrightarrow> f t = RW_out \<Longrightarrow> rwstep n (rw, f) (write_lock_enter rw, f(t := W_try))"
| write_try: "t < n \<Longrightarrow> f t = W_try \<Longrightarrow> rwlock_write_trylock rw = (ok, rw') \<Longrightarrow>
    rwstep n (rw, f) (rw', f(t := if ok then W_got else W_park))"
| write_park: "t < n \<Longrightarrow> f t = W_park \<Longrightarrow> rwstep n (rw, f) (rw\<lparr>writers := writers rw @ [t]\<rparr>, f(t := W_wait))"
| write_leave: "t < n \<Longrightarrow> f t = W_got \<Longrightarrow> rwstep n (rw, f) (write_lock_leave rw, f(t := W_held))"
| write_only_try: "t < n \<Longrightarrow> f t = RW_out \<Longrightarrow> rwlock_write_trylock rw = (ok, rw') \<Longrightarrow>
    rwstep n (rw, f) (rw', f(t := if ok then W_held else RW_out))"
| write_release: "t < n \<Longrightarrow> f t = W_held \<Longrightarrow> rwlock_write_unlock rw = (first, rw') \<Longrightarrow>
    rwstep n (rw, f) (rw', f(t := if first then Wake_one else Wake_all))"
| wake_one: "t < n \<Longrightarrow> f t = Wake_one \<Longrightarrow> writers rw = w # ws \<Longrightarrow>
    rwstep n (rw, f) (rw\<lparr>writers := ws\<rparr>, f(w := W_try, t := RW_out))"
| wake_one_none: "t < n \<Longrightarrow> f t = Wake_one \<Longrightarrow> writers rw = [] \<Longrightarrow> rwstep n (rw, f) (rw, f(t := RW_out))"
| wake_all: "t < n \<Longrightarrow> f t = Wake_all \<Longrightarrow> readers rw = r # rs \<Longrightarrow> rwstep n (rw, f) (rw\<lparr>readers := rs\<rparr>, f(r := R_try))"
| wake_all_done: "t < n \<Longrightarrow> f t = Wake_all \<Longrightarrow> readers rw = [] \<Longrightarrow> rwstep n (rw, f) (rw, f(t := RW_out))"

inductive rwreach :: "nat \<Rightarrow> rwlock \<times> (nat \<Rightarrow> rwpc) \<Rightarrow> bool" for n where
  rw_start: "rwreach n (rwlock_init, \<lambda>t. RW_out)"
| rw_step: "rwreach n s \<Longrightarrow> rwstep n s s' \<Longrightarrow> rwreach n s'"

subsection \<open>Counting threads\<close>

definition cnt :: "(rwpc \<Rightarrow> bool) \<Rightarrow> (nat \<Rightarrow> rwpc) \<Rightarrow> int" where
  "cnt P f = int (card {t. P (f t)})"

definition few :: "nat \<Rightarrow> (nat \<Rightarrow> rwpc) \<Rightarrow> bool" where
  "few n f \<longleftrightarrow> (\<forall>t \<ge> n. f t = RW_out)"

lemma pcs_below: "few n f \<Longrightarrow> \<not> P RW_out \<Longrightarrow> {t. P (f t)} \<subseteq> {..<n}"
  unfolding few_def by (metis (mono_tags) lessThan_iff mem_Collect_eq not_le subsetI)

lemma finite_pcs: "few n f \<Longrightarrow> \<not> P RW_out \<Longrightarrow> finite {t. P (f t)}"
  by (rule finite_subset [OF pcs_below]) simp_all

lemma few_upd: "few n f \<Longrightarrow> t < n \<Longrightarrow> few n (f(t := v))"
  by (simp add: few_def)

lemma cnt_le: "few n f \<Longrightarrow> \<not> P RW_out \<Longrightarrow> cnt P f \<le> int n"
  using card_mono [OF _ pcs_below, of n f P] by (simp add: cnt_def)

lemma cnt_upd:
  assumes "few n f" and "\<not> P RW_out"
  shows "cnt P (f(x := v)) = cnt P f + of_bool (P v) - of_bool (P (f x))"
proof -
  let ?S = "{t. P (f t)}"
  have fin: "finite ?S"
    using assms by (rule finite_pcs)
  have e: "{t. P ((f(x := v)) t)} = (if P v then insert x (?S - {x}) else ?S - {x})"
    by auto
  have m: "x \<in> ?S \<longleftrightarrow> P (f x)"
    by simp
  have c: "int (card (?S - {x})) = int (card ?S) - of_bool (P (f x))"
  proof (cases "P (f x)")
    case True
    then have "0 < card ?S"
      using fin by (auto simp: card_gt_0_iff)
    then show ?thesis
      using True fin by (simp add: card_Diff_singleton)
  qed simp
  have "card (insert x (?S - {x})) = Suc (card (?S - {x}))"
    using fin by (intro card_insert_disjoint) simp_all
  then show ?thesis
    unfolding cnt_def e using c by (cases "P v") (simp_all del: insert_Diff_single)
qed

lemma cnt_zero: "few n f \<Longrightarrow> \<not> P RW_out \<Longrightarrow> cnt P f = 0 \<longleftrightarrow> (\<forall>t. \<not> P (f t))"
  using finite_pcs [of n f P] by (simp add: cnt_def)

lemma cnt_ge: "0 \<le> cnt P f"
  by (simp add: cnt_def)

lemma cnt_pos: "few n f \<Longrightarrow> \<not> P RW_out \<Longrightarrow> P (f t) \<Longrightarrow> 0 < cnt P f"
  using cnt_zero [of n f P] cnt_ge [of P f] by fastforce

lemma cnt_one:
  assumes "cnt P f = 1" "P (f t)" "P (f u)"
  shows "t = u"
proof -
  obtain x where "{t. P (f t)} = {x}"
    using assms(1) by (auto simp: cnt_def card_1_singleton_iff)
  then have "t \<in> {x}" "u \<in> {x}"
    using assms(2,3) by (metis mem_Collect_eq)+
  then show ?thesis
    by simp
qed

subsection \<open>Counters of 32 bits\<close>

definition small :: "int \<Rightarrow> bool" where
  "small k \<longleftrightarrow> - (2 ^ 31) \<le> k \<and> k < 2 ^ 31"

lemma sint_counter: "small k \<Longrightarrow> sint (word_of_int k :: i32) = k"
  by (simp add: small_def sint_sbintrunc' signed_take_bit_int_eq_self)

lemma small_tests:
  assumes "small k"
  shows "0 \<le>s (word_of_int k :: i32) \<longleftrightarrow> 0 \<le> k" "0 <s (word_of_int k :: i32) \<longleftrightarrow> 0 < k"
    "(word_of_int k :: i32) <s 0 \<longleftrightarrow> k < 0" "(word_of_int k :: i32) = 0 \<longleftrightarrow> k = 0"
proof -
  note s = sint_counter [OF assms]
  show "0 \<le>s (word_of_int k :: i32) \<longleftrightarrow> 0 \<le> k" "0 <s (word_of_int k :: i32) \<longleftrightarrow> 0 < k"
    "(word_of_int k :: i32) <s 0 \<longleftrightarrow> k < 0"
    using s by (simp_all add: word_sle_eq word_sless_alt)
  show "(word_of_int k :: i32) = 0 \<longleftrightarrow> k = 0"
    using s by (metis of_int_0 sint_0)
qed

subsection \<open>The invariant\<close>

text \<open>Readers inside, writers inside, and writers between announcing themselves and leaving \<open>rwlock_write_lock\<close>.\<close>

definition is_reader :: "rwpc \<Rightarrow> bool" where "is_reader p \<longleftrightarrow> p = R_held"
definition is_writer :: "rwpc \<Rightarrow> bool" where "is_writer p \<longleftrightarrow> p = W_got \<or> p = W_held"
definition announced :: "rwpc \<Rightarrow> bool" where "announced p \<longleftrightarrow> p = W_try \<or> p = W_park \<or> p = W_wait \<or> p = W_got"

lemmas rwpcs = is_reader_def is_writer_def announced_def

definition count_inv :: "nat \<Rightarrow> rwlock \<times> (nat \<Rightarrow> rwpc) \<Rightarrow> bool" where
  "count_inv n = (\<lambda>(rw, f). few n f \<and> waiting_writers rw = word_of_int (cnt announced f)
     \<and> (cnt is_writer f = 0 \<and> rw_state rw = word_of_int (cnt is_reader f)
        \<or> cnt is_writer f = 1 \<and> cnt is_reader f = 0 \<and> rw_state rw = - 1))"

definition queue_inv :: "rwlock \<times> (nat \<Rightarrow> rwpc) \<Rightarrow> bool" where
  "queue_inv = (\<lambda>(rw, f). distinct (readers rw) \<and> distinct (writers rw)
     \<and> set (readers rw) = {t. f t = R_wait} \<and> set (writers rw) = {t. f t = W_wait})"

lemma cnt_upds:
  assumes "few n f"
  shows "cnt is_reader (f(x := v)) = cnt is_reader f + of_bool (v = R_held) - of_bool (f x = R_held)"
    "cnt is_writer (f(x := v)) = cnt is_writer f + of_bool (v = W_got \<or> v = W_held) - of_bool (f x = W_got \<or> f x = W_held)"
    "cnt announced (f(x := v)) = cnt announced f + of_bool (announced v) - of_bool (announced (f x))"
  using assms by (simp_all add: cnt_upd rwpcs)

lemma cnt_facts:
  assumes "few n f" and "n < 2 ^ 31"
  shows "small (cnt is_reader f)" "small (cnt announced f)" "0 \<le> cnt is_reader f" "0 \<le> cnt announced f"
    "f t = R_held \<Longrightarrow> 0 < cnt is_reader f" "is_writer (f t) \<Longrightarrow> 0 < cnt is_writer f" "announced (f t) \<Longrightarrow> 0 < cnt announced f"
proof -
  have n: "int n < 2 ^ 31" using assms(2) by simp
  show "small (cnt is_reader f)" "small (cnt announced f)"
    using n cnt_le [OF assms(1), of is_reader] cnt_le [OF assms(1), of announced] cnt_ge [of is_reader f] cnt_ge [of announced f]
    by (simp_all add: small_def rwpcs)
  show "f t = R_held \<Longrightarrow> 0 < cnt is_reader f" "is_writer (f t) \<Longrightarrow> 0 < cnt is_writer f" "announced (f t) \<Longrightarrow> 0 < cnt announced f"
    using cnt_pos [OF assms(1), of is_reader t] cnt_pos [OF assms(1), of is_writer t] cnt_pos [OF assms(1), of announced t]
    by (simp_all add: rwpcs)
qed (rule cnt_ge)+

lemma count_inv_step:
  assumes "rwstep n s s'" and "count_inv n s" and "queue_inv s" and n: "n < 2 ^ 31"
  shows "count_inv n s'"
  using assms(1)
proof cases
  case (read_try t f rw ok rw')
  then show ?thesis
    using assms(2) cnt_facts [OF _ n, of f]
    by (auto simp: count_inv_def rwlock_read_trylock_def cnt_upds few_upd announced_def small_tests split: if_splits)
next
  case (read_only_try t f rw ok rw')
  then show ?thesis
    using assms(2) cnt_facts [OF _ n, of f]
    by (auto simp: count_inv_def rwlock_read_trylock_def cnt_upds few_upd announced_def small_tests split: if_splits)
next
  case (read_release t f rw wake rw')
  then show ?thesis
    using assms(2) cnt_facts [OF _ n, of f]
    by (auto simp: count_inv_def rwlock_read_unlock_def cnt_upds few_upd announced_def small_tests Let_def split: if_splits)
next
  case (write_try t f rw ok rw')
  then show ?thesis
    using assms(2) cnt_facts [OF _ n, of f]
    by (auto simp: count_inv_def rwlock_write_trylock_def cnt_upds few_upd announced_def small_tests split: if_splits)
next
  case (write_only_try t f rw ok rw')
  then show ?thesis
    using assms(2) cnt_facts [OF _ n, of f]
    by (auto simp: count_inv_def rwlock_write_trylock_def cnt_upds few_upd announced_def small_tests split: if_splits)
next
  case (write_leave t f rw)
  then show ?thesis
    using assms(2) cnt_facts [OF _ n, of f] 
    by (auto simp: count_inv_def write_lock_leave_def cnt_upds few_upd announced_def small_tests split: if_splits)
next
  case (write_release t f rw first rw')
  then have "few n f" "0 < cnt is_writer f"
    using assms(2) cnt_facts(6) [OF _ n, of f t] by (auto simp: count_inv_def is_writer_def)
  then show ?thesis
    using assms(2) write_release
    by (auto simp: count_inv_def rwlock_write_unlock_def cnt_upds few_upd announced_def split: if_splits)
next
  case (wake_one t f rw w ws)
  have w: "f w = W_wait" using assms(3) wake_one by (auto simp: queue_inv_def)
  moreover have "w < n" using assms(2) wake_one w by (cases "w < n") (auto simp: count_inv_def few_def)
  ultimately show ?thesis
    using assms(2) wake_one by (auto simp: count_inv_def cnt_upds [of n] few_upd announced_def)
next
  case (wake_all t f rw r rs)
  have r: "f r = R_wait" using assms(3) wake_all by (auto simp: queue_inv_def)
  moreover have "r < n" using assms(2) wake_all r by (cases "r < n") (auto simp: count_inv_def few_def)
  ultimately show ?thesis
    using assms(2) wake_all by (auto simp: count_inv_def cnt_upds few_upd announced_def)
qed (use assms(2) in \<open>auto simp: count_inv_def write_lock_enter_def cnt_upds few_upd announced_def\<close>)

lemma queue_inv_step:
  assumes "rwstep n s s'" and "queue_inv s"
  shows "queue_inv s'"
  using assms(1)
proof cases
  case (wake_one t f rw w ws)
  have "f w = W_wait" using assms(2) wake_one by (auto simp: queue_inv_def)
  then show ?thesis using assms(2) wake_one by (auto simp: queue_inv_def)
next
  case (wake_all t f rw r rs)
  have "f r = R_wait" using assms(2) wake_all by (auto simp: queue_inv_def)
  then show ?thesis using assms(2) wake_all by (auto simp: queue_inv_def)
qed (use assms(2) in \<open>auto simp: queue_inv_def write_lock_enter_def write_lock_leave_def rwlock_read_trylock_def
    rwlock_write_trylock_def rwlock_read_unlock_def rwlock_write_unlock_def Let_def split: if_splits\<close>)

lemma rw_inv_reach: "rwreach n s \<Longrightarrow> n < 2 ^ 31 \<Longrightarrow> count_inv n s \<and> queue_inv s"
proof (induction rule: rwreach.induct)
  case rw_start
  then show ?case
    by (simp add: count_inv_def queue_inv_def rwlock_init_def cnt_def rwpcs few_def)
next
  case (rw_step s s')
  then show ?case using count_inv_step queue_inv_step by blast
qed

subsection \<open>Properties\<close>

text \<open>
  C10. The reader-writer lock keeps its promise under every interleaving of fewer than \<open>2^31\<close> threads that use the blocking and the
  trying operations: a writer inside excludes all readers
  and all other writers; the state word is the number of readers inside, or \<open>-1\<close> when a writer is, and the two accessors report
  this; the number of
  waiting writers is exact, so that no reader enters while a writer waits; when nobody is inside, an attempt to
  write succeeds, and an attempt to read does when moreover no writer waits; and the wait queues hold exactly the threads
  that wait, each once.
\<close>

theorem rwlock_exclusion:
  assumes "rwreach n (rw, f)" and "n < 2 ^ 31"
  shows "(\<forall>t u. is_writer (f t) \<longrightarrow> \<not> is_reader (f u) \<and> (is_writer (f u) \<longrightarrow> t = u))
    \<and> sint (rw_state rw) = (if \<exists>t. is_writer (f t) then - 1 else int (card {t. is_reader (f t)}))
    \<and> sint (rwlock_reader_count rw) = int (card {t. is_reader (f t)})
    \<and> rwlock_write_held rw = (\<exists>t. is_writer (f t))
    \<and> sint (waiting_writers rw) = int (card {t. announced (f t)})
    \<and> (\<forall>t. announced (f t) \<longrightarrow> \<not> fst (rwlock_read_trylock rw))
    \<and> ((\<forall>t. \<not> is_writer (f t) \<and> \<not> is_reader (f t)) \<longrightarrow> fst (rwlock_write_trylock rw)
        \<and> ((\<forall>t. \<not> announced (f t)) \<longrightarrow> fst (rwlock_read_trylock rw)))
    \<and> distinct (readers rw @ writers rw) \<and> set (readers rw) = {t. f t = R_wait} \<and> set (writers rw) = {t. f t = W_wait}"
proof -
  have inv: "count_inv n (rw, f)" and q: "queue_inv (rw, f)"
    using rw_inv_reach [OF assms] by simp_all
  then have fin: "few n f" and ww: "waiting_writers rw = word_of_int (cnt announced f)"
    and st: "cnt is_writer f = 0 \<and> rw_state rw = word_of_int (cnt is_reader f)
      \<or> cnt is_writer f = 1 \<and> cnt is_reader f = 0 \<and> rw_state rw = - 1"
    by (simp_all add: count_inv_def)
  note facts = cnt_facts [OF fin assms(2)]
  have zw: "cnt is_writer f = 0 \<longleftrightarrow> (\<forall>t. \<not> is_writer (f t))" and zr: "cnt is_reader f = 0 \<longleftrightarrow> (\<forall>t. \<not> is_reader (f t))"
    and za: "cnt announced f = 0 \<longleftrightarrow> (\<forall>t. \<not> announced (f t))"
    using cnt_zero [OF fin] by (simp_all add: rwpcs)
  have c1: "\<forall>t u. is_writer (f t) \<longrightarrow> \<not> is_reader (f u) \<and> (is_writer (f u) \<longrightarrow> t = u)"
    using st zw zr cnt_one [of is_writer f] by metis
  have c2: "sint (rw_state rw) = (if \<exists>t. is_writer (f t) then - 1 else int (card {t. is_reader (f t)}))"
    using st zw sint_counter [OF facts(1)] by (auto simp: cnt_def [of is_reader])
  have c3: "sint (rwlock_reader_count rw) = int (card {t. is_reader (f t)})"
    unfolding cnt_def [of is_reader, symmetric] rwlock_reader_count_def
    using st sint_counter [OF facts(1)] small_tests(2) [OF facts(1)] facts(3) by (auto simp: word_sless_alt)
  have c4: "rwlock_write_held rw = (\<exists>t. is_writer (f t))"
    unfolding rwlock_write_held_def using st zw small_tests(3) [OF facts(1)] facts(3) by (auto simp: word_sless_alt)
  have c5: "\<forall>t. announced (f t) \<longrightarrow> \<not> fst (rwlock_read_trylock rw)"
    using ww za small_tests(4) [OF facts(2)] by (auto simp: rwlock_read_trylock_def)
  have c6: "(\<forall>t. \<not> is_writer (f t) \<and> \<not> is_reader (f t)) \<longrightarrow> fst (rwlock_write_trylock rw)
      \<and> ((\<forall>t. \<not> announced (f t)) \<longrightarrow> fst (rwlock_read_trylock rw))"
    using st zw zr za ww by (auto simp: rwlock_write_trylock_def rwlock_read_trylock_def word_sle_eq)
  have c7: "sint (waiting_writers rw) = int (card {t. announced (f t)})"
    using sint_counter [OF facts(2)] by (simp add: ww cnt_def)
  have c8: "distinct (readers rw @ writers rw)" "set (readers rw) = {t. f t = R_wait}" "set (writers rw) = {t. f t = W_wait}"
    using q by (auto simp: queue_inv_def)
  show ?thesis
    using c1 c2 c3 c4 c7 c5 c6 c8 by blast
qed

theorem rwlock_exclusion_witness:
  "\<exists>rw f. rwreach 2 (rw, f) \<and> f 1 = R_held \<and> sint (rw_state rw) = 1 \<and> sint (rwlock_reader_count rw) = 1"
proof -
  define f where "f = (\<lambda>t :: nat. RW_out)(1 := R_held)"
  define rw where "rw = rwlock_init\<lparr>rw_state := 1\<rparr>"
  have r0: "rwreach 2 (rwlock_init, (\<lambda>t. RW_out)(1 := R_try))"
    by (rule rw_step [OF rw_start], rule read_call) simp_all
  have "rwstep 2 (rwlock_init, (\<lambda>t. RW_out)(1 := R_try)) (rw, ((\<lambda>t. RW_out)(1 := R_try))(1 := if True then R_held else R_park))"
    by (rule read_try) (simp_all add: rwlock_read_trylock_def rwlock_init_def rw_def word_sle_eq)
  then have r: "rwreach 2 (rw, f)"
    using rw_step [OF r0] by (simp only: if_True fun_upd_upd f_def)
  have one: "{t. is_reader (f t)} = {1}" and no: "\<not> (\<exists>t. is_writer (f t))"
    by (auto simp: f_def is_reader_def is_writer_def)
  have "sint (rw_state rw) = 1 \<and> sint (rwlock_reader_count rw) = 1"
    using rwlock_exclusion [OF r] unfolding one if_not_P [OF no] by simp
  then show ?thesis
    using r f_def by (intro exI [of _ rw] exI [of _ f]) simp
qed

text \<open>
  The wake-up of a reader can be lost: a reader fails to enter, the writer inside releases the lock and finds
  the queue of readers empty, and only then the reader goes to sleep.  It waits although the lock is free and every other thread is
  outside.
\<close>

theorem rwlock_lost_wakeup:
  "rwreach 2 (rwlock_init\<lparr>readers := [1]\<rparr>, (\<lambda>t. RW_out)(1 := R_wait))"
proof -
  have s1: "rwreach 2 (rwlock_init\<lparr>rw_state := - 1\<rparr>, (\<lambda>t. RW_out)(0 := if True then W_held else RW_out))"
    by (rule rw_step [OF rw_start], rule write_only_try) (simp_all add: rwlock_write_trylock_def rwlock_init_def)
  have s2: "rwreach 2 (rwlock_init\<lparr>rw_state := - 1\<rparr>, (\<lambda>t. RW_out)(0 := W_held, 1 := R_try))"
    by (rule rw_step [OF s1 [unfolded if_True]], rule read_call) simp_all
  have s3: "rwreach 2 (rwlock_init\<lparr>rw_state := - 1\<rparr>, ((\<lambda>t. RW_out)(0 := W_held, 1 := R_try))(1 := if False then R_held else R_park))"
    by (rule rw_step [OF s2], rule read_try) (simp_all add: rwlock_read_trylock_def rwlock_init_def word_sle_eq)
  have s4: "rwreach 2 (rwlock_init, ((\<lambda>t. RW_out)(0 := W_held, 1 := R_park))(0 := if False then Wake_one else Wake_all))"
    by (rule rw_step [OF s3 [unfolded if_False fun_upd_upd]], rule write_release)
      (simp_all add: rwlock_write_unlock_def rwlock_init_def Let_def)
  have s5: "rwreach 2 (rwlock_init, ((\<lambda>t. RW_out)(0 := W_held, 1 := R_park))(0 := RW_out))"
    using rw_step [OF s4 [unfolded if_False] wake_all_done [of 0]] by (simp add: rwlock_init_def)
  have "rwreach 2 (rwlock_init\<lparr>readers := readers rwlock_init @ [1]\<rparr>, (((\<lambda>t. RW_out)(0 := W_held, 1 := R_park))(0 := RW_out))(1 := R_wait))"
    by (rule rw_step [OF s5], rule read_park) simp_all
  moreover have "(((\<lambda>t. RW_out)(0 := W_held, 1 := R_park))(0 := RW_out))(1 := R_wait) = ((\<lambda>t :: nat. RW_out)(1 := R_wait))"
    by (rule ext) simp
  ultimately show ?thesis by (simp add: rwlock_init_def)
qed

end
