(* ===== verification/Spec2Isabelle.thy ===== *)
theory Spec2Isabelle
  imports Kmath Idr Klog Ktrace Input_Queue Tty KList Hashtable Radix
    Pmm Heap Vmregion Cstring Fmt Strbuf Path
    Net_Endian Checksum Netbuf Netif Arp Ipv4 Icmp Udp Tcp Net_Stack Net_Conn Socket
    Sched Mutex Rwlock
begin

text \<open>
  A verification library for the MyOS kernel (\<open>src/myos/kernel\<close>), a monolithic preemptive x86-64
  kernel in C.

  \<^bold>\<open>The parts and how they interact.\<close>  The data-structure library (\<open>lib/\<close>) is pure code that the rest is
  built on: bitmaps carry the id and page allocators, the intrusive list carries queues and registries, ring buffers the
  log, the input queue and the receive rings, hash table and radix tree the indexes.  The memory managers
  (\<open>memory/\<close>) hand out pages, heap blocks and address-space regions.  The network stack (\<open>net/\<close>) passes
  packet buffers down through sockets, UDP, TCP or ICMP, IPv4, ARP and Ethernet to an interface, and back up on receipt; the
  loopback device ties the two directions together.  The scheduler (\<open>sched/\<close>) runs threads from a ready queue, driven by
  the timer interrupt, and the sleeping locks (\<open>sync/\<close>) block and wake threads through it.

  \<^bold>\<open>The embedding.\<close>  Conventions are in \<open>Prelude\<close>: a \<open>uintN_t\<close> is an \<open>N word\<close>, an array is a list, a
  structure is a record, a counted loop is a \<open>fold\<close> and a loop with an exit a recursive function.  A loop that need not end is a
  \<open>partial_function (option)\<close>, and the theorems about it state that it returns.  The state of each subsystem is one record that
  its operations take and return; the network state is a chain of extensible records, one layer per protocol, so that a
  protocol works on every state that extends its own.  Error returns are the integers of the source, option or sum values.
  Pointers to functions and hardware are arguments: the transmit hook of a driver (\<open>tx\<close>, \<open>drv\<close>), the receiver
  of a datagram (\<open>call\<close>), the answers of the object allocator (\<open>kmem_grant\<close>).

  \<^bold>\<open>The theories.\<close>

  \<^item> \<open>Prelude\<close>: machine words, list update loops, the least-index scan.
  \<^item> \<open>Kmath\<close>: \<open>lib/kmath.h\<close>, checked arithmetic, alignment, rounding: exact on every input that does not wrap.
  \<^item> \<open>Swar\<close>: arithmetic of the in-register population count.
  \<^item> \<open>Bit_Store\<close>: the interface of a store of bits, with the allocation argument shared by its clients.
  \<^item> \<open>Bitmap\<close>: \<open>lib/bitmap.c\<close>, a \<open>bit_store\<close>: allocation, runs, population count.
  \<^item> \<open>Idr\<close>: \<open>lib/idr.c\<close>, id allocation over the bitmap.
  \<^item> \<open>Fifo\<close>: rings and the interface of a bounded queue.
  \<^item> \<open>Ringbuf\<close>: \<open>lib/ringbuf.c\<close>, a bounded queue of bytes.
  \<^item> \<open>Klog\<close>: \<open>debug/klog_ring.c\<close>, a client of the ring buffer.
  \<^item> \<open>Ktrace\<close>: \<open>debug/ktrace.c\<close>, the trace ring and the history it represents.
  \<^item> \<open>Input_Queue\<close>, \<open>Tty\<close>: \<open>input/input_queue.c\<close> (a bounded queue) and \<open>tty/tty.c\<close> (line editing).
  \<^item> \<open>KList\<close>: \<open>lib/list.h\<close>, \<open>list.c\<close>, \<open>queue.h\<close> on a store of pointers, with the merge sort.
  \<^item> \<open>Map_Store\<close>: the interface of an index; \<open>Hashtable\<close> and \<open>Radix\<close> are its providers.
  \<^item> \<open>Pmm\<close>: \<open>memory/pmm.c\<close>, the physical page allocator, a \<open>bit_store\<close>.
  \<^item> \<open>Heap\<close>: \<open>memory/heap.c\<close>, the kernel heap over a store of block headers.
  \<^item> \<open>Vmregion\<close>: \<open>memory/vmregion.c\<close>, the regions of an address space as a partial function from addresses,
    with an allocator of region objects that may fail.
  \<^item> \<open>Cstring\<close>: \<open>src/string.c\<close>, memory and string primitives over a byte memory.
  \<^item> \<open>Fmt\<close>: \<open>lib/fmt.c\<close>, formatted output as appending to a sink.
  \<^item> \<open>Strbuf\<close>: \<open>lib/strbuf.c\<close>, the bounded string builder: stored prefix, truncation, no write beyond the capacity.
  \<^item> \<open>Path\<close>: \<open>fs/path.c\<close>: a resolved path is the normal form of its names, the call fails exactly when the
    input, the depth or the result does not fit, normal paths are fixed points, parent and last name take a normal path apart.
  \<^item> \<open>Net_Endian\<close>: \<open>net/net_endian.h\<close> and \<open>net/net_addr.h\<close>: byte order, IPv4 addresses, and the contract
    \<open>wire_field\<close> of a packed header field.
  \<^item> \<open>Checksum\<close>: \<open>net/checksum.c\<close>: the internet checksum, its folding loop and what the test for zero accepts.
  \<^item> \<open>Netbuf\<close>: \<open>net/netbuf.c\<close> and \<open>net/ethernet.c\<close>: packet buffers with their pointer invariant, framing.
  \<^item> \<open>Netif\<close>: \<open>net/net_if.c\<close>: the interface registry and the transmit path.
  \<^item> \<open>Arp\<close>: \<open>net/arp.c\<close>: the address cache, requests, replies and resolution.
  \<^item> \<open>Ipv4\<close>: \<open>net/ipv4.c\<close>: the routing table (longest prefix), header construction and output.
  \<^item> \<open>Icmp\<close>: \<open>net/icmp.c\<close>: echo messages, and the message builder the transport protocols share.
  \<^item> \<open>Udp\<close>: \<open>net/udp.c\<close>: bindings, demultiplexing, ephemeral ports, datagrams.
  \<^item> \<open>Tcp\<close>: \<open>net/tcp.c\<close>: control blocks, segments and the connection state machine: segments that conform to
    RFC 793 follow its diagram, and the effect of all others is given by their flags.
  \<^item> \<open>Net_Stack\<close>: the input path of \<open>net/ipv4.c\<close> and \<open>net/net_if.c\<close>, the loopback device and \<open>net/net.c\<close>: the
    stack put together; a ping over loopback is answered.
  \<^item> \<open>Net_Conn\<close>: TCP over the loopback device: segments that are sent arrive, the three-way handshake
    completes, and a connection from the unspecified address is lost.
  \<^item> \<open>Socket\<close>: \<open>net/socket.c\<close> over UDP and TCP; the receive ring is a bounded queue, and a datagram sent over
    the loopback device is received with its sender.
  \<^item> \<open>Sched\<close>: \<open>sched/scheduler.c\<close>, \<open>sched/sleep.c\<close> and the timer interrupt, over the linked ready queue and
    sleep list: ready threads run in order after an exact number of ticks, sleepers wake at their tick.
  \<^item> \<open>Mutex\<close>: \<open>sync/spinlock.c\<close>, \<open>sync/waitqueue.c\<close> and \<open>sync/mutex.c\<close> on top of the scheduler, as a step relation
    over preemptible threads: mutual exclusion for every interleaving, and a schedule that loses a wake-up.
  \<^item> \<open>Rwlock\<close>: \<open>sync/rwlock.c\<close> as a step relation over its critical sections and wait queues: exclusion, exact counters
    and writer preference in every reachable state, and a schedule that loses a wake-up.

  \<^bold>\<open>Interfaces.\<close>  Four contracts are locales, each interpreted on the definitions that provide it: \<open>bit_store\<close> (bitmap, page
  allocator), \<open>bounded_fifo\<close> (byte ring, input queue, receive ring of a socket), \<open>map_store\<close> (hash table, radix tree)
  and \<open>wire_field\<close> (the four encodings of packed fields).

  \<^bold>\<open>Bounds.\<close>  Input on the loopback device can send again from inside the transmission that caused it.  \<open>stack_tx\<close>
  bounds the nesting: depth 2 is enough for a ping and its answer and depth 3 for SYN, SYN-ACK and ACK, and the theorems
  hold for every larger depth.  \<open>run_ticks\<close> counts timer interrupts.  The ephemeral port search has the
  16384 rounds of the source and is shown to end within 17.  The counters of the reader-writer lock have 32 bits and are exact
  for fewer than \<open>2^31\<close> threads.

  \<^bold>\<open>Not modelled.\<close>  Code that programs hardware: the processor tables, paging and interrupt controllers (\<open>arch/\<close>,
  \<open>memory/vmm.c\<close>), the device drivers (\<open>storage/\<close>, \<open>usb/\<close>, \<open>pci/\<close>, \<open>msi/\<close>, \<open>hw/\<close>, \<open>net/e1000.c\<close>), consoles and
  panic output, the boot loader; what these do depends on devices outside the sources.  Code that dispatches through tables of
  function pointers or maps user memory: the virtual file system with its file systems and caches, processes, system calls, the
  user loader, the device and driver registries.  Also left out: semaphores and completions, kernel objects, work
  queues and callouts, DNS and DHCP, the block and partition layers, and the user programs.  Of the
  modelled parts, register and stack switching, thread creation, log output and names used only for
  diagnostics are not part of the state.
\<close>

end
